(* ===== verification/Driver_Prelude.thy ===== *)
theory Driver_Prelude
  imports Main "HOL-Library.AList"
begin

text \<open>
  Shared vocabulary of the development: the exceptions and undefined behaviours the driver's
  code can run into, the parts of the C++ standard library the components call
  (\<^verbatim>\<open>std::to_string\<close>, \<^verbatim>\<open>std::string::find\<close>, \<^verbatim>\<open>std::string::replace\<close>,
  \<^verbatim>\<open>strcasecmp\<close>), the object store behind \<^verbatim>\<open>std::shared_ptr\<close>, and the clock behind
  \<^verbatim>\<open>std::chrono::steady_clock::now()\<close> and \<^verbatim>\<open>time()\<close>.
\<close>

named_theorems store_simps \<open>rewriting reads and writes of an object store\<close>
named_theorems str_simps \<open>facts on the C++ string helpers\<close>

section \<open>Failures as values\<close>

text \<open>
  Everything that does not return normally: the C++ exceptions the driver throws, and the two
  undefined behaviours its code can reach, a dereferenced null pointer and pointer arithmetic
  that leaves the object.
\<close>

datatype exc =
    Runtime_error string
  | Invalid_argument string
  | Null_deref
  | Bad_pointer

type_synonym 'a res = "exc + 'a"

section \<open>The object store behind shared pointers\<close>

text \<open>
  Objects of one class live in a list; a non-null \<^verbatim>\<open>shared_ptr\<close> is an index of the list, so
  that two pointers are equal exactly when they denote the same object and a write through one
  is seen through the other. \<^verbatim>\<open>nullptr\<close> is \<open>None\<close> of a \<open>ref option\<close>.
\<close>

type_synonym ref = nat

definition alloc :: "'a \<Rightarrow> 'a list \<Rightarrow> ref \<times> 'a list" where
  "alloc x st = (length st, st @ [x])"

definition modify :: "ref \<Rightarrow> ('a \<Rightarrow> 'a) \<Rightarrow> 'a list \<Rightarrow> 'a list" where
  "modify r f st = st[r := f (st ! r)]"

lemma length_modify [simp, store_simps]: "length (modify r f st) = length st"
  by (simp add: modify_def)

lemma modify_same [store_simps]: "r < length st \<Longrightarrow> modify r f st ! r = f (st ! r)"
  by (simp add: modify_def)

lemma modify_other [store_simps]: "r \<noteq> r' \<Longrightarrow> modify r f st ! r' = st ! r'"
  by (simp add: modify_def)

lemma modify_nth: "r < length st \<Longrightarrow> modify r f st ! r' = (if r' = r then f (st ! r) else st ! r')"
  by (simp add: modify_def)

lemma modify_field:
  assumes "\<And>x. g (f x) = g x"
  shows "g (modify r f st ! r') = g (st ! r')"
proof (cases "r < length st")
  case True
  then show ?thesis by (simp add: modify_nth assms)
next
  case False
  then show ?thesis by (simp add: modify_def list_update_beyond)
qed

lemma alloc_simps [store_simps]:
  "fst (alloc x st) = length st"
  "snd (alloc x st) = st @ [x]"
  by (simp_all add: alloc_def)

section \<open>Integer conversions\<close>

text \<open>
  The conversions between the signed and unsigned types the code mixes: to a 64-bit
  \<^verbatim>\<open>size_t\<close>, and to a 32-bit \<^verbatim>\<open>int\<close>.
\<close>

definition to_size_t :: "int \<Rightarrow> int" where
  "to_size_t i = i mod 2 ^ 64"

definition to_int32 :: "int \<Rightarrow> int" where
  "to_int32 i = (i + 2 ^ 31) mod 2 ^ 32 - 2 ^ 31"

lemma to_size_t_id: "0 \<le> i \<Longrightarrow> i < 2 ^ 64 \<Longrightarrow> to_size_t i = i"
  by (simp add: to_size_t_def)

lemma to_int32_id: "- (2 ^ 31) \<le> i \<Longrightarrow> i < 2 ^ 31 \<Longrightarrow> to_int32 i = i"
  by (simp add: to_int32_def)

lemma to_size_t_nat [simp]: "n \<le> 2 ^ 31 \<Longrightarrow> to_size_t (int n) = int n"
  by (simp add: to_size_t_def)

lemma to_int32_nat [simp]: "n < 2 ^ 31 \<Longrightarrow> to_int32 (int n) = int n"
  by (simp add: to_int32_def)

section \<open>The clock\<close>

text \<open>
  The code reads the clock again and again, also within one operation, and the readings may
  differ. A clock is the function from the number of the reading to its value; the model of an
  operation threads the number of the next reading. A steady clock is monotone.
\<close>

type_synonym clock = "nat \<Rightarrow> int"

definition steady :: "clock \<Rightarrow> bool" where
  "steady c \<longleftrightarrow> (\<forall>i j. i \<le> j \<longrightarrow> c i \<le> c j)"

lemma steadyD: "steady c \<Longrightarrow> i \<le> j \<Longrightarrow> c i \<le> c j"
  by (simp add: steady_def)

section \<open>Strings\<close>

text \<open>\<^verbatim>\<open>std::to_string\<close> of an integer: its decimal digits, with a sign when it is negative.\<close>

fun string_of_nat :: "nat \<Rightarrow> string" where
  "string_of_nat n =
     (if n < 10 then [char_of (48 + n)]
      else string_of_nat (n div 10) @ [char_of (48 + n mod 10)])"

declare string_of_nat.simps [simp del]

definition to_string :: "int \<Rightarrow> string" where
  "to_string i = (if i < 0 then ''-'' @ string_of_nat (nat (- i)) else string_of_nat (nat i))"

definition digits_value :: "string \<Rightarrow> nat" where
  "digits_value s = foldl (\<lambda>a c. 10 * a + (of_char c - 48)) 0 s"

definition is_c_space :: "char \<Rightarrow> bool" where
  "is_c_space c \<longleftrightarrow> c \<in> {CHR '' '', CHR 0x09, CHR 0x0A, CHR 0x0B, CHR 0x0C, CHR 0x0D}"

definition is_c_digit :: "char \<Rightarrow> bool" where
  "is_c_digit c \<longleftrightarrow> 48 \<le> (of_char c :: nat) \<and> (of_char c :: nat) \<le> 57"

text \<open>\<^verbatim>\<open>std::atol\<close>; it saturates at the bounds of a 64-bit \<^verbatim>\<open>long\<close>.\<close>

definition atol :: "string \<Rightarrow> int" where
  "atol s =
     (let t = dropWhile is_c_space s;
          neg = (t \<noteq> [] \<and> hd t = CHR ''-'');
          u = (if t \<noteq> [] \<and> (hd t = CHR ''-'' \<or> hd t = CHR ''+'') then tl t else t);
          v = int (digits_value (takeWhile is_c_digit u))
      in if neg then max (- (2 ^ 63)) (- v) else min (2 ^ 63 - 1) v)"

lemma digit_of_char [simp]: "d < 10 \<Longrightarrow> of_char (char_of (48 + d)) = (48 + d :: nat)"
  by simp

lemma digits_value_string_of_nat [str_simps]: "digits_value (string_of_nat n) = n"
proof (induction n rule: string_of_nat.induct)
  case (1 n)
  then show ?case
    by (subst string_of_nat.simps) (auto simp: digits_value_def simp del: of_char_of)
qed

lemma string_of_nat_inject [str_simps]: "string_of_nat m = string_of_nat n \<longleftrightarrow> m = n"
  by (metis digits_value_string_of_nat)

lemma digits_of_string_of_nat:
  "c \<in> set (string_of_nat n) \<Longrightarrow> 48 \<le> (of_char c :: nat) \<and> (of_char c :: nat) < 58"
proof (induction n rule: string_of_nat.induct)
  case (1 n)
  show ?case
  proof (cases "n < 10")
    case True
    with 1 have "c = char_of (48 + n)" by (simp add: string_of_nat.simps [of n])
    with True show ?thesis by (simp only: digit_of_char) simp
  next
    case False
    have m: "n mod 10 < 10" by simp
    from "1.prems" False have "c \<in> set (string_of_nat (n div 10)) \<or> c = char_of (48 + n mod 10)"
      by (auto simp: string_of_nat.simps [of n])
    then show ?thesis
    proof
      assume "c \<in> set (string_of_nat (n div 10))"
      with "1.IH" False show ?thesis by simp
    next
      assume "c = char_of (48 + n mod 10)"
      then show ?thesis by (simp only: digit_of_char [OF m]) simp
    qed
  qed
qed

lemma string_of_nat_zero [simp]: "string_of_nat 0 = ''0''"
  by code_simp

lemma string_of_nat_nonempty [simp]: "string_of_nat n \<noteq> []"
  by (subst string_of_nat.simps) simp

lemma length_digits: "length (string_of_nat n) \<le> k \<longleftrightarrow> n < 10 ^ k \<and> 0 < k"
proof (induction n arbitrary: k rule: string_of_nat.induct)
  case (1 n)
  show ?case
  proof (cases "n < 10")
    case True
    have "n < 10 * 10 ^ j" for j using True by (rule less_le_trans) simp
    then show ?thesis using True by (cases k) (simp_all add: string_of_nat.simps [of n])
  next
    case False
    then show ?thesis
    proof (cases k)
      case (Suc j)
      have "length (string_of_nat (n div 10)) \<le> j \<longleftrightarrow> n div 10 < 10 ^ j \<and> 0 < j" using 1 [OF False] .
      moreover have "0 < j" if "n < 10 * 10 ^ j" using that False by (cases j) auto
      ultimately show ?thesis using False Suc by (auto simp: string_of_nat.simps [of n] div_less_iff_less_mult mult.commute)
    qed (simp add: string_of_nat.simps [of n])
  qed
qed

lemma to_string_inject [str_simps]: "to_string i = to_string j \<longleftrightarrow> i = j"
proof -
  have no_sign: "''-'' @ s \<noteq> string_of_nat n" for s n
  proof
    assume "''-'' @ s = string_of_nat n"
    then have "CHR ''-'' \<in> set (string_of_nat n)" by (metis append_Cons list.set_intros(1))
    then show False using digits_of_string_of_nat by fastforce
  qed
  show ?thesis
    using no_sign by (auto simp: to_string_def string_of_nat_inject dest: sym)
qed

lemma to_string_chars: "c \<in> set (to_string i) \<Longrightarrow> c = CHR ''-'' \<or> 48 \<le> (of_char c :: nat) \<and> (of_char c :: nat) < 58"
  by (auto simp: to_string_def split: if_splits dest: digits_of_string_of_nat)

lemma to_string_no_colon [simp]: "CHR '':'' \<notin> set (to_string i)"
  using to_string_chars by fastforce

lemma append_last_sep_eq:
  assumes "c \<notin> set u" "c \<notin> set v"
  shows "s @ c # u = t @ c # v \<longleftrightarrow> s = t \<and> u = v"
  using assms by (auto simp: append_eq_append_conv2 append_eq_Cons_conv Cons_eq_append_conv)

text \<open>
  \<^verbatim>\<open>std::string::find\<close> of one character (\<open>None\<close> is \<^verbatim>\<open>npos\<close>) and \<^verbatim>\<open>std::string::replace\<close>
  of \<open>n\<close> characters from position \<open>p\<close>.
\<close>

fun find_char :: "char \<Rightarrow> string \<Rightarrow> nat option" where
  "find_char c [] = None"
| "find_char c (x # xs) = (if x = c then Some 0 else map_option Suc (find_char c xs))"

definition replace_str :: "nat \<Rightarrow> nat \<Rightarrow> string \<Rightarrow> string \<Rightarrow> string" where
  "replace_str p n new s = take p s @ new @ drop (p + n) s"

lemma find_char_None [str_simps]: "find_char c s = None \<longleftrightarrow> c \<notin> set s"
  by (induction s) auto

lemma find_char_Some:
  "find_char c s = Some p \<Longrightarrow> p < length s \<and> s ! p = c \<and> c \<notin> set (take p s)"
  by (induction s arbitrary: p) (auto split: if_splits)

lemma find_char_append [str_simps]:
  "c \<notin> set u \<Longrightarrow> find_char c (u @ c # v) = Some (length u)"
  by (induction u) auto

text \<open>ASCII case folding, and equality under \<^verbatim>\<open>strcasecmp\<close>.\<close>

definition to_lower :: "char \<Rightarrow> char" where
  "to_lower c = (let n = of_char c :: nat in if 65 \<le> n \<and> n \<le> 90 then char_of (n + 32) else c)"

lemma of_char_to_lower [str_simps]:
  "(of_char (to_lower c) :: nat) =
     (if 65 \<le> (of_char c :: nat) \<and> (of_char c :: nat) \<le> 90 then of_char c + 32 else of_char c)"
  by (simp add: to_lower_def Let_def)

lemma to_lower_idem [simp]: "to_lower (to_lower c) = to_lower c"
  by (simp add: to_lower_def Let_def)

lemma to_lower_eq_iff:
  assumes "\<not> (97 \<le> (of_char d :: nat) \<and> (of_char d :: nat) \<le> 122)" "to_lower d = d"
  shows "to_lower c = d \<longleftrightarrow> c = d"
proof
  assume eq: "to_lower c = d"
  then have "(of_char (to_lower c) :: nat) = of_char d" by simp
  with assms(1) have "(of_char c :: nat) = of_char d"
    by (simp add: of_char_to_lower split: if_splits)
  then show "c = d" by simp
qed (use assms in simp)

definition strcaseeq :: "string \<Rightarrow> string \<Rightarrow> bool" where
  "strcaseeq s t \<longleftrightarrow> map to_lower s = map to_lower t"

end
