(* ===== verification/Query_Parsing.thy ===== *)
theory Query_Parsing
  imports Driver_Prelude
begin

text \<open>
  Splitting the text of a query into statements (\<^verbatim>\<open>driver/query_parsing.cc\<close>). The code edits
  one string in place with an index into it; the model keeps the string and the index.
\<close>

definition is_space :: "char \<Rightarrow> bool" where
  "is_space c \<longleftrightarrow> c = CHR '' '' \<or> c = CHR 0x0D \<or> c = CHR 0x0A \<or> c = CHR 0x09"

text \<open>
  \<^verbatim>\<open>scan_quotation\<close>: the loop body, entered with the index already incremented.
\<close>

function scan_loop :: "string \<Rightarrow> nat \<Rightarrow> char \<Rightarrow> bool \<Rightarrow> nat" where
  "scan_loop s i q escaped =
     (if i < length s
      then if s ! i = CHR 0x5C then scan_loop s (Suc i) q (\<not> escaped)
           else if \<not> escaped \<and> s ! i = q then Suc i
           else scan_loop s (Suc i) q False
      else i)"
  by pat_completeness auto
termination
  by (relation "measure (\<lambda>(s, i, q, e). length s - i)") auto

declare scan_loop.simps [simp del]

definition scan_quotation :: "string \<Rightarrow> nat \<Rightarrow> char \<Rightarrow> nat" where
  "scan_quotation s i q = scan_loop s (Suc i) q False"

text \<open>
  \<^verbatim>\<open>is_character_unnecessary\<close>. The caller guarantees that the index is in range, so
  \<open>index == size() - 1\<close> does not wrap around.
\<close>

definition is_character_unnecessary :: "string \<Rightarrow> nat \<Rightarrow> bool" where
  "is_character_unnecessary s i \<longleftrightarrow>
     i = 0 \<or> i = length s - 1 \<or> is_space (s ! Suc i) \<or> s ! Suc i = CHR '';''"

lemma scan_loop_bounds: "i \<le> length s \<Longrightarrow> i \<le> scan_loop s i q e \<and> scan_loop s i q e \<le> length s"
proof (induction s i q e rule: scan_loop.induct)
  case (1 s i q e)
  show ?case
  proof (cases "i < length s")
    case True
    then show ?thesis
      using 1 by (auto simp: scan_loop.simps [of s i q e] Suc_le_eq less_imp_le)
  next
    case False
    with "1.prems" have "i = length s" by simp
    then show ?thesis by (simp add: scan_loop.simps [of s "length s" q e])
  qed
qed

lemma scan_quotation_bounds:
  "i < length s \<Longrightarrow> i < scan_quotation s i q \<and> scan_quotation s i q \<le> length s"
  using scan_loop_bounds [of "Suc i" s q False] by (simp add: scan_quotation_def)

text \<open>
  The main loop of \<^verbatim>\<open>parse_query_into_statements\<close>: the string being edited, the index, and
  the statements found so far. The string shrinks or the index grows in every iteration.
\<close>

function parse_loop :: "string \<Rightarrow> nat \<Rightarrow> string list \<Rightarrow> string \<times> nat \<times> string list" where
  "parse_loop s i acc =
     (if i < length s
      then if s ! i = CHR 0x22 \<or> s ! i = CHR 0x27 then parse_loop s (scan_quotation s i (s ! i)) acc
           else if is_space (s ! i)
           then if is_character_unnecessary s i then parse_loop (take i s @ drop (Suc i) s) i acc
                else parse_loop (if s ! i \<noteq> CHR '' '' then s[i := CHR '' ''] else s) (Suc i) acc
           else if s ! i = CHR '';''
           then parse_loop (take (length s - 1) (drop (Suc i) s)) 0
                  (if 0 < i then acc @ [take i s] else acc)
           else parse_loop s (Suc i) acc
      else (s, i, acc))"
  by pat_completeness auto
termination
  by (relation "measure (\<lambda>(s, i, acc). 2 * length s - i)")
    (auto dest: scan_quotation_bounds [of _ _ "_"] intro!: diff_less_mono2)

definition parse_query_into_statements :: "string \<Rightarrow> string list" where
  "parse_query_into_statements original_query =
     (let (s, i, acc) = parse_loop original_query 0 []
      in if 0 < i \<and> i = length s then acc @ [s] else acc)"

declare parse_loop.simps [simp del]

section \<open>What the splitter computes\<close>

text \<open>
  The reference: cut the text into tokens (a whole quotation, a space, a separator, any other
  character), split the tokens at the separators, drop the spaces at both ends of every piece,
  keep one space of every run of spaces, and drop the empty pieces.
\<close>

datatype token = Quoted string | Blank | Sep | Plain char

fun quote_end :: "char \<Rightarrow> bool \<Rightarrow> string \<Rightarrow> string \<times> string" where
  "quote_end q e [] = ([], [])"
| "quote_end q e (c # cs) =
     (if \<not> e \<and> c = q \<and> c \<noteq> CHR 0x5C then ([c], cs)
      else let (u, r) = quote_end q (c = CHR 0x5C \<and> \<not> e) cs in (c # u, r))"

lemma quote_end_append: "quote_end q e cs = (u, r) \<Longrightarrow> cs = u @ r"
  by (induction q e cs arbitrary: u r rule: quote_end.induct) (auto split: if_splits prod.splits)

lemma quote_end_shorter [termination_simp]:
  "(u, r) = quote_end q e cs \<Longrightarrow> length r < Suc (length cs)"
  using quote_end_append [of q e cs u r] by auto

fun tokens :: "string \<Rightarrow> token list" where
  "tokens [] = []"
| "tokens (c # cs) =
     (if c = CHR 0x22 \<or> c = CHR 0x27
      then let (u, r) = quote_end c False cs in Quoted (c # u) # tokens r
      else if is_space c then Blank # tokens cs
      else if c = CHR '';'' then Sep # tokens cs
      else Plain c # tokens cs)"

fun split_seps :: "token list \<Rightarrow> token list list" where
  "split_seps [] = [[]]"
| "split_seps (Sep # ts) = [] # split_seps ts"
| "split_seps (t # ts) = (case split_seps ts of p # ps \<Rightarrow> (t # p) # ps | [] \<Rightarrow> [[t]])"

fun squeeze :: "token list \<Rightarrow> token list" where
  "squeeze [] = []"
| "squeeze [Blank] = []"
| "squeeze (Blank # Blank # ts) = squeeze (Blank # ts)"
| "squeeze (t # ts) = t # squeeze ts"

fun token_text :: "token \<Rightarrow> string" where
  "token_text (Quoted s) = s"
| "token_text Blank = '' ''"
| "token_text Sep = '';''"
| "token_text (Plain c) = [c]"

definition statement_text :: "token list \<Rightarrow> string" where
  "statement_text p = concat (map token_text (squeeze p))"

definition statements_of :: "string \<Rightarrow> string list" where
  "statements_of s =
     filter (\<lambda>t. t \<noteq> [])
       (map (\<lambda>p. statement_text (dropWhile (\<lambda>t. t = Blank) p)) (split_seps (tokens s)))"

section \<open>The loop without its index\<close>

text \<open>
  The string of the loop is always the finished prefix \<open>d\<close> of the current statement followed by
  the untouched rest; the index is the length of the prefix.
\<close>

fun scan_statements :: "string \<Rightarrow> string \<Rightarrow> string list \<Rightarrow> string \<times> string list" where
  "scan_statements d [] acc = (d, acc)"
| "scan_statements d (c # cs) acc =
     (if c = CHR 0x22 \<or> c = CHR 0x27
      then let (u, r) = quote_end c False cs in scan_statements (d @ c # u) r acc
      else if is_space c
      then if d = [] \<or> cs = [] \<or> is_space (hd cs) \<or> hd cs = CHR '';'' then scan_statements d cs acc
           else scan_statements (d @ '' '') cs acc
      else if c = CHR '';'' then scan_statements [] cs (if d \<noteq> [] then acc @ [d] else acc)
      else scan_statements (d @ [c]) cs acc)"

lemma scan_loop_quote_end:
  "q \<noteq> CHR 0x5C \<Longrightarrow> scan_loop (d @ cs) (length d) q e = length d + length (fst (quote_end q e cs))"
proof (induction q e cs arbitrary: d rule: quote_end.induct)
  case (1 q e)
  then show ?case by (simp add: scan_loop.simps)
next
  case (2 q e c cs)
  have ih: "scan_loop (d @ c # cs) (Suc (length d)) q (c = CHR 0x5C \<and> \<not> e)
     = Suc (length d) + length (fst (quote_end q (c = CHR 0x5C \<and> \<not> e) cs))"
    if "\<not> (\<not> e \<and> c = q \<and> c \<noteq> CHR 0x5C)"
    using "2.IH" [OF that "2.prems", of "d @ [c]"] by simp
  show ?case
    using ih "2.prems"
    by (subst scan_loop.simps) (auto split: prod.splits)
qed

lemma scan_quotation_quote_end:
  "q \<noteq> CHR 0x5C \<Longrightarrow>
   scan_quotation (d @ c # cs) (length d) q = Suc (length d + length (fst (quote_end q False cs)))"
  using scan_loop_quote_end [of q "d @ [c]" cs False] by (simp add: scan_quotation_def)

lemma parse_loop_step:
  "parse_loop (d @ c # cs) (length d) acc =
     (if c = CHR 0x22 \<or> c = CHR 0x27 then parse_loop (d @ c # cs) (scan_quotation (d @ c # cs) (length d) c) acc
      else if is_space c
      then if is_character_unnecessary (d @ c # cs) (length d) then parse_loop (d @ cs) (length d) acc
           else parse_loop (d @ '' '' @ cs) (Suc (length d)) acc
      else if c = CHR '';'' then parse_loop cs 0 (if d \<noteq> [] then acc @ [d] else acc)
      else parse_loop (d @ c # cs) (Suc (length d)) acc)"
  by (subst parse_loop.simps) (auto split: if_splits)

lemma unnecessary_iff:
  "is_character_unnecessary (d @ c # cs) (length d) \<longleftrightarrow>
     d = [] \<or> cs = [] \<or> is_space (hd cs) \<or> hd cs = CHR '';''"
  by (cases cs) (auto simp: is_character_unnecessary_def nth_append)

lemma parse_loop_scan:
  "parse_loop (d @ rest) (length d) acc =
     (let (d', acc') = scan_statements d rest acc in (d', length d', acc'))"
proof (induction d rest acc rule: scan_statements.induct)
  case (1 d acc)
  then show ?case by (simp add: parse_loop.simps)
next
  case (2 d c cs acc)
  obtain u r where ur: "quote_end c False cs = (u, r)" by (cases "quote_end c False cs")
  then have cs: "cs = u @ r" by (rule quote_end_append)
  consider (quote) "c = CHR 0x22 \<or> c = CHR 0x27"
    | (space) "\<not> (c = CHR 0x22 \<or> c = CHR 0x27)" "is_space c"
    | (other) "\<not> (c = CHR 0x22 \<or> c = CHR 0x27)" "\<not> is_space c" by blast
  then show ?case
  proof cases
    case quote
    then have "c \<noteq> CHR 0x5C" by auto
    with ur have "scan_quotation (d @ c # cs) (length d) c = length (d @ c # u)"
      by (simp add: scan_quotation_quote_end)
    then have "parse_loop (d @ c # cs) (length d) acc = parse_loop ((d @ c # u) @ r) (length (d @ c # u)) acc"
      using quote by (simp add: parse_loop_step cs)
    with "2.IH"(1) [OF quote ur [symmetric] refl] quote ur show ?thesis by simp
  next
    case space
    then show ?thesis
      using "2.IH"(2) [OF space(1) space(2)] "2.IH"(3) [OF space(1) space(2)]
      by (simp add: parse_loop_step unnecessary_iff)
  next
    case other
    then show ?thesis
      using "2.IH"(4) [OF other(1) other(2)] "2.IH"(5) [OF other(1) other(2)]
      by (simp add: parse_loop_step)
  qed
qed

lemma split_seps_nonempty [simp]: "split_seps ts \<noteq> []"
  by (induction ts rule: split_seps.induct) (auto split: list.splits)

lemma squeeze_blank_cons:
  "p \<noteq> [] \<Longrightarrow> hd p \<noteq> Blank \<Longrightarrow> squeeze (Blank # p) = Blank # squeeze p"
  by (cases p rule: list.exhaust; cases "hd p") auto

lemma squeeze_cons: "t \<noteq> Blank \<Longrightarrow> squeeze (t # p) = t # squeeze p"
  by (cases t) auto

text \<open>The statement finished so far and the pieces still to come.\<close>

definition finish :: "string \<Rightarrow> token list list \<Rightarrow> string list" where
  "finish d ps =
     filter (\<lambda>t. t \<noteq> [])
       ((d @ statement_text (if d = [] then dropWhile (\<lambda>t. t = Blank) (hd ps) else hd ps))
        # map (\<lambda>p. statement_text (dropWhile (\<lambda>t. t = Blank) p)) (tl ps))"

lemma finish_cons:
  assumes "t \<noteq> Blank" "t \<noteq> Sep" "token_text t \<noteq> []"
  shows "finish d (split_seps (t # ts)) = finish (d @ token_text t) (split_seps ts)"
proof -
  obtain p ps where "split_seps ts = p # ps" by (cases "split_seps ts") auto
  moreover have "split_seps (t # ts) = (t # p) # ps"
    using assms calculation by (cases t) auto
  ultimately show ?thesis
    using assms by (cases t) (auto simp: finish_def statement_text_def squeeze_cons)
qed

lemma finish_Sep:
  "finish d (split_seps (Sep # ts)) = (if d \<noteq> [] then [d] else []) @ finish [] (split_seps ts)"
proof -
  obtain p ps where "split_seps ts = p # ps" by (cases "split_seps ts") auto
  then show ?thesis by (simp add: finish_def statement_text_def)
qed

lemma finish_Blank:
  "finish d (split_seps (Blank # ts)) =
     (if d = [] \<or> ts = [] \<or> hd ts = Blank \<or> hd ts = Sep then finish d (split_seps ts)
      else finish (d @ '' '') (split_seps ts))"
proof -
  obtain p ps where p: "split_seps ts = p # ps" by (cases "split_seps ts") auto
  then have bl: "split_seps (Blank # ts) = (Blank # p) # ps" by simp
  consider (nil) "ts = []" | (sep) ts' where "ts = Sep # ts'" | (blank) ts' where "ts = Blank # ts'"
    | (other) t ts' where "ts = t # ts'" "t \<noteq> Blank" "t \<noteq> Sep"
    by (cases ts) auto
  then show ?thesis
  proof cases
    case blank
    with p obtain p' where "p = Blank # p'" by (auto split: list.splits)
    with blank p show ?thesis by (simp add: finish_def statement_text_def)
  next
    case other
    with p obtain p' where p': "p = t # p'" by (cases t) (auto split: list.splits)
    show ?thesis
      using other p unfolding bl
      by (auto simp: finish_def statement_text_def p' squeeze_blank_cons)
  qed (use p in \<open>auto simp: finish_def statement_text_def\<close>)
qed

lemma hd_tokens:
  "(tokens cs = [] \<or> hd (tokens cs) = Blank \<or> hd (tokens cs) = Sep) \<longleftrightarrow>
     cs = [] \<or> is_space (hd cs) \<or> hd cs = CHR '';''"
  by (cases cs) (auto simp: is_space_def split: prod.splits)

lemma scan_statements_finish:
  "(let (d', acc') = scan_statements d rest acc in if d' \<noteq> [] then acc' @ [d'] else acc')
     = acc @ finish d (split_seps (tokens rest))"
proof (induction d rest acc rule: scan_statements.induct)
  case (1 d acc)
  then show ?case by (simp add: finish_def statement_text_def)
next
  case (2 d c cs acc)
  obtain u r where ur: "quote_end c False cs = (u, r)" by (cases "quote_end c False cs")
  consider (quote) "c = CHR 0x22 \<or> c = CHR 0x27"
    | (space) "\<not> (c = CHR 0x22 \<or> c = CHR 0x27)" "is_space c"
    | (other) "\<not> (c = CHR 0x22 \<or> c = CHR 0x27)" "\<not> is_space c" by blast
  then show ?case
  proof cases
    case quote
    then show ?thesis
      using "2.IH"(1) [OF quote ur [symmetric] refl] ur by (simp add: finish_cons del: split_seps.simps)
  next
    case space
    have "hd (tokens cs) = Blank \<or> hd (tokens cs) = Sep \<or> tokens cs = []
       \<longleftrightarrow> cs = [] \<or> is_space (hd cs) \<or> hd cs = CHR '';''"
      using hd_tokens [of cs] by blast
    with space show ?thesis
      using "2.IH"(2) [OF space(1) space(2)] "2.IH"(3) [OF space(1) space(2)]
      by (auto simp: finish_Blank simp del: split_seps.simps)
  next
    case other
    then show ?thesis
      using "2.IH"(4) [OF other(1) other(2)] "2.IH"(5) [OF other(1) other(2)]
      by (simp add: finish_cons finish_Sep del: split_seps.simps)
  qed
qed

text \<open>
  C1. Splitting a query in place computes exactly the reference: the pieces between the
  separators outside quotations, with spaces outside quotations trimmed and collapsed and
  quotations kept verbatim, and no empty piece. The loop always ends.
\<close>

theorem parse_query_into_statements_correct:
  "parse_query_into_statements q = statements_of q"
proof -
  obtain d acc where d: "scan_statements [] q [] = (d, acc)"
    by (cases "scan_statements [] q []")
  then have "parse_loop q 0 [] = (d, length d, acc)"
    using parse_loop_scan [of "[]" q "[]"] by simp
  then have "parse_query_into_statements q = (if d \<noteq> [] then acc @ [d] else acc)"
    by (simp add: parse_query_into_statements_def)
  also have "\<dots> = finish [] (split_seps (tokens q))"
    using scan_statements_finish [of "[]" q "[]"] d by simp
  also have "\<dots> = statements_of q"
    by (cases "split_seps (tokens q)") (auto simp: finish_def statements_of_def)
  finally show ?thesis .
qed

end
