(* ===== verification/Std_Regex.thy ===== *)
theory Std_Regex
  imports Driver_Prelude
begin

text \<open>
  The part of \<^verbatim>\<open>std::regex\<close> (ECMAScript grammar) that the driver uses: literals, character
  classes, the dot, sequence, ordered alternative, greedy repetition, numbered groups and the two
  anchors. A match is a backtracking search; the model returns every way to match a prefix of the
  subject, in the order in which the search tries them, each with the captures it leaves, so that
  the match the library reports is the head of the list.
\<close>

datatype rx =
    REps
  | RChr char
  | RAny
  | RSet "(char \<times> char) list"
  | RSeq rx rx
  | RAlt rx rx
  | RStar rx
  | RGrp nat rx
  | RBol
  | REol

type_synonym captures = "(nat \<times> string) list"

text \<open>Case-insensitive patterns (\<^verbatim>\<open>std::regex_constants::icase\<close>) fold the case of letters.\<close>

definition to_upper :: "char \<Rightarrow> char" where
  "to_upper c = (let n = of_char c :: nat in if 97 \<le> n \<and> n \<le> 122 then char_of (n - 32) else c)"

lemma of_char_to_upper [str_simps]:
  "(of_char (to_upper c) :: nat) =
     (if 97 \<le> (of_char c :: nat) \<and> (of_char c :: nat) \<le> 122 then of_char c - 32 else of_char c)"
  by (auto simp: to_upper_def Let_def)

definition chr_eq :: "bool \<Rightarrow> char \<Rightarrow> char \<Rightarrow> bool" where
  "chr_eq ic a b \<longleftrightarrow> (if ic then to_lower a = to_lower b else a = b)"

definition in_range :: "char \<Rightarrow> char \<times> char \<Rightarrow> bool" where
  "in_range c r \<longleftrightarrow> (of_char (fst r) :: nat) \<le> of_char c \<and> (of_char c :: nat) \<le> of_char (snd r)"

definition in_set :: "bool \<Rightarrow> (char \<times> char) list \<Rightarrow> char \<Rightarrow> bool" where
  "in_set ic rs c \<longleftrightarrow>
     list_ex (in_range c) rs \<or>
     ic \<and> (list_ex (in_range (to_lower c)) rs \<or> list_ex (in_range (to_upper c)) rs)"

definition line_end :: "char \<Rightarrow> bool" where
  "line_end c \<longleftrightarrow> c = CHR 0x0A \<or> c = CHR 0x0D"

text \<open>
  \<open>rmatch ic n r s caps\<close> matches \<open>r\<close> at the front of \<open>s\<close>, the rest of a subject of length
  \<open>n\<close>. A result is the rest left over and the captures. Repetition takes another round first
  (greedy) and never a round that consumes nothing.
\<close>

fun rmatch :: "bool \<Rightarrow> nat \<Rightarrow> rx \<Rightarrow> string \<Rightarrow> captures \<Rightarrow> (string \<times> captures) list" where
  "rmatch ic n REps s k = [(s, k)]"
| "rmatch ic n (RChr a) s k =
     (case s of c # s' \<Rightarrow> if chr_eq ic a c then [(s', k)] else [] | [] \<Rightarrow> [])"
| "rmatch ic n RAny s k =
     (case s of c # s' \<Rightarrow> if line_end c then [] else [(s', k)] | [] \<Rightarrow> [])"
| "rmatch ic n (RSet rs) s k =
     (case s of c # s' \<Rightarrow> if in_set ic rs c then [(s', k)] else [] | [] \<Rightarrow> [])"
| "rmatch ic n (RSeq r1 r2) s k =
     concat (map (\<lambda>(s', k'). rmatch ic n r2 s' k') (rmatch ic n r1 s k))"
| "rmatch ic n (RAlt r1 r2) s k = rmatch ic n r1 s k @ rmatch ic n r2 s k"
| "rmatch ic n (RStar r) s k =
     concat (map (\<lambda>(s', k'). if length s' < length s then rmatch ic n (RStar r) s' k' else [])
               (rmatch ic n r s k)) @ [(s, k)]"
| "rmatch ic n (RGrp g r) s k =
     map (\<lambda>(s', k'). (s', (g, take (length s - length s') s) # k')) (rmatch ic n r s k)"
| "rmatch ic n RBol s k = (if length s = n then [(s, k)] else [])"
| "rmatch ic n REol s k = (if s = [] then [(s, k)] else [])"

definition rx_plus :: "rx \<Rightarrow> rx" where
  "rx_plus r = RSeq r (RStar r)"

definition rx_opt :: "rx \<Rightarrow> rx" where
  "rx_opt r = RAlt r REps"

fun rx_lit :: "string \<Rightarrow> rx" where
  "rx_lit [] = REps"
| "rx_lit (c # cs) = RSeq (RChr c) (rx_lit cs)"

fun rx_upto :: "nat \<Rightarrow> rx \<Rightarrow> rx" where
  "rx_upto 0 r = REps"
| "rx_upto (Suc n) r = rx_opt (RSeq r (rx_upto n r))"

fun rx_rep :: "nat \<Rightarrow> nat \<Rightarrow> rx \<Rightarrow> rx" where
  "rx_rep 0 n r = rx_upto n r"
| "rx_rep (Suc m) n r = RSeq r (rx_rep m (n - 1) r)"

fun rx_alts :: "rx list \<Rightarrow> rx" where
  "rx_alts [] = REps"
| "rx_alts [r] = r"
| "rx_alts (r # rs) = RAlt r (rx_alts rs)"

fun rx_seqs :: "rx list \<Rightarrow> rx" where
  "rx_seqs [] = REps"
| "rx_seqs [r] = r"
| "rx_seqs (r # rs) = RSeq r (rx_seqs rs)"

text \<open>
  \<^verbatim>\<open>std::regex_match\<close>: the whole subject; \<^verbatim>\<open>std::regex_search\<close>: the leftmost position that
  has a match, and there the first in search order. \<open>m.str(g)\<close> of a group that took no part in
  the match is the empty string.
\<close>

definition regex_match :: "bool \<Rightarrow> rx \<Rightarrow> string \<Rightarrow> bool" where
  "regex_match ic r s \<longleftrightarrow> list_ex (\<lambda>(s', k). s' = []) (rmatch ic (length s) r s [])"

fun search_from :: "bool \<Rightarrow> nat \<Rightarrow> rx \<Rightarrow> string \<Rightarrow> captures option" where
  "search_from ic n r [] = (case rmatch ic n r [] [] of m # _ \<Rightarrow> Some (snd m) | [] \<Rightarrow> None)"
| "search_from ic n r (c # s) =
     (case rmatch ic n r (c # s) [] of m # _ \<Rightarrow> Some (snd m) | [] \<Rightarrow> search_from ic n r s)"

definition regex_search :: "bool \<Rightarrow> rx \<Rightarrow> string \<Rightarrow> captures option" where
  "regex_search ic r s = search_from ic (length s) r s"

definition group_str :: "captures \<Rightarrow> nat \<Rightarrow> string" where
  "group_str k g = (case map_of k g of Some t \<Rightarrow> t | None \<Rightarrow> [])"

section \<open>Membership of the result list\<close>

text \<open>
  Which results a pattern has, without their order: the rules that let a statement about a match
  be read off the pattern.
\<close>

lemma mem_RSeq [simp]:
  "(t, j) \<in> set (rmatch ic n (RSeq r1 r2) s k) \<longleftrightarrow>
     (\<exists>s' k'. (s', k') \<in> set (rmatch ic n r1 s k) \<and> (t, j) \<in> set (rmatch ic n r2 s' k'))"
  by force

lemma mem_RGrp [simp]:
  "(t, j) \<in> set (rmatch ic n (RGrp g r) s k) \<longleftrightarrow>
     (\<exists>j'. (t, j') \<in> set (rmatch ic n r s k) \<and> j = (g, take (length s - length t) s) # j')"
  by force

declare rmatch.simps(5,7,8) [simp del]

lemma mem_RStar:
  "(t, j) \<in> set (rmatch ic n (RStar r) s k) \<longleftrightarrow>
     t = s \<and> j = k \<or>
     (\<exists>s' k'. (s', k') \<in> set (rmatch ic n r s k) \<and> length s' < length s \<and>
        (t, j) \<in> set (rmatch ic n (RStar r) s' k'))"
  by (subst rmatch.simps(7)) (fastforce split: if_splits)

lemma rmatch_suffix: "(t, j) \<in> set (rmatch ic n r s k) \<Longrightarrow> \<exists>u. s = u @ t"
proof (induction ic n r s k arbitrary: t j rule: rmatch.induct)
  case (5 ic n r1 r2 s k)
  from "5.prems" obtain s' k' where m: "(s', k') \<in> set (rmatch ic n r1 s k)" "(t, j) \<in> set (rmatch ic n r2 s' k')"
    by auto
  from "5.IH"(1) [OF m(1)] obtain u where u: "s = u @ s'" ..
  from "5.IH"(2) [OF m(1) refl m(2)] obtain v where v: "s' = v @ t" ..
  from u v show ?case by simp
next
  case (7 ic n r s k)
  from "7.prems" consider "t = s" | s' k' where "(s', k') \<in> set (rmatch ic n r s k)" "length s' < length s"
    "(t, j) \<in> set (rmatch ic n (RStar r) s' k')"
    by (subst (asm) mem_RStar) blast
  then show ?case
  proof cases
    case 2
    from "7.IH"(1) [OF 2(1)] obtain u where u: "s = u @ s'" ..
    from "7.IH"(2) [OF 2(1) refl 2(2) 2(3)] obtain v where v: "s' = v @ t" ..
    from u v show ?thesis by simp
  qed simp
qed (auto split: list.splits if_splits)

lemma rmatch_length: "(t, j) \<in> set (rmatch ic n r s k) \<Longrightarrow> length t \<le> length s"
  by (auto dest: rmatch_suffix)

lemma mem_lit:
  "(t, j) \<in> set (rmatch ic n (rx_lit w) s k) \<longleftrightarrow>
     j = k \<and> (\<exists>u. s = u @ t \<and> list_all2 (chr_eq ic) w u)"
proof (induction w arbitrary: s)
  case (Cons c w)
  show ?case
  proof (cases s)
    case (Cons x s')
    then show ?thesis
      by (auto simp: Cons.IH list_all2_Cons1 split: if_splits)
  qed (auto simp: list_all2_Cons1)
qed auto

lemma mem_seqE:
  assumes "(t, j) \<in> set (rmatch ic n (RSeq r1 r2) s k)"
  obtains s' k' where "(s', k') \<in> set (rmatch ic n r1 s k)" "(t, j) \<in> set (rmatch ic n r2 s' k')"
  using assms by auto

lemma mem_seqI:
  "(s', k') \<in> set (rmatch ic n r1 s k) \<Longrightarrow> (t, j) \<in> set (rmatch ic n r2 s' k') \<Longrightarrow>
   (t, j) \<in> set (rmatch ic n (RSeq r1 r2) s k)"
  by auto

lemma mem_grpI:
  "(t, i) \<in> set (rmatch ic n r s k) \<Longrightarrow> s = u @ t \<Longrightarrow> j = (g, u) # i \<Longrightarrow>
   (t, j) \<in> set (rmatch ic n (RGrp g r) s k)"
  by auto

lemma mem_grpE:
  assumes "(t, j) \<in> set (rmatch ic n (RGrp g r) s k)"
  obtains i u where "(t, i) \<in> set (rmatch ic n r s k)" "s = u @ t" "j = (g, u) # i"
proof -
  from assms obtain i where i: "(t, i) \<in> set (rmatch ic n r s k)"
    "j = (g, take (length s - length t) s) # i" by auto
  from rmatch_suffix [OF i(1)] obtain u where "s = u @ t" ..
  with i that show thesis by simp
qed

lemma take_front: "s = u @ t \<Longrightarrow> take (length s - length t) s = u"
  by simp

text \<open>A repetition of one-character patterns consumes a word of such characters.\<close>

definition single :: "bool \<Rightarrow> nat \<Rightarrow> rx \<Rightarrow> (char \<Rightarrow> bool) \<Rightarrow> bool" where
  "single ic n r P \<longleftrightarrow>
     (\<forall>s k. rmatch ic n r s k = (case s of c # s' \<Rightarrow> if P c then [(s', k)] else [] | [] \<Rightarrow> []))"

lemma single_RSet [simp]: "single ic n (RSet rs) (in_set ic rs)"
  by (simp add: single_def)

lemma single_RAny [simp]: "single ic n RAny (\<lambda>c. \<not> line_end c)"
  by (simp add: single_def split: list.splits)

lemma rmatch_star_single:
  assumes "single ic n r P"
  shows "rmatch ic n (RStar r) s k =
    (case s of c # s' \<Rightarrow> if P c then rmatch ic n (RStar r) s' k else [] | [] \<Rightarrow> []) @ [(s, k)]"
  using assms by (subst rmatch.simps(7)) (simp add: single_def split: list.splits)

lemma mem_star_single:
  assumes "single ic n r P"
  shows "(t, j) \<in> set (rmatch ic n (RStar r) s k) \<longleftrightarrow>
           j = k \<and> (\<exists>u. s = u @ t \<and> (\<forall>c \<in> set u. P c))"
proof (induction s)
  case Nil
  then show ?case by (subst rmatch_star_single [OF assms]) auto
next
  case (Cons c s)
  show ?case
    by (subst rmatch_star_single [OF assms])
      (auto simp: Cons.IH Cons_eq_append_conv)
qed

lemma mem_plus_single:
  assumes "single ic n r P"
  shows "(t, j) \<in> set (rmatch ic n (rx_plus r) s k) \<longleftrightarrow>
           j = k \<and> (\<exists>u. u \<noteq> [] \<and> s = u @ t \<and> (\<forall>c \<in> set u. P c))"
proof -
  have "(t, j) \<in> set (rmatch ic n (rx_plus r) s k) \<longleftrightarrow>
     (\<exists>s' k'. (s', k') \<in> set (rmatch ic n r s k) \<and> k' = j \<and> (\<exists>u. s' = u @ t \<and> (\<forall>c \<in> set u. P c)))"
    by (auto simp: rx_plus_def mem_star_single [OF assms])
  also have "\<dots> \<longleftrightarrow> j = k \<and> (\<exists>u. u \<noteq> [] \<and> s = u @ t \<and> (\<forall>c \<in> set u. P c))"
    using assms by (cases s) (auto simp: single_def Cons_eq_append_conv)
  finally show ?thesis .
qed

lemma mem_opt: "x \<in> set (rmatch ic n (rx_opt r) s k) \<longleftrightarrow> x \<in> set (rmatch ic n r s k) \<or> x = (s, k)"
  by (auto simp: rx_opt_def)

lemma regex_match_mem: "regex_match ic r s \<longleftrightarrow> (\<exists>k. ([], k) \<in> set (rmatch ic (length s) r s []))"
  by (force simp: regex_match_def list_ex_iff)

lemma regex_search_front:
  assumes "rmatch ic (length s) r s [] = m # ms"
  shows "regex_search ic r s = Some (snd m)"
  using assms by (cases s) (simp_all add: regex_search_def)

text \<open>When all results carry the same captures, the search order does not matter.\<close>

lemma regex_search_unique:
  assumes "(t, k) \<in> set (rmatch ic (length s) r s [])"
    and "\<And>t' k'. (t', k') \<in> set (rmatch ic (length s) r s []) \<Longrightarrow> k' = k"
  shows "regex_search ic r s = Some k"
proof (cases "rmatch ic (length s) r s []")
  case Nil
  with assms show ?thesis by simp
next
  case (Cons m ms)
  then have "m \<in> set (rmatch ic (length s) r s [])" by simp
  with assms(2) [of "fst m" "snd m"] have "snd m = k" by simp
  with regex_search_front [OF Cons] show ?thesis by simp
qed

lemma search_from_Some:
  "search_from ic n r s = Some k \<Longrightarrow> \<exists>p s' t. s = p @ s' \<and> (t, k) \<in> set (rmatch ic n r s' [])"
proof (induction s)
  case (Cons c s)
  show ?case
  proof (cases "rmatch ic n r (c # s) []")
    case Nil
    with Cons obtain p s' t where "s = p @ s'" "(t, k) \<in> set (rmatch ic n r s' [])" by auto
    then show ?thesis by (metis append_Cons)
  next
    case (Cons m ms)
    with Cons.prems have "(fst m, k) \<in> set (rmatch ic n r (c # s) [])" by auto
    then show ?thesis by (metis append_Nil)
  qed
qed (auto split: list.splits)

section \<open>The language of a pattern\<close>

text \<open>
  Captures never influence what is consumed, so an anchor-free pattern denotes a language: the
  words it can consume at the front of any subject.
\<close>

definition eats :: "bool \<Rightarrow> nat \<Rightarrow> rx \<Rightarrow> string \<Rightarrow> string \<Rightarrow> bool" where
  "eats ic n r s t \<longleftrightarrow> (\<exists>j. (t, j) \<in> set (rmatch ic n r s []))"

definition denotes :: "bool \<Rightarrow> nat \<Rightarrow> rx \<Rightarrow> string set \<Rightarrow> bool" where
  "denotes ic n r L \<longleftrightarrow> (\<forall>s t. eats ic n r s t \<longleftrightarrow> (\<exists>u \<in> L. s = u @ t))"

definition conc :: "string set \<Rightarrow> string set \<Rightarrow> string set" where
  "conc A B = {u @ v | u v. u \<in> A \<and> v \<in> B}"

definition fold_lit :: "bool \<Rightarrow> string \<Rightarrow> string set" where
  "fold_lit ic w = {u. list_all2 (chr_eq ic) w u}"

definition words1 :: "(char \<Rightarrow> bool) \<Rightarrow> string set" where
  "words1 P = {u. u \<noteq> [] \<and> (\<forall>c \<in> set u. P c)}"

lemma rmatch_captures:
  "(t, j) \<in> set (rmatch ic n r s k) \<Longrightarrow> \<exists>j'. (t, j') \<in> set (rmatch ic n r s k')"
proof (induction ic n r s k arbitrary: t j k' rule: rmatch.induct)
  case (5 ic n r1 r2 s k)
  from "5.prems" obtain s' k'' where m: "(s', k'') \<in> set (rmatch ic n r1 s k)" "(t, j) \<in> set (rmatch ic n r2 s' k'')"
    by auto
  obtain i where i: "(s', i) \<in> set (rmatch ic n r1 s k')"
    using "5.IH"(1) [OF m(1)] by blast
  obtain j' where "(t, j') \<in> set (rmatch ic n r2 s' i)"
    using "5.IH"(2) [OF m(1) refl m(2)] by blast
  with i show ?case by auto
next
  case (7 ic n r s k)
  from "7.prems" consider "t = s" | s' k'' where "(s', k'') \<in> set (rmatch ic n r s k)" "length s' < length s"
    "(t, j) \<in> set (rmatch ic n (RStar r) s' k'')"
    by (subst (asm) mem_RStar) blast
  then show ?case
  proof cases
    case 1
    then show ?thesis by (subst mem_RStar) blast
  next
    case 2
    obtain i where i: "(s', i) \<in> set (rmatch ic n r s k')"
      using "7.IH"(1) [OF 2(1)] by blast
    obtain j' where "(t, j') \<in> set (rmatch ic n (RStar r) s' i)"
      using "7.IH"(2) [OF 2(1) refl 2(2) 2(3)] by blast
    with i 2(2) show ?thesis by (subst mem_RStar) blast
  qed
next
  case (6 ic n r1 r2 s k)
  from "6.prems" consider "(t, j) \<in> set (rmatch ic n r1 s k)" | "(t, j) \<in> set (rmatch ic n r2 s k)"
    by auto
  then show ?case
    using "6.IH" by cases (metis Un_iff rmatch.simps(6) set_append)+
next
  case (8 ic n g r s k)
  then show ?case by fastforce
qed (auto split: list.splits if_splits)

lemma eats_captures: "eats ic n r s t \<longleftrightarrow> (\<exists>j. (t, j) \<in> set (rmatch ic n r s k))"
  unfolding eats_def using rmatch_captures by blast

lemma eatsI: "(t, j) \<in> set (rmatch ic n r s k) \<Longrightarrow> eats ic n r s t"
  using eats_captures by blast

lemma eatsE:
  assumes "eats ic n r s t"
  obtains j where "(t, j) \<in> set (rmatch ic n r s k)"
  using assms eats_captures by blast

lemma eats_RSeq: "eats ic n (RSeq a b) s t \<longleftrightarrow> (\<exists>s'. eats ic n a s s' \<and> eats ic n b s' t)"
  by (auto simp: eats_def [of ic n "RSeq a b"] intro: eatsI elim!: eatsE [of ic n a s _ "[]"])
    (metis eatsE)

lemma eats_RStar:
  "eats ic n (RStar r) s t \<longleftrightarrow>
     s = t \<or> (\<exists>s'. eats ic n r s s' \<and> length s' < length s \<and> eats ic n (RStar r) s' t)"
proof
  assume "eats ic n (RStar r) s t"
  then show "s = t \<or> (\<exists>s'. eats ic n r s s' \<and> length s' < length s \<and> eats ic n (RStar r) s' t)"
    unfolding eats_def [of ic n "RStar r" s] by (subst (asm) mem_RStar) (blast intro: eatsI)
next
  assume "s = t \<or> (\<exists>s'. eats ic n r s s' \<and> length s' < length s \<and> eats ic n (RStar r) s' t)"
  then show "eats ic n (RStar r) s t"
    unfolding eats_def [of ic n "RStar r" s] by (subst mem_RStar) (metis eatsE)
qed

lemma denotes_REps: "denotes ic n REps {[]}"
  by (auto simp: denotes_def eats_def)

lemma denotes_RChr: "denotes ic n (RChr c) (fold_lit ic [c])"
  by (auto simp: denotes_def eats_def fold_lit_def list_all2_Cons1 split: list.splits if_splits)

lemma denotes_lit: "denotes ic n (rx_lit w) (fold_lit ic w)"
  by (auto simp: denotes_def eats_def fold_lit_def mem_lit)

lemma denotes_RSeq:
  assumes "denotes ic n a A" "denotes ic n b B"
  shows "denotes ic n (RSeq a b) (conc A B)"
  using assms by (fastforce simp: denotes_def eats_RSeq conc_def)

lemma eats_RAlt: "eats ic n (RAlt a b) s t \<longleftrightarrow> eats ic n a s t \<or> eats ic n b s t"
  by (auto simp: eats_def)

lemma denotes_RAlt: "denotes ic n a A \<Longrightarrow> denotes ic n b B \<Longrightarrow> denotes ic n (RAlt a b) (A \<union> B)"
  by (auto simp: denotes_def eats_RAlt)

lemma denotes_RGrp: "denotes ic n r L \<Longrightarrow> denotes ic n (RGrp g r) L"
  by (auto simp: denotes_def eats_def)

lemma denotes_opt: "denotes ic n r L \<Longrightarrow> denotes ic n (rx_opt r) (L \<union> {[]})"
  unfolding rx_opt_def by (intro denotes_RAlt denotes_REps)

lemma denotes_plus_single: "single ic n r P \<Longrightarrow> denotes ic n (rx_plus r) (words1 P)"
  by (auto simp: denotes_def eats_def mem_plus_single words1_def)

lemma denotes_RStar:
  assumes "denotes ic n r L" "[] \<notin> L"
  shows "denotes ic n (RStar r) {concat us | us. set us \<subseteq> L}"
proof -
  have "eats ic n (RStar r) s t \<longleftrightarrow> (\<exists>us. set us \<subseteq> L \<and> s = concat us @ t)" for s t
  proof
    show "eats ic n (RStar r) s t \<Longrightarrow> \<exists>us. set us \<subseteq> L \<and> s = concat us @ t"
    proof (induction "length s" arbitrary: s rule: less_induct)
      case less
      from less.prems consider "s = t" | s' where "eats ic n r s s'" "length s' < length s" "eats ic n (RStar r) s' t"
        by (subst (asm) eats_RStar) blast
      then show ?case
      proof cases
        case 1
        then show ?thesis by (intro exI [of _ "[]"]) simp
      next
        case 2
        from 2(1) assms(1) obtain u where u: "u \<in> L" "s = u @ s'" by (auto simp: denotes_def)
        from less.hyps [OF 2(2,3)] obtain us where "set us \<subseteq> L" "s' = concat us @ t" by blast
        with u show ?thesis by (intro exI [of _ "u # us"]) simp
      qed
    qed
  next
    assume "\<exists>us. set us \<subseteq> L \<and> s = concat us @ t"
    then obtain us where "set us \<subseteq> L" "s = concat us @ t" by blast
    then show "eats ic n (RStar r) s t"
    proof (induction us arbitrary: s)
      case Nil
      then show ?case by (subst eats_RStar) simp
    next
      case (Cons u us)
      then have "eats ic n r s (concat us @ t)" using assms(1) by (auto simp: denotes_def)
      moreover have "length (concat us @ t) < length s" using Cons.prems assms(2) by (cases u) auto
      ultimately show ?case using Cons.IH Cons.prems by (subst eats_RStar) auto
    qed
  qed
  then show ?thesis by (auto simp: denotes_def)
qed

lemma denotes_plus:
  assumes "denotes ic n r L" "[] \<notin> L"
  shows "denotes ic n (rx_plus r) {concat us | us. us \<noteq> [] \<and> set us \<subseteq> L}"
proof -
  have "conc L {concat us | us. set us \<subseteq> L} = {concat us | us. us \<noteq> [] \<and> set us \<subseteq> L}"
  proof (intro equalityI subsetI)
    fix w assume "w \<in> conc L {concat us | us. set us \<subseteq> L}"
    then obtain u us where "w = concat (u # us)" "u \<in> L" "set us \<subseteq> L"
      by (auto simp: conc_def)
    then show "w \<in> {concat us | us. us \<noteq> [] \<and> set us \<subseteq> L}"
      by (intro CollectI exI [of _ "u # us"]) auto
  next
    fix w assume "w \<in> {concat us | us. us \<noteq> [] \<and> set us \<subseteq> L}"
    then obtain u us where "w = u @ concat us" "u \<in> L" "set us \<subseteq> L"
      by (auto simp: neq_Nil_conv)
    then show "w \<in> conc L {concat us | us. set us \<subseteq> L}"
      by (auto simp: conc_def)
  qed
  then show ?thesis
    unfolding rx_plus_def using denotes_RSeq [OF assms(1) denotes_RStar [OF assms]] by simp
qed

lemma denotes_alts_lit:
  "ws \<noteq> [] \<Longrightarrow> denotes ic n (rx_alts (map rx_lit ws)) (\<Union>w \<in> set ws. fold_lit ic w)"
proof (induction ws rule: induct_list012)
  case (3 w v ws)
  then show ?case
    using denotes_RAlt [OF denotes_lit [of ic n w] "3.IH"(2)] by simp
qed (simp_all add: denotes_lit)

lemma fold_lit_lower: "fold_lit True w = {u. map to_lower u = map to_lower w}"
proof -
  have "list_all2 (chr_eq True) w u \<longleftrightarrow> map to_lower u = map to_lower w" for u
    by (induction w arbitrary: u) (auto simp: list_all2_Cons1 chr_eq_def map_eq_Cons_conv)
  then show ?thesis by (simp add: fold_lit_def)
qed

lemma denotes_match: "(\<And>n. denotes ic n r L) \<Longrightarrow> regex_match ic r s \<longleftrightarrow> s \<in> L"
  by (auto simp: regex_match_mem eats_def [symmetric] denotes_def)

lemmas denotes_intros =
  denotes_REps denotes_RChr denotes_lit denotes_RSeq denotes_RAlt denotes_RGrp denotes_opt
  denotes_plus_single

end
