(* ===== verification/Rds_Utils.thy ===== *)
theory Rds_Utils
  imports Std_Regex "HOL-Library.Sublist"
begin

text \<open>
  Classification and dissection of RDS host names (\<^verbatim>\<open>driver/rds_utils.cc\<close>): the patterns of
  the file's anonymous namespace and the static functions of \<^verbatim>\<open>RDS_UTILS\<close>.
\<close>

section \<open>The patterns\<close>

definition alnum :: rx where
  "alnum = RSet [(CHR ''a'', CHR ''z''), (CHR ''A'', CHR ''Z''), (CHR ''0'', CHR ''9'')]"

definition alnum_dash :: rx where
  "alnum_dash = RSet [(CHR ''a'', CHR ''z''), (CHR ''A'', CHR ''Z''), (CHR ''0'', CHR ''9''),
                      (CHR ''-'', CHR ''-'')]"

definition any_prefix :: rx where
  "any_prefix = rx_opt (RGrp 2 (rx_alts [rx_lit ''proxy-'', rx_lit ''cluster-'',
     rx_lit ''cluster-ro-'', rx_lit ''cluster-custom-'']))"

definition prefixes :: "string list \<Rightarrow> rx" where
  "prefixes ws = rx_plus (RGrp 2 (rx_alts (map rx_lit ws)))"

text \<open>
  Group 3 is the cluster's domain. Only the two general patterns capture the region (group 4) in
  the non-Chinese form; the Chinese form has a group 4 in every pattern.
\<close>

definition std_domain :: "bool \<Rightarrow> rx" where
  "std_domain capture_region = RGrp 3 (rx_seqs [rx_plus alnum, RChr CHR ''.'',
     (if capture_region then RGrp 4 (rx_plus alnum_dash) else rx_plus alnum_dash),
     rx_lit ''.rds.amazonaws.com''])"

definition china_domain :: rx where
  "china_domain = RGrp 3 (rx_seqs [rx_plus alnum, RChr CHR ''.'',
     RGrp 4 (RAlt (RSeq (rx_lit ''rds.'') (rx_plus alnum_dash))
                  (RSeq (rx_plus alnum_dash) (rx_lit ''.rds''))),
     rx_lit ''.amazonaws.com.cn''])"

definition dns_pattern :: "rx \<Rightarrow> rx \<Rightarrow> rx" where
  "dns_pattern pre domain = rx_seqs [RGrp 1 (rx_plus RAny), RChr CHR ''.'', pre, domain]"

definition AURORA_DNS_PATTERN :: rx where
  "AURORA_DNS_PATTERN = dns_pattern any_prefix (std_domain True)"

definition AURORA_PROXY_DNS_PATTERN :: rx where
  "AURORA_PROXY_DNS_PATTERN = dns_pattern (prefixes [''proxy-'']) (std_domain False)"

definition AURORA_CLUSTER_PATTERN :: rx where
  "AURORA_CLUSTER_PATTERN = dns_pattern (prefixes [''cluster-'', ''cluster-ro-'']) (std_domain False)"

definition AURORA_WRITER_CLUSTER_PATTERN :: rx where
  "AURORA_WRITER_CLUSTER_PATTERN = dns_pattern (prefixes [''cluster-'']) (std_domain False)"

definition AURORA_READER_CLUSTER_PATTERN :: rx where
  "AURORA_READER_CLUSTER_PATTERN = dns_pattern (prefixes [''cluster-ro-'']) (std_domain False)"

definition AURORA_CUSTOM_CLUSTER_PATTERN :: rx where
  "AURORA_CUSTOM_CLUSTER_PATTERN = dns_pattern (prefixes [''cluster-custom-'']) (std_domain False)"

definition AURORA_CHINA_DNS_PATTERN :: rx where
  "AURORA_CHINA_DNS_PATTERN = dns_pattern any_prefix china_domain"

definition AURORA_CHINA_PROXY_DNS_PATTERN :: rx where
  "AURORA_CHINA_PROXY_DNS_PATTERN = dns_pattern (prefixes [''proxy-'']) china_domain"

definition AURORA_CHINA_CLUSTER_PATTERN :: rx where
  "AURORA_CHINA_CLUSTER_PATTERN = dns_pattern (prefixes [''cluster-'', ''cluster-ro-'']) china_domain"

definition AURORA_CHINA_WRITER_CLUSTER_PATTERN :: rx where
  "AURORA_CHINA_WRITER_CLUSTER_PATTERN = dns_pattern (prefixes [''cluster-'']) china_domain"

definition AURORA_CHINA_READER_CLUSTER_PATTERN :: rx where
  "AURORA_CHINA_READER_CLUSTER_PATTERN = dns_pattern (prefixes [''cluster-ro-'']) china_domain"

definition AURORA_CHINA_CUSTOM_CLUSTER_PATTERN :: rx where
  "AURORA_CHINA_CUSTOM_CLUSTER_PATTERN = dns_pattern (prefixes [''cluster-custom-'']) china_domain"

text \<open>The address patterns are case-sensitive.\<close>

definition rng :: "char \<Rightarrow> char \<Rightarrow> rx" where
  "rng a b = RSet [(a, b)]"

definition ipv4_byte :: "char \<Rightarrow> rx" where
  "ipv4_byte low = rx_alts
     [rng low CHR ''9'',
      RSeq (rng CHR ''1'' CHR ''9'') (rng CHR ''0'' CHR ''9''),
      RSeq (RChr CHR ''1'') (rx_rep 2 2 (rng CHR ''0'' CHR ''9'')),
      rx_seqs [RChr CHR ''2'', rng CHR ''0'' CHR ''4'', rng CHR ''0'' CHR ''9''],
      rx_seqs [RChr CHR ''2'', RChr CHR ''5'', rng CHR ''0'' CHR ''5'']]"

definition IPV4_PATTERN :: rx where
  "IPV4_PATTERN = rx_seqs
     [RBol,
      rx_rep 1 1 (RGrp 1 (RSeq (RGrp 2 (ipv4_byte CHR ''1'')) (RChr CHR ''.''))),
      rx_rep 2 2 (RGrp 3 (RSeq (RGrp 4 (ipv4_byte CHR ''0'')) (RChr CHR ''.''))),
      RGrp 5 (ipv4_byte CHR ''0''),
      REol]"

definition hex_digit :: rx where
  "hex_digit = RSet [(CHR ''0'', CHR ''9''), (CHR ''a'', CHR ''f''), (CHR ''A'', CHR ''F'')]"

definition IPV6_PATTERN :: rx where
  "IPV6_PATTERN = rx_seqs
     [RBol, rx_rep 1 4 hex_digit,
      rx_rep 7 7 (RGrp 1 (RSeq (RChr CHR '':'') (rx_rep 1 4 hex_digit))), REol]"

definition ipv6_side :: "nat \<Rightarrow> rx" where
  "ipv6_side g = RGrp g (rx_opt (RGrp (g + 1) (RSeq (rx_rep 1 4 hex_digit)
     (rx_rep 0 5 (RGrp (g + 2) (RSeq (RChr CHR '':'') (rx_rep 1 4 hex_digit)))))))"

definition IPV6_COMPRESSED_PATTERN :: rx where
  "IPV6_COMPRESSED_PATTERN = rx_seqs [RBol, ipv6_side 1, rx_lit ''::'', ipv6_side 4, REol]"

section \<open>The functions of \<^verbatim>\<open>RDS_UTILS\<close>\<close>

definition is_dns_pattern_valid :: "string \<Rightarrow> bool" where
  "is_dns_pattern_valid host \<longleftrightarrow> find_char CHR ''?'' host \<noteq> None"

definition is_rds_dns :: "string \<Rightarrow> bool" where
  "is_rds_dns host \<longleftrightarrow>
     regex_match True AURORA_DNS_PATTERN host \<or> regex_match True AURORA_CHINA_DNS_PATTERN host"

definition is_rds_cluster_dns :: "string \<Rightarrow> bool" where
  "is_rds_cluster_dns host \<longleftrightarrow>
     regex_match True AURORA_CLUSTER_PATTERN host \<or> regex_match True AURORA_CHINA_CLUSTER_PATTERN host"

definition is_rds_proxy_dns :: "string \<Rightarrow> bool" where
  "is_rds_proxy_dns host \<longleftrightarrow>
     regex_match True AURORA_PROXY_DNS_PATTERN host \<or>
     regex_match True AURORA_CHINA_PROXY_DNS_PATTERN host"

definition is_rds_writer_cluster_dns :: "string \<Rightarrow> bool" where
  "is_rds_writer_cluster_dns host \<longleftrightarrow>
     regex_match True AURORA_WRITER_CLUSTER_PATTERN host \<or>
     regex_match True AURORA_CHINA_WRITER_CLUSTER_PATTERN host"

definition is_rds_reader_cluster_dns :: "string \<Rightarrow> bool" where
  "is_rds_reader_cluster_dns host \<longleftrightarrow>
     regex_match True AURORA_READER_CLUSTER_PATTERN host \<or>
     regex_match True AURORA_CHINA_READER_CLUSTER_PATTERN host"

definition is_rds_custom_cluster_dns :: "string \<Rightarrow> bool" where
  "is_rds_custom_cluster_dns host \<longleftrightarrow>
     regex_match True AURORA_CUSTOM_CLUSTER_PATTERN host \<or>
     regex_match True AURORA_CHINA_CUSTOM_CLUSTER_PATTERN host"

definition is_ipv4 :: "string \<Rightarrow> bool" where
  "is_ipv4 host \<longleftrightarrow> regex_match False IPV4_PATTERN host"

definition is_ipv6 :: "string \<Rightarrow> bool" where
  "is_ipv6 host \<longleftrightarrow>
     regex_match False IPV6_PATTERN host \<or> regex_match False IPV6_COMPRESSED_PATTERN host"

text \<open>
  The extraction functions share a shape: try the general pattern, and the Chinese one when that
  gives the empty string. \<open>m.size()\<close> is one more than the number of groups of the pattern.
\<close>

definition first_nonempty :: "string \<Rightarrow> string \<Rightarrow> string" where
  "first_nonempty a b = (if a \<noteq> [] then a else b)"

fun mark_count :: "rx \<Rightarrow> nat" where
  "mark_count (RSeq a b) = max (mark_count a) (mark_count b)"
| "mark_count (RAlt a b) = max (mark_count a) (mark_count b)"
| "mark_count (RStar r) = mark_count r"
| "mark_count (RGrp g r) = max g (mark_count r)"
| "mark_count _ = 0"

definition match_size :: "rx \<Rightarrow> nat" where
  "match_size r = mark_count r + 1"

definition cluster_host_url_of :: "rx \<Rightarrow> string \<Rightarrow> string" where
  "cluster_host_url_of pattern host =
     (case regex_search True pattern host of
        Some m \<Rightarrow>
          if match_size pattern > 1
          then let gr1 = (if match_size pattern > 1 then group_str m 1 else []);
                   gr2 = (if match_size pattern > 2 then group_str m 2 else []);
                   gr3 = (if match_size pattern > 3 then group_str m 3 else [])
               in if gr1 \<noteq> [] \<and> gr3 \<noteq> [] \<and>
                     (strcaseeq gr2 ''cluster-'' \<or> strcaseeq gr2 ''cluster-ro-'')
                  then gr1 @ ''.cluster-'' @ gr3 else []
          else []
      | None \<Rightarrow> [])"

definition get_rds_cluster_host_url :: "string \<Rightarrow> string" where
  "get_rds_cluster_host_url host =
     first_nonempty (cluster_host_url_of AURORA_CLUSTER_PATTERN host)
                    (cluster_host_url_of AURORA_CHINA_CLUSTER_PATTERN host)"

definition cluster_id_of :: "rx \<Rightarrow> string \<Rightarrow> string" where
  "cluster_id_of pattern host =
     (case regex_search True pattern host of
        Some m \<Rightarrow> if match_size pattern > 1 \<and> group_str m 2 \<noteq> [] then group_str m 1 else []
      | None \<Rightarrow> [])"

definition get_rds_cluster_id :: "string \<Rightarrow> string" where
  "get_rds_cluster_id host =
     first_nonempty (cluster_id_of AURORA_DNS_PATTERN host) (cluster_id_of AURORA_CHINA_DNS_PATTERN host)"

definition instance_id_of :: "rx \<Rightarrow> string \<Rightarrow> string" where
  "instance_id_of pattern host =
     (case regex_search True pattern host of
        Some m \<Rightarrow> if match_size pattern > 1 \<and> group_str m 2 = [] then group_str m 1 else []
      | None \<Rightarrow> [])"

definition get_rds_instance_id :: "string \<Rightarrow> string" where
  "get_rds_instance_id host =
     first_nonempty (instance_id_of AURORA_DNS_PATTERN host) (instance_id_of AURORA_CHINA_DNS_PATTERN host)"

definition instance_host_pattern_of :: "rx \<Rightarrow> string \<Rightarrow> string" where
  "instance_host_pattern_of pattern host =
     (case regex_search True pattern host of
        Some m \<Rightarrow> if match_size pattern > 4 \<and> group_str m 3 \<noteq> [] then ''?.'' @ group_str m 3 else []
      | None \<Rightarrow> [])"

definition get_rds_instance_host_pattern :: "string \<Rightarrow> string" where
  "get_rds_instance_host_pattern host =
     first_nonempty (instance_host_pattern_of AURORA_DNS_PATTERN host)
                    (instance_host_pattern_of AURORA_CHINA_DNS_PATTERN host)"

definition region_of :: "rx \<Rightarrow> string \<Rightarrow> string" where
  "region_of pattern host =
     (case regex_search True pattern host of
        Some m \<Rightarrow> if match_size pattern > 4 \<and> group_str m 4 \<noteq> [] then group_str m 4 else []
      | None \<Rightarrow> [])"

definition get_rds_region :: "string \<Rightarrow> string" where
  "get_rds_region host =
     first_nonempty (region_of AURORA_DNS_PATTERN host) (region_of AURORA_CHINA_DNS_PATTERN host)"

section \<open>What the patterns accept\<close>

definition alnum_char :: "char \<Rightarrow> bool" where
  "alnum_char c \<longleftrightarrow> in_set True [(CHR ''a'', CHR ''z''), (CHR ''A'', CHR ''Z''), (CHR ''0'', CHR ''9'')] c"

definition alnum_dash_char :: "char \<Rightarrow> bool" where
  "alnum_dash_char c \<longleftrightarrow> alnum_char c \<or> c = CHR ''-''"

lemma alnum_char_code:
  "alnum_char c \<longleftrightarrow>
     (let n = of_char c :: nat in 97 \<le> n \<and> n \<le> 122 \<or> 65 \<le> n \<and> n \<le> 90 \<or> 48 \<le> n \<and> n \<le> 57)"
  by (auto simp: alnum_char_def in_set_def in_range_def to_lower_def to_upper_def Let_def)

lemma dot_not_alnum [simp]: "\<not> alnum_dash_char CHR ''.''" "\<not> alnum_char CHR ''.''" "\<not> alnum_char CHR ''-''"
  by (simp_all add: alnum_dash_char_def alnum_char_code)

lemma denotes_alnum: "denotes True n (rx_plus alnum) (words1 alnum_char)"
proof -
  have "single True n alnum alnum_char"
    by (simp add: alnum_def single_def alnum_char_def rmatch.simps split: list.splits)
  then show ?thesis by (rule denotes_plus_single)
qed

lemma in_range_single: "in_range c (d, d) \<longleftrightarrow> c = d"
  using of_char_eq_iff [of c d, where 'a = nat] by (auto simp: in_range_def simp del: of_char_eq_iff)

lemma fold_to_dash:
  "to_lower c = CHR ''-'' \<longleftrightarrow> c = CHR ''-''" "to_upper c = CHR ''-'' \<longleftrightarrow> c = CHR ''-''"
proof -
  show "to_lower c = CHR ''-'' \<longleftrightarrow> c = CHR ''-''"
    by (rule to_lower_eq_iff) (simp_all add: to_lower_def)
  have "(of_char (to_upper c) :: nat) = of_char CHR ''-'' \<longleftrightarrow> (of_char c :: nat) = of_char CHR ''-''"
    by (auto simp: of_char_to_upper simp del: of_char_eq_iff)
  then show "to_upper c = CHR ''-'' \<longleftrightarrow> c = CHR ''-''"
    by (simp only: of_char_eq_iff)
qed

lemma in_set_dash:
  "in_set True [(CHR ''a'', CHR ''z''), (CHR ''A'', CHR ''Z''), (CHR ''0'', CHR ''9''), (CHR ''-'', CHR ''-'')] c
     \<longleftrightarrow> alnum_dash_char c"
  by (auto simp: in_set_def alnum_dash_char_def alnum_char_def in_range_single fold_to_dash)

lemma denotes_alnum_dash: "denotes True n (rx_plus alnum_dash) (words1 alnum_dash_char)"
proof -
  have "single True n alnum_dash alnum_dash_char"
    by (simp add: alnum_dash_def single_def in_set_dash rmatch.simps split: list.splits)
  then show ?thesis by (rule denotes_plus_single)
qed

definition std_lang :: "string set" where
  "std_lang = conc (words1 alnum_char) (conc {''.''}
     (conc (words1 alnum_dash_char) (fold_lit True ''.rds.amazonaws.com'')))"

definition china_lang :: "string set" where
  "china_lang = conc (words1 alnum_char) (conc {''.''}
     (conc (conc (fold_lit True ''rds.'') (words1 alnum_dash_char) \<union>
            conc (words1 alnum_dash_char) (fold_lit True ''.rds''))
       (fold_lit True ''.amazonaws.com.cn'')))"

definition prefixes_lang :: "string list \<Rightarrow> string set" where
  "prefixes_lang ws = {concat us | us. us \<noteq> [] \<and> set us \<subseteq> (\<Union>w \<in> set ws. fold_lit True w)}"

lemma lower_dot [simp]: "to_lower c = CHR ''.'' \<longleftrightarrow> c = CHR ''.''"
  by (rule to_lower_eq_iff) (simp_all add: to_lower_def)

lemma fold_lit_dot: "fold_lit True ''.'' = {''.''}"
proof -
  have "to_lower CHR ''.'' = CHR ''.''" by (simp only: lower_dot)
  moreover have "map to_lower u = ''.'' \<longleftrightarrow> u = ''.''" for u by (cases u) auto
  ultimately show ?thesis by (simp only: fold_lit_lower list.map) simp
qed

lemma denotes_dot: "denotes True n (RChr CHR ''.'') {''.''}"
  using denotes_RChr [of True n "CHR ''.''"] by (simp add: fold_lit_dot)

lemma denotes_std_domain: "denotes True n (std_domain b) std_lang"
  unfolding std_domain_def std_lang_def
  by (cases b) (auto simp del: rx_lit.simps
    intro!: denotes_alnum denotes_alnum_dash denotes_dot denotes_lit denotes_RGrp denotes_RSeq)

lemma denotes_china_domain: "denotes True n china_domain china_lang"
  unfolding china_domain_def china_lang_def
  by (auto simp del: rx_lit.simps
    intro!: denotes_alnum denotes_alnum_dash denotes_dot denotes_lit denotes_RGrp denotes_RSeq denotes_RAlt)

lemma denotes_prefixes:
  assumes "ws \<noteq> []" "\<forall>w \<in> set ws. w \<noteq> []"
  shows "denotes True n (prefixes ws) (prefixes_lang ws)"
  unfolding prefixes_def prefixes_lang_def
  by (intro denotes_plus denotes_RGrp denotes_alts_lit) (use assms in \<open>auto simp: fold_lit_lower\<close>)

lemma denotes_dns_pattern:
  assumes "denotes True n pre A" "denotes True n domain D"
  shows "denotes True n (dns_pattern pre domain)
           (conc (words1 (\<lambda>c. \<not> line_end c)) (conc {''.''} (conc A D)))"
  unfolding dns_pattern_def
  using assms
  by (simp add: denotes_RGrp denotes_RSeq denotes_dot denotes_plus_single)

section \<open>The label that carries the endpoint's kind\<close>

text \<open>
  In both forms the kind of an endpoint is the prefix of one label of the name, at a fixed
  distance from the end. The label is unique, also between the two forms.
\<close>

definition host_label :: "bool \<Rightarrow> string \<Rightarrow> string \<Rightarrow> bool" where
  "host_label china h B \<longleftrightarrow> CHR ''.'' \<notin> set B \<and>
     (\<exists>p e. if china
        then \<exists>f. CHR ''.'' \<notin> set e \<and> CHR ''.'' \<notin> set f \<and>
               map to_lower h = ((p @ CHR ''.'' # B) @ CHR ''.'' # e) @ CHR ''.'' # f @ ''.amazonaws.com.cn''
        else CHR ''.'' \<notin> set e \<and>
               map to_lower h = ((p @ CHR ''.'' # B) @ CHR ''.'' # e) @ ''.rds.amazonaws.com'')"

lemma host_label_unique:
  assumes "host_label c h B" "host_label c' h B'"
  shows "c = c' \<and> B = B'"
proof -
  have last: "host_label a h C \<Longrightarrow> last (map to_lower h) = (if a then CHR ''n'' else CHR ''m'')" for a C
    by (auto simp: host_label_def split: if_splits)
  from last [OF assms(1)] last [OF assms(2)] have "c = c'" by (auto split: if_splits)
  moreover have "B = B'"
  proof (cases c)
    case True
    with assms(1) obtain p e f where
      1: "CHR ''.'' \<notin> set e" "CHR ''.'' \<notin> set f" "CHR ''.'' \<notin> set B"
        "map to_lower h = ((p @ CHR ''.'' # B) @ CHR ''.'' # e) @ CHR ''.'' # f @ ''.amazonaws.com.cn''"
      unfolding host_label_def by auto
    from True assms(2) \<open>c = c'\<close> obtain p' e' f' where
      2: "CHR ''.'' \<notin> set e'" "CHR ''.'' \<notin> set f'" "CHR ''.'' \<notin> set B'"
        "map to_lower h = ((p' @ CHR ''.'' # B') @ CHR ''.'' # e') @ CHR ''.'' # f' @ ''.amazonaws.com.cn''"
      unfolding host_label_def by auto
    note n = 1(1-3) 2(1-3)
    from 1(4) 2(4) have
      "(((p @ CHR ''.'' # B) @ CHR ''.'' # e) @ CHR ''.'' # f) @ ''.amazonaws.com.cn'' =
       (((p' @ CHR ''.'' # B') @ CHR ''.'' # e') @ CHR ''.'' # f') @ ''.amazonaws.com.cn''"
      by simp
    then have "((p @ CHR ''.'' # B) @ CHR ''.'' # e) @ CHR ''.'' # f =
           ((p' @ CHR ''.'' # B') @ CHR ''.'' # e') @ CHR ''.'' # f'"
      by (simp only: append_same_eq)
    with n show ?thesis by (metis append_last_sep_eq)
  next
    case False
    with assms(1) obtain p e where
      1: "CHR ''.'' \<notin> set e" "CHR ''.'' \<notin> set B"
        "map to_lower h = ((p @ CHR ''.'' # B) @ CHR ''.'' # e) @ ''.rds.amazonaws.com''"
      unfolding host_label_def by auto
    from False assms(2) \<open>c = c'\<close> obtain p' e' where
      2: "CHR ''.'' \<notin> set e'" "CHR ''.'' \<notin> set B'"
        "map to_lower h = ((p' @ CHR ''.'' # B') @ CHR ''.'' # e') @ ''.rds.amazonaws.com''"
      unfolding host_label_def by auto
    note n = 1(1-2) 2(1-2)
    from 1(3) 2(3) have
      "((p @ CHR ''.'' # B) @ CHR ''.'' # e) @ ''.rds.amazonaws.com'' =
       ((p' @ CHR ''.'' # B') @ CHR ''.'' # e') @ ''.rds.amazonaws.com''"
      by (simp only:)
    then have "(p @ CHR ''.'' # B) @ CHR ''.'' # e = (p' @ CHR ''.'' # B') @ CHR ''.'' # e'"
      by (simp only: append_same_eq)
    with n show ?thesis by (metis append_last_sep_eq)
  qed
  ultimately show ?thesis ..
qed

definition kind_labels :: "string list \<Rightarrow> string set" where
  "kind_labels ws = {concat us @ x | us x. us \<noteq> [] \<and> set us \<subseteq> set ws \<and> x \<in> words1 alnum_char}"


lemma lower_alnum [simp]: "alnum_char (to_lower c) = alnum_char c"
  by (simp add: alnum_char_code of_char_to_lower Let_def)

lemma words1_no_dot: "u \<in> words1 P \<Longrightarrow> \<not> P CHR ''.'' \<Longrightarrow> CHR ''.'' \<notin> set (map to_lower u)"
  by (auto simp: words1_def) (metis lower_dot)

lemma lower_words:
  assumes "set us \<subseteq> (\<Union>w \<in> set ws. fold_lit True w)" "\<forall>w \<in> set ws. map to_lower w = w"
  shows "\<exists>vs. length vs = length us \<and> set vs \<subseteq> set ws \<and> map to_lower (concat us) = concat vs"
  using assms(1)
proof (induction us)
  case (Cons u us)
  then obtain vs where "length vs = length us" "set vs \<subseteq> set ws" "map to_lower (concat us) = concat vs" by auto
  moreover from Cons.prems obtain w where "w \<in> set ws" "map to_lower u = w"
    using assms(2) by (auto simp: fold_lit_lower)
  ultimately show ?case by (intro exI [of _ "w # vs"]) auto
qed simp

lemma kind_label_of:
  assumes A: "a \<in> prefixes_lang ws" and x: "x \<in> words1 alnum_char"
    and low: "\<forall>w \<in> set ws. map to_lower w = w \<and> CHR ''.'' \<notin> set w"
  shows "map to_lower (a @ x) \<in> kind_labels ws" "CHR ''.'' \<notin> set (map to_lower (a @ x))"
proof -
  from A obtain us where us: "us \<noteq> []" "set us \<subseteq> (\<Union>w \<in> set ws. fold_lit True w)" "a = concat us"
    by (auto simp: prefixes_lang_def)
  then obtain vs where vs: "length vs = length us" "set vs \<subseteq> set ws" "map to_lower a = concat vs"
    using lower_words low by blast
  have "map to_lower x \<in> words1 alnum_char" using x by (auto simp: words1_def)
  moreover have "vs \<noteq> []" using vs(1) us(1) by auto
  ultimately show "map to_lower (a @ x) \<in> kind_labels ws"
    using vs by (auto simp: kind_labels_def)
  have "CHR ''.'' \<notin> set (concat vs)" using vs(2) low by auto
  then show "CHR ''.'' \<notin> set (map to_lower (a @ x))"
    using words1_no_dot [OF x] vs(3) by (simp only: map_append set_append Un_iff) simp
qed


text \<open>Both forms of a name with a kind prefix have such a label.\<close>

lemma host_label_stdI:
  "CHR ''.'' \<notin> set B \<Longrightarrow> CHR ''.'' \<notin> set e \<Longrightarrow>
   map to_lower h = ((p @ CHR ''.'' # B) @ CHR ''.'' # e) @ ''.rds.amazonaws.com'' \<Longrightarrow> host_label False h B"
  unfolding host_label_def if_False by blast

lemma host_label_chinaI:
  "CHR ''.'' \<notin> set B \<Longrightarrow> CHR ''.'' \<notin> set e \<Longrightarrow> CHR ''.'' \<notin> set f \<Longrightarrow>
   map to_lower h = ((p @ CHR ''.'' # B) @ CHR ''.'' # e) @ CHR ''.'' # f @ ''.amazonaws.com.cn'' \<Longrightarrow>
   host_label True h B"
  unfolding host_label_def if_True by blast

lemma concE:
  assumes "w \<in> conc A B"
  obtains u v where "w = u @ v" "u \<in> A" "v \<in> B"
  using assms by (auto simp: conc_def)

lemma dns_decompose:
  assumes "h \<in> conc W (conc {''.''} (conc A (conc X (conc {''.''} (conc Z T)))))"
  obtains p a x z t where "h = p @ ''.'' @ a @ x @ ''.'' @ z @ t" "a \<in> A" "x \<in> X" "z \<in> Z" "t \<in> T"
  using assms by (auto simp: conc_def)

lemma std_host_label:
  assumes "regex_match True (dns_pattern (prefixes ws) (std_domain b)) h"
    and "ws \<noteq> []" "\<forall>w \<in> set ws. w \<noteq> [] \<and> map to_lower w = w \<and> CHR ''.'' \<notin> set w"
  shows "\<exists>B \<in> kind_labels ws. host_label False h B"
proof -
  have "h \<in> conc (words1 (\<lambda>c. \<not> line_end c)) (conc {''.''} (conc (prefixes_lang ws) std_lang))"
    using denotes_match [OF denotes_dns_pattern [OF denotes_prefixes denotes_std_domain]] assms by blast
  then obtain p a x y T where h: "h = p @ ''.'' @ a @ x @ ''.'' @ y @ T"
    and a: "a \<in> prefixes_lang ws" and x: "x \<in> words1 alnum_char" and y: "y \<in> words1 alnum_dash_char"
    and T: "T \<in> fold_lit True ''.rds.amazonaws.com''"
    unfolding std_lang_def by (rule dns_decompose) blast
  have "map to_lower T = ''.rds.amazonaws.com''"
    using T by (simp add: fold_lit_lower to_lower_def)
  moreover have "to_lower CHR ''.'' = CHR ''.''" by (simp only: lower_dot)
  ultimately have "map to_lower h =
     ((map to_lower p @ CHR ''.'' # map to_lower (a @ x)) @ CHR ''.'' # map to_lower y) @ ''.rds.amazonaws.com''"
    unfolding h by (simp only: map_append list.map append_assoc append_Cons append_Nil)
  then have "host_label False h (map to_lower (a @ x))"
    using kind_label_of [OF a x] words1_no_dot [OF y] assms(3) by (intro host_label_stdI) auto
  with kind_label_of(1) [OF a x] assms(3) show ?thesis by blast
qed

lemma china_host_label:
  assumes "regex_match True (dns_pattern (prefixes ws) china_domain) h"
    and "ws \<noteq> []" "\<forall>w \<in> set ws. w \<noteq> [] \<and> map to_lower w = w \<and> CHR ''.'' \<notin> set w"
  shows "\<exists>B \<in> kind_labels ws. host_label True h B"
proof -
  have "h \<in> conc (words1 (\<lambda>c. \<not> line_end c)) (conc {''.''} (conc (prefixes_lang ws) china_lang))"
    using denotes_match [OF denotes_dns_pattern [OF denotes_prefixes denotes_china_domain]] assms by blast
  then obtain p a x z T where h: "h = p @ ''.'' @ a @ x @ ''.'' @ z @ T"
    and a: "a \<in> prefixes_lang ws" and x: "x \<in> words1 alnum_char"
    and z: "z \<in> conc (fold_lit True ''rds.'') (words1 alnum_dash_char) \<union>
            conc (words1 alnum_dash_char) (fold_lit True ''.rds'')"
    and T: "T \<in> fold_lit True ''.amazonaws.com.cn''"
    unfolding china_lang_def by (rule dns_decompose) blast
  have dot: "to_lower CHR ''.'' = CHR ''.''" by (simp only: lower_dot)
  have low: "map to_lower ''rds.'' = ''rds.''" "map to_lower ''.rds'' = ''.rds''"
    by (simp_all add: to_lower_def)
  have "\<exists>e f. CHR ''.'' \<notin> set e \<and> CHR ''.'' \<notin> set f \<and> map to_lower z = e @ CHR ''.'' # f"
    using z
  proof (elim UnE)
    assume "z \<in> conc (fold_lit True ''rds.'') (words1 alnum_dash_char)"
    then obtain u v where "z = u @ v" "u \<in> fold_lit True ''rds.''" "v \<in> words1 alnum_dash_char"
      by (rule concE)
    moreover from this low have "map to_lower u = ''rds.''" by (simp only: fold_lit_lower mem_Collect_eq)
    ultimately show ?thesis
      using words1_no_dot [of v] by (intro exI [of _ "''rds''"] exI [of _ "map to_lower v"]) auto
  next
    assume "z \<in> conc (words1 alnum_dash_char) (fold_lit True ''.rds'')"
    then obtain u v where "z = u @ v" "u \<in> words1 alnum_dash_char" "v \<in> fold_lit True ''.rds''"
      by (rule concE)
    moreover from this low have "map to_lower v = ''.rds''" by (simp only: fold_lit_lower mem_Collect_eq)
    ultimately show ?thesis
      using words1_no_dot [of u] by (intro exI [of _ "map to_lower u"] exI [of _ "''rds''"]) auto
  qed
  then obtain e f where ef: "CHR ''.'' \<notin> set e" "CHR ''.'' \<notin> set f" "map to_lower z = e @ CHR ''.'' # f" by blast
  have "map to_lower T = ''.amazonaws.com.cn''"
    using T by (simp add: fold_lit_lower to_lower_def)
  with dot ef(3) have "map to_lower h =
     ((map to_lower p @ CHR ''.'' # map to_lower (a @ x)) @ CHR ''.'' # e) @ CHR ''.'' # f @ ''.amazonaws.com.cn''"
    unfolding h by (simp only: map_append list.map append_assoc append_Cons append_Nil)
  then have "host_label True h (map to_lower (a @ x))"
    using kind_label_of [OF a x] ef(1,2) assms(3) by (intro host_label_chinaI) auto
  with kind_label_of(1) [OF a x] assms(3) show ?thesis by blast
qed

text \<open>The four kinds have disjoint labels.\<close>

lemma kind_labels_front:
  assumes "B \<in> kind_labels [w]"
  shows "\<exists>r. B = w @ r \<and> ((\<exists>q. r = w @ q) \<or> r \<in> words1 alnum_char)"
proof -
  from assms obtain us x where B: "us \<noteq> []" "set us \<subseteq> {w}" "B = concat us @ x" "x \<in> words1 alnum_char"
    by (auto simp: kind_labels_def)
  then obtain vs where vs: "us = w # vs" "set vs \<subseteq> {w}" by (cases us) auto
  with B show ?thesis by (cases vs) auto
qed

lemma words1_dash: "u @ CHR ''-'' # v \<notin> words1 alnum_char"
  by (auto simp: words1_def)

lemma kind_labels_disjoint:
  "kind_labels [''cluster-''] \<inter> kind_labels [''cluster-ro-''] = {}"
  "kind_labels [''cluster-''] \<inter> kind_labels [''cluster-custom-''] = {}"
  "kind_labels [''cluster-ro-''] \<inter> kind_labels [''cluster-custom-''] = {}"
  "kind_labels [''proxy-''] \<inter> kind_labels [''cluster-''] = {}"
  "kind_labels [''proxy-''] \<inter> kind_labels [''cluster-ro-''] = {}"
  "kind_labels [''proxy-''] \<inter> kind_labels [''cluster-custom-''] = {}"
proof -
  have no: "''ro-'' @ r \<notin> words1 alnum_char" "''custom-'' @ r \<notin> words1 alnum_char" for r
    using words1_dash [of "''ro''"] words1_dash [of "''custom''"] by simp_all
  show "kind_labels [''cluster-''] \<inter> kind_labels [''cluster-ro-''] = {}"
    using no(1) by (fastforce dest: kind_labels_front)
  show "kind_labels [''cluster-''] \<inter> kind_labels [''cluster-custom-''] = {}"
    using no(2) by (fastforce dest: kind_labels_front)
qed (fastforce dest: kind_labels_front)+


lemma kind_label_cases:
  assumes "regex_match True (dns_pattern (prefixes [w]) (std_domain False)) h \<or>
           regex_match True (dns_pattern (prefixes [w]) china_domain) h"
    and "w \<noteq> []" "map to_lower w = w" "CHR ''.'' \<notin> set w"
  shows "\<exists>c. \<exists>B \<in> kind_labels [w]. host_label c h B"
  using assms std_host_label [of "[w]" False h] china_host_label [of "[w]" h] by auto

lemma endpoint_kind_labels:
  "is_rds_writer_cluster_dns h \<Longrightarrow> \<exists>c. \<exists>B \<in> kind_labels [''cluster-'']. host_label c h B"
  "is_rds_reader_cluster_dns h \<Longrightarrow> \<exists>c. \<exists>B \<in> kind_labels [''cluster-ro-'']. host_label c h B"
  "is_rds_custom_cluster_dns h \<Longrightarrow> \<exists>c. \<exists>B \<in> kind_labels [''cluster-custom-'']. host_label c h B"
  "is_rds_proxy_dns h \<Longrightarrow> \<exists>c. \<exists>B \<in> kind_labels [''proxy-'']. host_label c h B"
  unfolding is_rds_writer_cluster_dns_def is_rds_reader_cluster_dns_def is_rds_custom_cluster_dns_def
    is_rds_proxy_dns_def AURORA_WRITER_CLUSTER_PATTERN_def AURORA_CHINA_WRITER_CLUSTER_PATTERN_def
    AURORA_READER_CLUSTER_PATTERN_def AURORA_CHINA_READER_CLUSTER_PATTERN_def
    AURORA_CUSTOM_CLUSTER_PATTERN_def AURORA_CHINA_CUSTOM_CLUSTER_PATTERN_def
    AURORA_PROXY_DNS_PATTERN_def AURORA_CHINA_PROXY_DNS_PATTERN_def
  by (erule kind_label_cases; simp add: to_lower_def)+

lemma host_kinds_disjoint:
  assumes "\<exists>c. \<exists>B \<in> K. host_label c h B" "\<exists>c. \<exists>B \<in> K'. host_label c h B"
  shows "K \<inter> K' \<noteq> {}"
  using assms host_label_unique by blast

text \<open>
The endpoint kinds the failover code tells apart are mutually exclusive: no host name is
  at once two of a writer cluster, a reader cluster, a custom cluster and a proxy endpoint, in
  whatever mix of the general and the Chinese form.
\<close>

theorem endpoint_kinds_exclusive:
  "\<not> (is_rds_writer_cluster_dns h \<and> is_rds_reader_cluster_dns h) \<and>
   \<not> (is_rds_writer_cluster_dns h \<and> is_rds_custom_cluster_dns h) \<and>
   \<not> (is_rds_reader_cluster_dns h \<and> is_rds_custom_cluster_dns h) \<and>
   \<not> (is_rds_proxy_dns h \<and> is_rds_writer_cluster_dns h) \<and>
   \<not> (is_rds_proxy_dns h \<and> is_rds_reader_cluster_dns h) \<and>
   \<not> (is_rds_proxy_dns h \<and> is_rds_custom_cluster_dns h)"
  using host_kinds_disjoint endpoint_kind_labels [of h] kind_labels_disjoint by meson

section \<open>Dissecting an endpoint\<close>

declare rx_lit.simps [simp del] rmatch.simps [simp del] mem_RSeq [simp del] mem_RGrp [simp del]

definition known_prefixes :: "string list" where
  "known_prefixes = [''proxy-'', ''cluster-'', ''cluster-ro-'', ''cluster-custom-'']"

lemma mem_dot:
  "(t, j) \<in> set (rmatch True n (RChr CHR ''.'') s k) \<longleftrightarrow> j = k \<and> s = CHR ''.'' # t"
proof -
  have "chr_eq True CHR ''.'' c \<longleftrightarrow> c = CHR ''.''" for c
    by (metis chr_eq_def lower_dot)
  then show ?thesis by (auto simp: rmatch.simps split: list.splits if_splits)
qed

lemma mem_alnum:
  "(t, j) \<in> set (rmatch True n (rx_plus alnum) s k) \<longleftrightarrow> j = k \<and> (\<exists>u \<in> words1 alnum_char. s = u @ t)"
proof -
  have "single True n alnum alnum_char"
    by (simp add: alnum_def single_def alnum_char_def rmatch.simps split: list.splits)
  from mem_plus_single [OF this] show ?thesis by (auto simp: words1_def)
qed

lemma mem_alnum_dash:
  "(t, j) \<in> set (rmatch True n (rx_plus alnum_dash) s k) \<longleftrightarrow>
     j = k \<and> (\<exists>u \<in> words1 alnum_dash_char. s = u @ t)"
proof -
  have "single True n alnum_dash alnum_dash_char"
    by (simp add: alnum_dash_def single_def in_set_dash rmatch.simps split: list.splits)
  from mem_plus_single [OF this] show ?thesis by (auto simp: words1_def)
qed

lemma mem_any:
  "(t, j) \<in> set (rmatch True n (rx_plus RAny) s k) \<longleftrightarrow>
     j = k \<and> (\<exists>u \<in> words1 (\<lambda>c. \<not> line_end c). s = u @ t)"
  using mem_plus_single [OF single_RAny] by (auto simp: words1_def)

lemma mem_lit_fold:
  "(t, j) \<in> set (rmatch ic n (rx_lit w) s k) \<longleftrightarrow> j = k \<and> (\<exists>u \<in> fold_lit ic w. s = u @ t)"
  by (auto simp: mem_lit fold_lit_def)

lemma mem_any_prefix:
  "(t, j) \<in> set (rmatch True n any_prefix s k) \<longleftrightarrow>
     t = s \<and> j = k \<or> (\<exists>a. a \<in> (\<Union>w \<in> set known_prefixes. fold_lit True w) \<and> s = a @ t \<and> j = (2, a) # k)"
proof -
  let ?r = "rx_alts (map rx_lit known_prefixes)"
  have alts: "(t, i) \<in> set (rmatch True n ?r s k) \<longleftrightarrow>
     i = k \<and> (\<exists>u \<in> (\<Union>w \<in> set known_prefixes. fold_lit True w). s = u @ t)" for i
    by (simp add: known_prefixes_def rmatch.simps mem_lit_fold) blast
  have dec: "any_prefix = rx_opt (RGrp 2 ?r)" by (simp add: any_prefix_def known_prefixes_def)
  have grp: "(t, j) \<in> set (rmatch True n (RGrp 2 ?r) s k) \<longleftrightarrow>
     (\<exists>a. a \<in> (\<Union>w \<in> set known_prefixes. fold_lit True w) \<and> s = a @ t \<and> j = (2, a) # k)"
    (is "?L \<longleftrightarrow> ?R")
  proof
    assume ?L
    then obtain i u where u: "(t, i) \<in> set (rmatch True n ?r s k)" "s = u @ t" "j = (2, u) # i"
      by (rule mem_grpE)
    then show ?R unfolding alts by auto
  next
    assume ?R
    then obtain a where a: "a \<in> (\<Union>w \<in> set known_prefixes. fold_lit True w)" "s = a @ t" "j = (2, a) # k"
      by blast
    then have "(t, k) \<in> set (rmatch True n ?r s k)" unfolding alts by blast
    then show ?L using a(2,3) by (rule mem_grpI)
  qed
  show ?thesis unfolding dec mem_opt grp prod.inject by blast
qed

lemma mem_std_domainE:
  assumes "(t, j) \<in> set (rmatch True n (std_domain True) s k)"
  obtains x y T where "x \<in> words1 alnum_char" "y \<in> words1 alnum_dash_char"
    "T \<in> fold_lit True ''.rds.amazonaws.com''"
    "s = x @ CHR ''.'' # y @ T @ t" "j = (3, x @ CHR ''.'' # y @ T) # (4, y) # k"
proof -
  from assms [unfolded std_domain_def rx_seqs.simps if_True] obtain j1 u
    where j: "s = u @ t" "j = (3, u) # j1" and m: "(t, j1) \<in> set (rmatch True n (RSeq (rx_plus alnum)
      (RSeq (RChr CHR ''.'') (RSeq (RGrp 4 (rx_plus alnum_dash)) (rx_lit ''.rds.amazonaws.com'')))) s k)"
    by (rule mem_grpE)
  from m obtain r0 k0 where "(r0, k0) \<in> set (rmatch True n (rx_plus alnum) s k)" and m1: "(t, j1) \<in> set (rmatch True n
      (RSeq (RChr CHR ''.'') (RSeq (RGrp 4 (rx_plus alnum_dash)) (rx_lit ''.rds.amazonaws.com''))) r0 k0)"
    by (rule mem_seqE)
  then obtain s1 where x: "s1 \<in> words1 alnum_char" "s = s1 @ r0" "k0 = k" by (auto simp: mem_alnum)
  from m1 obtain r k1 where "(r, k1) \<in> set (rmatch True n (RChr CHR ''.'') r0 k0)" and m2: "(t, j1) \<in> set (rmatch True n
      (RSeq (RGrp 4 (rx_plus alnum_dash)) (rx_lit ''.rds.amazonaws.com'')) r k1)"
    by (rule mem_seqE)
  then have r: "s = s1 @ CHR ''.'' # r" "k1 = k" using x by (auto simp: mem_dot)
  from m2 obtain q k2 where q: "(q, k2) \<in> set (rmatch True n (RGrp 4 (rx_plus alnum_dash)) r k1)"
    and m3: "(t, j1) \<in> set (rmatch True n (rx_lit ''.rds.amazonaws.com'') q k2)"
    by (rule mem_seqE)
  from q obtain y where y: "y \<in> words1 alnum_dash_char" "r = y @ q" "k2 = (4, y) # k"
    using r(2) by (elim mem_grpE) (auto simp: mem_alnum_dash)
  from m3 obtain T where T: "j1 = k2" "T \<in> fold_lit True ''.rds.amazonaws.com''" "q = T @ t"
    unfolding mem_lit_fold by blast
  have "u = s1 @ CHR ''.'' # y @ T" using j(1) r y(2) T(3) by simp
  with x(1) y T j r that [of s1 y T] show thesis by simp
qed

lemma mem_std_domainI:
  assumes "x \<in> words1 alnum_char" "y \<in> words1 alnum_dash_char" "T \<in> fold_lit True ''.rds.amazonaws.com''"
  shows "(t, (3, x @ CHR ''.'' # y @ T) # (4, y) # k) \<in>
           set (rmatch True n (std_domain True) (x @ CHR ''.'' # y @ T @ t) k)"
  unfolding std_domain_def rx_seqs.simps if_True
proof (rule mem_grpI)
  show "x @ CHR ''.'' # y @ T @ t = (x @ CHR ''.'' # y @ T) @ t" by simp
  show "(t, (4, y) # k) \<in> set (rmatch True n (RSeq (rx_plus alnum)
      (RSeq (RChr CHR ''.'') (RSeq (RGrp 4 (rx_plus alnum_dash)) (rx_lit ''.rds.amazonaws.com''))))
      (x @ CHR ''.'' # y @ T @ t) k)"
  proof (intro mem_seqI)
    show "(CHR ''.'' # y @ T @ t, k) \<in> set (rmatch True n (rx_plus alnum) (x @ CHR ''.'' # y @ T @ t) k)"
      using assms(1) by (auto simp: mem_alnum)
    show "(y @ T @ t, k) \<in> set (rmatch True n (RChr CHR ''.'') (CHR ''.'' # y @ T @ t) k)"
      by (simp add: mem_dot del: rmatch.simps)
    show "(T @ t, (4, y) # k) \<in> set (rmatch True n (RGrp 4 (rx_plus alnum_dash)) (y @ T @ t) k)"
      using assms(2) by (intro mem_grpI) (auto simp: mem_alnum_dash)
    show "(t, (4, y) # k) \<in> set (rmatch True n (rx_lit ''.rds.amazonaws.com'') (T @ t) ((4, y) # k))"
      using assms(3) unfolding mem_lit_fold by blast
  qed
qed simp

definition prefix_capture :: "string \<Rightarrow> captures \<Rightarrow> bool" where
  "prefix_capture a k \<longleftrightarrow>
     a = [] \<and> k = [] \<or> a \<in> (\<Union>w \<in> set known_prefixes. fold_lit True w) \<and> k = [(2, a)]"

lemma mem_AURORA_DNSE:
  assumes "(t, j) \<in> set (rmatch True n AURORA_DNS_PATTERN h [])"
  obtains p a k x y T where "p \<in> words1 (\<lambda>c. \<not> line_end c)" "prefix_capture a k"
    "x \<in> words1 alnum_char" "y \<in> words1 alnum_dash_char" "T \<in> fold_lit True ''.rds.amazonaws.com''"
    "h = p @ CHR ''.'' # a @ x @ CHR ''.'' # y @ T @ t"
    "j = (3, x @ CHR ''.'' # y @ T) # (4, y) # k @ [(1, p)]"
proof -
  from assms [unfolded AURORA_DNS_PATTERN_def dns_pattern_def rx_seqs.simps] obtain s1 k1
    where "(s1, k1) \<in> set (rmatch True n (RGrp 1 (rx_plus RAny)) h [])" and
      m: "(t, j) \<in> set (rmatch True n (RSeq (RChr CHR ''.'') (RSeq any_prefix (std_domain True))) s1 k1)"
    by (rule mem_seqE)
  then obtain p where p: "p \<in> words1 (\<lambda>c. \<not> line_end c)" "h = p @ s1" "k1 = [(1, p)]"
    by (elim mem_grpE) (auto simp: mem_any)
  from m obtain s2 k2 where "(s2, k2) \<in> set (rmatch True n (RChr CHR ''.'') s1 k1)"
    and m2: "(t, j) \<in> set (rmatch True n (RSeq any_prefix (std_domain True)) s2 k2)"
    by (rule mem_seqE)
  then have s2: "s1 = CHR ''.'' # s2" "k2 = k1" by (auto simp: mem_dot)
  from m2 obtain s3 k3 where pre: "(s3, k3) \<in> set (rmatch True n any_prefix s2 k2)"
    and dm: "(t, j) \<in> set (rmatch True n (std_domain True) s3 k3)"
    by (rule mem_seqE)
  from pre obtain a k where a: "prefix_capture a k" "s2 = a @ s3" "k3 = k @ k1"
    using s2(2) unfolding mem_any_prefix prefix_capture_def by force
  from dm obtain x y T where "x \<in> words1 alnum_char" "y \<in> words1 alnum_dash_char"
    "T \<in> fold_lit True ''.rds.amazonaws.com''"
    "s3 = x @ CHR ''.'' # y @ T @ t" "j = (3, x @ CHR ''.'' # y @ T) # (4, y) # k3"
    by (rule mem_std_domainE)
  with p s2 a that [of p a k x y T] show thesis by simp
qed

lemma mem_AURORA_DNSI:
  assumes "p \<in> words1 (\<lambda>c. \<not> line_end c)" "prefix_capture a k"
    "x \<in> words1 alnum_char" "y \<in> words1 alnum_dash_char" "T \<in> fold_lit True ''.rds.amazonaws.com''"
  shows "(t, (3, x @ CHR ''.'' # y @ T) # (4, y) # k @ [(1, p)]) \<in>
    set (rmatch True n AURORA_DNS_PATTERN (p @ CHR ''.'' # a @ x @ CHR ''.'' # y @ T @ t) [])"
  unfolding AURORA_DNS_PATTERN_def dns_pattern_def rx_seqs.simps
proof (intro mem_seqI)
  let ?s = "CHR ''.'' # a @ x @ CHR ''.'' # y @ T @ t"
  show "(?s, [(1, p)]) \<in> set (rmatch True n (RGrp 1 (rx_plus RAny)) (p @ ?s) [])"
    using assms(1) by (intro mem_grpI) (auto simp: mem_any)
  show "(tl ?s, [(1, p)]) \<in> set (rmatch True n (RChr CHR ''.'') ?s [(1, p)])"
    by (simp add: mem_dot del: rmatch.simps)
  show "(x @ CHR ''.'' # y @ T @ t, k @ [(1, p)]) \<in> set (rmatch True n any_prefix (tl ?s) [(1, p)])"
    using assms(2) unfolding mem_any_prefix prefix_capture_def by auto
  show "(t, (3, x @ CHR ''.'' # y @ T) # (4, y) # k @ [(1, p)]) \<in>
    set (rmatch True n (std_domain True) (x @ CHR ''.'' # y @ T @ t) (k @ [(1, p)]))"
    by (rule mem_std_domainI [OF assms(3-5)])
qed

text \<open>The name of an endpoint, from the identifier, the kind prefix, the cluster's suffix and the region.\<close>

definition rds_endpoint :: "string \<Rightarrow> string \<Rightarrow> string \<Rightarrow> string \<Rightarrow> string" where
  "rds_endpoint i a x y = i @ CHR ''.'' # a @ x @ CHR ''.'' # y @ ''.rds.amazonaws.com''"

definition rds_identifier :: "string \<Rightarrow> bool" where
  "rds_identifier i \<longleftrightarrow> i \<noteq> [] \<and> list_all alnum_dash_char i"

definition rds_parts :: "string \<Rightarrow> string \<Rightarrow> string \<Rightarrow> string \<Rightarrow> bool" where
  "rds_parts i a x y \<longleftrightarrow> rds_identifier i \<and> a \<in> set ([] # known_prefixes) \<and>
     x \<noteq> [] \<and> list_all alnum_char x \<and> y \<noteq> [] \<and> list_all alnum_dash_char y"

definition dots :: "string \<Rightarrow> nat" where
  "dots s = length (filter (\<lambda>c. c = CHR ''.'') s)"

lemma dots_append: "dots (u @ v) = dots u + dots v" and dots_Cons: "dots (c # u) = (if c = CHR ''.'' then 1 else 0) + dots u"
  by (simp_all add: dots_def)

lemma dots_zero: "dots u = 0 \<longleftrightarrow> CHR ''.'' \<notin> set u"
  by (auto simp: dots_def filter_empty_conv)

lemma dots_lower: "dots (map to_lower u) = dots u"
  by (simp add: dots_def filter_map comp_def)

lemma append_first_sep_eq:
  assumes "c \<notin> set u" "c \<notin> set v"
  shows "u @ c # s = v @ c # t \<longleftrightarrow> u = v \<and> s = t"
  using assms by (auto simp: append_eq_append_conv2 append_eq_Cons_conv Cons_eq_append_conv)

lemma alnum_dash_no_line_end: "alnum_dash_char c \<Longrightarrow> \<not> line_end c"
  by (auto simp: line_end_def alnum_dash_char_def alnum_char_code)

lemma known_prefix_dash:
  assumes "prefix_capture a k" "a \<noteq> []"
  shows "\<exists>b. a = b @ ''-'' \<and> k = [(2, a)]"
proof -
  from assms obtain w where w: "w \<in> set known_prefixes" "map to_lower a = map to_lower w" "k = [(2, a)]"
    by (auto simp: prefix_capture_def fold_lit_lower)
  from w(1) have "to_lower (last w) = CHR ''-''"
    by (auto simp: known_prefixes_def to_lower_def)
  moreover have "w \<noteq> []" using w(1) by (auto simp: known_prefixes_def)
  ultimately have "to_lower (last a) = CHR ''-''"
    using w(2) assms(2) by (metis last_map)
  then have "last a = CHR ''-''" by (simp only: fold_to_dash)
  with assms(2) w(3) show ?thesis by (metis append_butlast_last_id)
qed

lemma prefix_split_unique:
  assumes "prefix_capture a k" "prefix_capture a' k'" "a @ x = a' @ x'"
    and "CHR ''-'' \<notin> set x" "CHR ''-'' \<notin> set x'"
  shows "a = a' \<and> x = x' \<and> k = k'"
proof (cases "a = []")
  case True
  show ?thesis
  proof (cases "a' = []")
    case False
    with assms(2) obtain b where "a' = b @ ''-''" using known_prefix_dash by blast
    with True assms(3,4) show ?thesis by auto
  qed (use assms True in \<open>auto simp: prefix_capture_def known_prefixes_def fold_lit_lower\<close>)
next
  case False
  then obtain b where b: "a = b @ ''-''" "k = [(2, a)]" using known_prefix_dash assms(1) by blast
  show ?thesis
  proof (cases "a' = []")
    case True
    with b assms(3,5) show ?thesis by auto
  next
    case False
    then obtain b' where b': "a' = b' @ ''-''" "k' = [(2, a')]" using known_prefix_dash assms(2) by blast
    then show ?thesis
      using b assms(3) append_last_sep_eq [OF assms(4,5), of b b'] by auto
  qed
qed

lemma search_endpoint:
  assumes "rds_parts i a x y"
  shows "regex_search True AURORA_DNS_PATTERN (rds_endpoint i a x y) =
    Some ((3, x @ CHR ''.'' # y @ ''.rds.amazonaws.com'') # (4, y) #
          (if a = [] then [] else [(2, a)]) @ [(1, i)])"
proof (rule regex_search_unique)
  let ?tail = "''.rds.amazonaws.com''" and ?k = "if a = [] then [] else [(2::nat, a)]"
  have i: "i \<in> words1 (\<lambda>c. \<not> line_end c)" "CHR ''.'' \<notin> set i"
    and x: "x \<in> words1 alnum_char" "CHR ''.'' \<notin> set x" "CHR ''-'' \<notin> set x"
    and y: "y \<in> words1 alnum_dash_char" "CHR ''.'' \<notin> set y"
    using assms alnum_dash_no_line_end
    by (auto simp: rds_parts_def rds_identifier_def words1_def list_all_iff)
  have a: "prefix_capture a ?k" "CHR ''.'' \<notin> set a"
    using assms by (auto simp: rds_parts_def prefix_capture_def known_prefixes_def fold_lit_lower)
  show "([], (3, x @ CHR ''.'' # y @ ?tail) # (4, y) # ?k @ [(1, i)]) \<in>
    set (rmatch True (length (rds_endpoint i a x y)) AURORA_DNS_PATTERN (rds_endpoint i a x y) [])"
    using mem_AURORA_DNSI [OF i(1) a(1) x(1) y(1), of ?tail "[]"]
    by (simp add: rds_endpoint_def fold_lit_lower)
  fix t j
  assume "(t, j) \<in> set (rmatch True (length (rds_endpoint i a x y)) AURORA_DNS_PATTERN (rds_endpoint i a x y) [])"
  then obtain p a' k x' y' T where
    p: "prefix_capture a' k" "x' \<in> words1 alnum_char" "y' \<in> words1 alnum_dash_char"
      "T \<in> fold_lit True ?tail" and
    eq: "rds_endpoint i a x y = p @ CHR ''.'' # a' @ x' @ CHR ''.'' # y' @ T @ t" and
    j: "j = (3, x' @ CHR ''.'' # y' @ T) # (4, y') # k @ [(1, p)]"
    by (rule mem_AURORA_DNSE)
  have low: "map to_lower T = map to_lower ?tail" using p(4) by (simp only: fold_lit_lower mem_Collect_eq)
  then have T: "dots T = 3" "length T = length ?tail"
    using dots_lower [of T] dots_lower [of ?tail] map_eq_imp_length_eq [OF low] by (simp_all add: dots_def)
  obtain T' where T': "T = CHR ''.'' # T'"
  proof (cases T)
    case (Cons c T')
    with low have "to_lower c = to_lower CHR ''.''" by simp
    then have "c = CHR ''.''" by (metis lower_dot)
    with Cons that show thesis by simp
  qed (use low in simp)
  have none: "dots i = 0" "dots a = 0" "dots x = 0" "dots y = 0" "dots ?tail = 3"
    using i(2) a(2) x(2) y(2) unfolding dots_zero by (assumption | simp add: dots_def)+
  have "dots (rds_endpoint i a x y) = 5"
    unfolding rds_endpoint_def dots_append dots_Cons none by (simp add: dots_def)
  moreover have "dots (p @ CHR ''.'' # a' @ x' @ CHR ''.'' # y' @ T @ t) =
      dots p + dots a' + dots x' + dots y' + dots t + 5"
    unfolding dots_append dots_Cons T(1) by simp
  ultimately have "dots p = 0" "dots a' = 0" "dots x' = 0" "dots y' = 0" using eq by simp_all
  then have nd: "CHR ''.'' \<notin> set p" "CHR ''.'' \<notin> set (a' @ x')" "CHR ''.'' \<notin> set y'"
    by (simp_all add: dots_zero)
  have "i @ CHR ''.'' # (a @ x) @ CHR ''.'' # y @ ?tail = p @ CHR ''.'' # (a' @ x') @ CHR ''.'' # y' @ T @ t"
    using eq by (simp add: rds_endpoint_def)
  then have ip: "i = p" and "(a @ x) @ CHR ''.'' # y @ ?tail = (a' @ x') @ CHR ''.'' # y' @ T @ t"
    using append_first_sep_eq [OF i(2) nd(1)] by blast+
  then have ax: "a @ x = a' @ x'" and "y @ ?tail = y' @ T @ t"
    using append_first_sep_eq [OF _ nd(2), of "a @ x"] a(2) x(2) by auto
  then have "y @ CHR ''.'' # ''rds.amazonaws.com'' = y' @ CHR ''.'' # T' @ t" by (simp add: T')
  then have yy: "y = y'" and "''rds.amazonaws.com'' = T' @ t"
    using append_first_sep_eq [OF y(2) nd(3)] by blast+
  then have "?tail = T @ t" by (simp add: T')
  then have Tt: "T = ?tail" "t = []" using T(2) by (metis append_eq_conv_conj take_all_iff le_refl append_self_conv)+
  have "CHR ''-'' \<notin> set x'" using p(2) by (auto simp: words1_def)
  with prefix_split_unique [OF a(1) p(1) ax x(3)] have "a = a'" "x = x'" "?k = k" by blast+
  with j ip yy Tt show "j = (3, x @ CHR ''.'' # y @ ?tail) # (4, y) # ?k @ [(1, i)]" by simp
qed

text \<open>The Chinese pattern is only tried when the general one gives nothing.\<close>

lemma match_size_DNS: "match_size AURORA_DNS_PATTERN = 5"
  by (simp add: match_size_def AURORA_DNS_PATTERN_def dns_pattern_def any_prefix_def std_domain_def
      rx_opt_def rx_plus_def alnum_def alnum_dash_def rx_lit.simps)

text \<open>
  C3. Dissecting the name of an endpoint gives back what it was built from: the region and the
  host pattern of the cluster's instances for every kind of endpoint, the instance identifier for
  an instance endpoint, and the identifier of a cluster or proxy endpoint otherwise.
\<close>

theorem endpoint_dissected:
  assumes "rds_parts i a x y"
  shows "get_rds_region (rds_endpoint i a x y) = y \<and>
    get_rds_instance_host_pattern (rds_endpoint i a x y) = ''?.'' @ x @ ''.'' @ y @ ''.rds.amazonaws.com'' \<and>
    (a = [] \<longrightarrow> get_rds_instance_id (rds_endpoint i a x y) = i) \<and>
    (a \<noteq> [] \<longrightarrow> get_rds_cluster_id (rds_endpoint i a x y) = i)"
proof -
  have "y \<noteq> []" "i \<noteq> []" using assms by (auto simp: rds_parts_def rds_identifier_def)
  with search_endpoint [OF assms] show ?thesis
    by (auto simp: get_rds_region_def region_of_def get_rds_instance_host_pattern_def
      instance_host_pattern_of_def get_rds_instance_id_def instance_id_of_def
      get_rds_cluster_id_def cluster_id_of_def first_nonempty_def group_str_def match_size_DNS)
qed

theorem endpoint_dissected_witness:
  "rds_parts ''db'' ''cluster-ro-'' ''XYZ'' ''us-east-2'' \<and>
   get_rds_region ''db.cluster-ro-XYZ.us-east-2.rds.amazonaws.com'' = ''us-east-2'' \<and>
   get_rds_cluster_id ''db.cluster-ro-XYZ.us-east-2.rds.amazonaws.com'' = ''db''"
proof -
  have parts: "rds_parts ''db'' ''cluster-ro-'' ''XYZ'' ''us-east-2''"
    by (simp add: rds_parts_def rds_identifier_def known_prefixes_def alnum_dash_char_def alnum_char_code)
  show ?thesis
    using parts endpoint_dissected [OF parts] by (simp add: rds_endpoint_def)
qed

text \<open>
  The searches are not anchored at the end of the name, so the general pattern also matches a
  Chinese name of the form \<open><region>.rds.amazonaws.com.cn\<close>, without its last label.
\<close>

theorem china_instance_pattern_truncated:
  "is_rds_dns ''db.XYZ.cn-north-1.rds.amazonaws.com.cn'' \<and>
   get_rds_instance_host_pattern ''db.XYZ.cn-north-1.rds.amazonaws.com.cn'' =
     ''?.XYZ.cn-north-1.rds.amazonaws.com''"
  by code_simp

lemma search_needs_tail:
  assumes "\<not> sublist ''.rds.amazonaws.com'' (map to_lower h)"
  shows "regex_search True AURORA_DNS_PATTERN h = None"
proof (rule ccontr)
  assume "regex_search True AURORA_DNS_PATTERN h \<noteq> None"
  then obtain k where "search_from True (length h) AURORA_DNS_PATTERN h = Some k"
    by (auto simp: regex_search_def)
  from search_from_Some [OF this] obtain q s t where h: "h = q @ s"
    and m: "(t, k) \<in> set (rmatch True (length h) AURORA_DNS_PATTERN s [])" by blast
  from m obtain p a x y T where "s = p @ CHR ''.'' # a @ x @ CHR ''.'' # y @ T @ t"
    and T: "T \<in> fold_lit True ''.rds.amazonaws.com''" by (rule mem_AURORA_DNSE)
  with h have "h = (q @ p @ CHR ''.'' # a @ x @ CHR ''.'' # y) @ T @ t" by simp
  then obtain p where "h = p @ T @ t" by blast
  then have "map to_lower h = map to_lower p @ ''.rds.amazonaws.com'' @ map to_lower t"
    using T by (simp add: fold_lit_lower to_lower_def)
  with assms show False by (metis sublist_appendI)
qed

text \<open>
  Group 4 of the Chinese pattern is the region together with the service label, so the region
  of a Chinese name of the form \<open>rds.<region>.amazonaws.com.cn\<close> is not a region name.
\<close>

theorem china_region_has_service_label:
  "get_rds_region ''e.X.rds.cn-north-1.amazonaws.com.cn'' = ''rds.cn-north-1''"
proof -
  let ?h = "''e.X.rds.cn-north-1.amazonaws.com.cn''"
  have "\<not> sublist ''.rds.amazonaws.com'' (map to_lower ?h)" by code_simp
  then have "region_of AURORA_DNS_PATTERN ?h = []" by (simp add: region_of_def search_needs_tail)
  moreover have "region_of AURORA_CHINA_DNS_PATTERN ?h = ''rds.cn-north-1''" by code_simp
  ultimately show ?thesis by (simp add: get_rds_region_def first_nonempty_def)
qed

end
