(* ===== verification/Cache_Interface.thy ===== *)
theory Cache_Interface
  imports Driver_Prelude
begin

text \<open>
  What the two caches of the driver promise their clients. A cache holds for a key a value and
  the time at which the entry expires; it may drop entries, but only expired ones. The locale
  states this contract for \<open>put\<close>, \<open>get\<close> and \<open>remove\<close>, and derives from it what a
  sequence of operations leaves behind. It is interpreted on \<^verbatim>\<open>SLIDING_EXPIRATION_CACHE\<close> and
  on \<^verbatim>\<open>CACHE_MAP\<close> in their theories.

  Every operation takes the clock and the number of the next reading, and returns the number of
  the reading after its last one.
\<close>

type_synonym ('k, 'v) lookup = "'k \<Rightarrow> ('v \<times> int) option"

text \<open>
  Outside of the keys \<open>K\<close>, an operation that ends before reading \<open>n\<close> adds nothing, changes
  nothing and keeps what has not expired by then.
\<close>

definition keeps :: "clock \<Rightarrow> nat \<Rightarrow> 'k set \<Rightarrow> ('k, 'v) lookup \<Rightarrow> ('k, 'v) lookup \<Rightarrow> bool" where
  "keeps c n K m m' \<longleftrightarrow>
     (\<forall>k. k \<notin> K \<longrightarrow> (m' k = m k \<or> m' k = None) \<and> (\<forall>w x. m k = Some (w, x) \<and> c n \<le> x \<longrightarrow> m' k = Some (w, x)))"

lemma keeps_refl [simp]: "keeps c n K m m"
  by (simp add: keeps_def)

lemma keeps_mono: "keeps c n K m m' \<Longrightarrow> K \<subseteq> L \<Longrightarrow> keeps c n L m m'"
  by (auto simp: keeps_def)

lemma keeps_later: "keeps c n K m m' \<Longrightarrow> c n \<le> c n' \<Longrightarrow> keeps c n' K m m'"
  unfolding keeps_def by (meson order_trans)

lemma keeps_trans:
  assumes "keeps c n K m m'" "keeps c n K m' m''"
  shows "keeps c n K m m''"
  unfolding keeps_def
proof (intro allI impI conjI)
  fix k
  assume k: "k \<notin> K"
  show "m'' k = m k \<or> m'' k = None"
    using assms k unfolding keeps_def by metis
  fix w x
  assume "m k = Some (w, x) \<and> c n \<le> x"
  then show "m'' k = Some (w, x)"
    using assms k unfolding keeps_def by metis
qed

lemma keeps_steady:
  assumes "steady c" "n \<le> n'" "keeps c n K m m'" "keeps c n' K m' m''"
  shows "keeps c n' K m m''"
  using keeps_trans [OF keeps_later [OF assms(3)] assms(4)] steadyD [OF assms(1,2)] by blast

lemma keeps_upd: "k \<in> K \<Longrightarrow> keeps c n K m m' \<Longrightarrow> keeps c n K m (m'(k := v))"
  by (auto simp: keeps_def)

lemma keepsD:
  assumes "keeps c n K m m'" "k \<notin> K"
  shows "m' k = Some y \<Longrightarrow> m k = Some y" "m k = Some (w, x) \<Longrightarrow> c n \<le> x \<Longrightarrow> m' k = Some (w, x)"
  using assms unfolding keeps_def by (metis option.distinct(1), blast)

datatype ('k, 'v) cache_op =
    Put 'k 'v int
  | Remove 'k
  | Get 'k int 'v

fun op_key :: "('k, 'v) cache_op \<Rightarrow> 'k" where
  "op_key (Put k v e) = k"
| "op_key (Remove k) = k"
| "op_key (Get k e d) = k"

text \<open>The value last put under a key and not removed since: what a cache that never expires would hold.\<close>

fun last_put :: "('k, 'v) cache_op list \<Rightarrow> 'k \<Rightarrow> 'v option \<Rightarrow> 'v option" where
  "last_put [] k v = v"
| "last_put (Put k' v' e # ops) k v = last_put ops k (if k' = k then Some v' else v)"
| "last_put (Remove k' # ops) k v = last_put ops k (if k' = k then None else v)"
| "last_put (Get k' e d # ops) k v = last_put ops k v"

locale expiring_cache =
  fixes inv :: "'s \<Rightarrow> bool"
    and entry :: "'s \<Rightarrow> ('k, 'v) lookup"
    and put :: "clock \<Rightarrow> nat \<Rightarrow> 'k \<Rightarrow> 'v \<Rightarrow> int \<Rightarrow> 's \<Rightarrow> 's \<times> nat"
    and remove :: "clock \<Rightarrow> nat \<Rightarrow> 'k \<Rightarrow> 's \<Rightarrow> 's \<times> nat"
    and get :: "clock \<Rightarrow> nat \<Rightarrow> 'k \<Rightarrow> int \<Rightarrow> 'v \<Rightarrow> 's \<Rightarrow> 'v \<times> 's \<times> nat"
  assumes put_inv: "inv s \<Longrightarrow> put c n k v e s = (s', n') \<Longrightarrow> inv s' \<and> n \<le> n'"
    and put_keeps: "inv s \<Longrightarrow> steady c \<Longrightarrow> put c n k v e s = (s', n') \<Longrightarrow> keeps c n' {k} (entry s) (entry s')"
    and put_value: "inv s \<Longrightarrow> steady c \<Longrightarrow> put c n k v e s = (s', n') \<Longrightarrow> entry s' k = Some (w, x) \<Longrightarrow> w = v"
    and put_live: "inv s \<Longrightarrow> steady c \<Longrightarrow> put c n k v e s = (s', n') \<Longrightarrow> c n' \<le> c n + e \<Longrightarrow>
      \<exists>x \<ge> c n + e. entry s' k = Some (v, x)"
    and remove_inv: "inv s \<Longrightarrow> remove c n k s = (s', n') \<Longrightarrow> inv s' \<and> n \<le> n'"
    and remove_keeps: "inv s \<Longrightarrow> steady c \<Longrightarrow> remove c n k s = (s', n') \<Longrightarrow> keeps c n' {k} (entry s) (entry s')"
    and remove_gone: "inv s \<Longrightarrow> steady c \<Longrightarrow> remove c n k s = (s', n') \<Longrightarrow> entry s' k = None"
    and get_inv: "inv s \<Longrightarrow> get c n k e d s = (r, s', n') \<Longrightarrow> inv s' \<and> n \<le> n'"
    and get_keeps: "inv s \<Longrightarrow> steady c \<Longrightarrow> get c n k e d s = (r, s', n') \<Longrightarrow> keeps c n' {k} (entry s) (entry s')"
    and get_value: "inv s \<Longrightarrow> steady c \<Longrightarrow> get c n k e d s = (r, s', n') \<Longrightarrow> entry s' k = Some (w, x) \<Longrightarrow>
      \<exists>x'. entry s k = Some (w, x')"
    and get_answer: "inv s \<Longrightarrow> steady c \<Longrightarrow> get c n k e d s = (r, s', n') \<Longrightarrow>
      r = d \<or> (\<exists>x. entry s k = Some (r, x))"
    and get_live: "inv s \<Longrightarrow> steady c \<Longrightarrow> get c n k e d s = (r, s', n') \<Longrightarrow>
      entry s k = Some (v, x) \<Longrightarrow> c n' \<le> x \<Longrightarrow> r = v"
begin

fun cache_step :: "clock \<Rightarrow> ('k, 'v) cache_op \<Rightarrow> 's \<times> nat \<Rightarrow> 's \<times> nat" where
  "cache_step c (Put k v e) (s, n) = put c n k v e s"
| "cache_step c (Remove k) (s, n) = remove c n k s"
| "cache_step c (Get k e d) (s, n) = snd (get c n k e d s)"

lemma step_facts:
  assumes "inv s" "steady c" "cache_step c op (s, n) = (s', n')"
  shows "inv s' \<and> n \<le> n' \<and> keeps c n' {op_key op} (entry s) (entry s')"
proof (cases op)
  case (Put k v e)
  then have "put c n k v e s = (s', n')" using assms(3) by simp
  with Put put_inv [OF assms(1)] put_keeps [OF assms(1,2)] show ?thesis by simp
next
  case (Remove k)
  then have "remove c n k s = (s', n')" using assms(3) by simp
  with Remove remove_inv [OF assms(1)] remove_keeps [OF assms(1,2)] show ?thesis by simp
next
  case (Get k e d)
  then obtain r where "get c n k e d s = (r, s', n')"
    using assms(3) by (cases "get c n k e d s") auto
  with Get get_inv [OF assms(1)] get_keeps [OF assms(1,2)] show ?thesis by auto
qed

lemma run_inv:
  assumes "inv s" "steady c" "fold (cache_step c) ops (s, n) = (s', n')"
  shows "inv s' \<and> n \<le> n'"
  using assms
proof (induction ops arbitrary: s n)
  case (Cons op ops)
  obtain s1 n1 where st: "cache_step c op (s, n) = (s1, n1)" by fastforce
  with Cons step_facts [OF Cons.prems(1,2) st] show ?case by fastforce
qed simp

lemma run_keeps:
  assumes "inv s" "steady c" "fold (cache_step c) ops (s, n) = (s', n')"
  shows "keeps c n' (set (map op_key ops)) (entry s) (entry s')"
  using assms
proof (induction ops arbitrary: s n)
  case (Cons op ops)
  obtain s1 n1 where st: "cache_step c op (s, n) = (s1, n1)" by fastforce
  note f = step_facts [OF Cons.prems(1,2) st]
  have run: "fold (cache_step c) ops (s1, n1) = (s', n')" using Cons.prems(3) st by simp
  let ?K = "set (map op_key (op # ops))"
  have "keeps c n1 ?K (entry s) (entry s1)" by (rule keeps_mono [of c n1 "{op_key op}"]) (use f in auto)
  moreover have "keeps c n' ?K (entry s1) (entry s')"
    by (rule keeps_mono [OF Cons.IH [OF _ Cons.prems(2) run]]) (use f in auto)
  moreover have "n1 \<le> n'" using run_inv [OF _ Cons.prems(2) run] f by blast
  ultimately show ?case using keeps_steady [OF Cons.prems(2)] by blast
qed simp

lemma step_value:
  assumes "inv s" "steady c" "cache_step c op (s, n) = (s', n')"
    and "\<And>w x. entry s k = Some (w, x) \<Longrightarrow> v = Some w"
    and "entry s' k = Some (w, x)"
  shows "last_put [op] k v = Some w"
proof (cases "op_key op = k")
  case False
  then have "entry s k = Some (w, x)"
    using step_facts [OF assms(1-3)] assms(5) keepsD(1) by fastforce
  with assms(4) False show ?thesis by (cases op) auto
next
  case True
  show ?thesis
  proof (cases op)
    case (Put k' v' e)
    with True assms put_value [OF assms(1,2)] show ?thesis by fastforce
  next
    case (Remove k')
    with True assms remove_gone [OF assms(1,2)] show ?thesis by fastforce
  next
    case (Get k' e d)
    then obtain r where "get c n k e d s = (r, s', n')"
      using assms(3) True by (cases "get c n k e d s") auto
    with get_value [OF assms(1,2)] assms(4,5) Get show ?thesis by fastforce
  qed
qed

lemma last_put_Cons: "last_put (op # ops) k v = last_put ops k (last_put [op] k v)"
  by (cases op) auto

lemma run_value:
  assumes "inv s" "steady c" "fold (cache_step c) ops (s, n) = (s', n')"
    and "\<And>w x. entry s k = Some (w, x) \<Longrightarrow> v = Some w"
    and "entry s' k = Some (w, x)"
  shows "last_put ops k v = Some w"
  using assms
proof (induction ops arbitrary: s n v)
  case (Cons op ops)
  obtain s1 n1 where st: "cache_step c op (s, n) = (s1, n1)" by fastforce
  have "fold (cache_step c) ops (s1, n1) = (s', n')" using Cons.prems(3) st by simp
  moreover have "inv s1" using step_facts [OF Cons.prems(1,2) st] by blast
  moreover have "last_put [op] k v = Some w'" if "entry s1 k = Some (w', x')" for w' x'
    using step_value [OF Cons.prems(1,2) st _ that, where v = v] Cons.prems(4) by blast
  ultimately have "last_put ops k (last_put [op] k v) = Some w"
    using Cons.IH [OF _ Cons.prems(2) _ _ Cons.prems(5)] by blast
  then
  show ?case by (subst last_put_Cons) blast
qed simp

text \<open>
  After any sequence of operations on an empty cache, a lookup answers the value last put or the
  default; and the value put is answered as long as its time has not run out and nobody removed
  or replaced it.
\<close>

lemma answers_last_put:
  assumes "inv s" "steady c" "\<And>k. entry s k = None"
    and "fold (cache_step c) ops (s, n) = (s', n')" "get c n' k e d s' = (r, s'', n'')"
  shows "r = d \<or> last_put ops k None = Some r"
proof -
  have "inv s'" using run_inv [OF assms(1,2,4)] by blast
  from get_answer [OF this assms(2,5)] show ?thesis
    using run_value [OF assms(1,2,4), where k = k and v = None] assms(3) by auto
qed

lemma answers_live:
  assumes "inv s" "steady c" "put c n k v e s = (s1, n1)"
    and "fold (cache_step c) ops (s1, n1) = (s2, n2)" "k \<notin> set (map op_key ops)"
    and "get c n2 k e' d s2 = (r, s3, n3)" "c n3 \<le> c n + e"
  shows "r = v"
proof -
  have i1: "inv s1" "n \<le> n1" using put_inv [OF assms(1,3)] by blast+
  have i2: "inv s2" "n1 \<le> n2" using run_inv [OF i1(1) assms(2,4)] by blast+
  have "n2 \<le> n3" using get_inv [OF i2(1) assms(6)] by blast
  then have le: "c n1 \<le> c n + e" "c n2 \<le> c n + e"
    using steadyD [OF assms(2), of n2 n3] steadyD [OF assms(2), of n1 n2] i2 assms(7) by linarith+
  obtain x where x: "c n + e \<le> x" "entry s1 k = Some (v, x)"
    using put_live [OF assms(1-3) le(1)] by blast
  have "entry s2 k = Some (v, x)"
    using keepsD(2) [OF run_keeps [OF i1(1) assms(2,4)] assms(5) x(2)] le(2) x(1) by linarith
  with get_live [OF i2(1) assms(2,6)] assms(7) x(1) show ?thesis by fastforce
qed

end

end
