(* ===== verification/Sliding_Expiration_Cache.thy ===== *)
theory Sliding_Expiration_Cache
  imports Cache_Interface "HOL-Library.Multiset"
begin

text \<open>
  The sliding expiration cache (\<^verbatim>\<open>driver/sliding_expiration_cache.h\<close> and \<^verbatim>\<open>.cc\<close>) and its
  variant with a clean-up thread (\<^verbatim>\<open>driver/sliding_expiration_cache_with_clean_up_thread.cc\<close>).
  The \<^verbatim>\<open>unordered_map\<close> is an association list with distinct keys, whose order stands for the
  order in which the map is traversed. Calls of the disposal function are recorded in
  \<open>disposed\<close>. Times are integers in nanoseconds.
\<close>

section \<open>State and operations\<close>

text \<open>A \<^verbatim>\<open>CACHE_ITEM\<close> is the item and its expiration time.\<close>

type_synonym 'v cache_item = "'v \<times> int"

record ('k, 'v) scache =
  cache :: "('k \<times> 'v cache_item) list"
  clean_up_interval_nanos :: int
  clean_up_time_nanos :: int
  should_dispose_func :: "('v \<Rightarrow> bool) option"
  has_disposal_func :: bool
  disposed :: "'v list"

definition SLIDING_EXPIRATION_CACHE :: "('v \<Rightarrow> bool) option \<Rightarrow> bool \<Rightarrow> int \<Rightarrow> ('k, 'v) scache" where
  "SLIDING_EXPIRATION_CACHE sd disp interval =
     \<lparr>cache = [], clean_up_interval_nanos = interval, clean_up_time_nanos = 0,
      should_dispose_func = sd, has_disposal_func = disp, disposed = []\<rparr>"

definition default_clean_up_interval :: int where
  "default_clean_up_interval = 6000000000"

definition with_extend_expiration :: "clock \<Rightarrow> nat \<Rightarrow> int \<Rightarrow> 'v cache_item \<Rightarrow> 'v cache_item" where
  "with_extend_expiration c n e it = (fst it, c n + e)"

definition should_clean_up :: "clock \<Rightarrow> nat \<Rightarrow> ('v \<Rightarrow> bool) option \<Rightarrow> 'v cache_item \<Rightarrow> bool" where
  "should_clean_up c n sd it \<longleftrightarrow>
     (case sd of Some f \<Rightarrow> c n > snd it \<and> f (fst it) | None \<Rightarrow> c n > snd it)"

definition dispose_and_erase :: "'k \<Rightarrow> 'v cache_item \<Rightarrow> ('k, 'v) scache \<Rightarrow> ('k, 'v) scache" where
  "dispose_and_erase key it s =
     s\<lparr>disposed := (if has_disposal_func s then disposed s @ [fst it] else disposed s),
       cache := AList.delete key (cache s)\<rparr>"

definition remove_and_dispose :: "'k \<Rightarrow> ('k, 'v) scache \<Rightarrow> ('k, 'v) scache" where
  "remove_and_dispose key s =
     (case map_of (cache s) key of Some it \<Rightarrow> dispose_and_erase key it s | None \<Rightarrow> s)"

definition remove_if_expired :: "clock \<Rightarrow> 'k \<Rightarrow> ('k, 'v) scache \<times> nat \<Rightarrow> ('k, 'v) scache \<times> nat" where
  "remove_if_expired c key = (\<lambda>(s, n).
     case map_of (cache s) key of
       Some it \<Rightarrow> (if should_clean_up c n (should_dispose_func s) it then dispose_and_erase key it s else s, n + 1)
     | None \<Rightarrow> (s, n))"

definition clean_up :: "clock \<Rightarrow> nat \<Rightarrow> ('k, 'v) scache \<Rightarrow> ('k, 'v) scache \<times> nat" where
  "clean_up c n s =
     (if clean_up_time_nanos s > c n then (s, n + 1)
      else let s1 = s\<lparr>clean_up_time_nanos := c (n + 1) + clean_up_interval_nanos s\<rparr>
           in fold (remove_if_expired c) (map fst (cache s1)) (s1, n + 2))"

text \<open>
  \<^verbatim>\<open>emplace\<close> leaves an existing entry alone; the item built from the mapping function is the one
  that is extended and returned in either case.
\<close>

definition compute_if_absent ::
  "clock \<Rightarrow> nat \<Rightarrow> 'k \<Rightarrow> ('k \<Rightarrow> 'v) \<Rightarrow> int \<Rightarrow> ('k, 'v) scache \<Rightarrow> 'v \<times> ('k, 'v) scache \<times> nat" where
  "compute_if_absent c n key mapping_function e s =
     (let (s1, n1) = clean_up c n s;
          item = mapping_function key;
          it = with_extend_expiration c (n1 + 1) e (item, c n1 + e)
      in (item,
          (case map_of (cache s1) key of
             Some _ \<Rightarrow> s1 | None \<Rightarrow> s1\<lparr>cache := AList.update key it (cache s1)\<rparr>),
          n1 + 2))"

definition sput :: "clock \<Rightarrow> nat \<Rightarrow> 'k \<Rightarrow> 'v \<Rightarrow> int \<Rightarrow> ('k, 'v) scache \<Rightarrow> ('k, 'v) scache \<times> nat" where
  "sput c n key value e s =
     (let (s1, n1) = clean_up c n s;
          it = with_extend_expiration c (n1 + 1) e (value, c n1 + e)
      in (s1\<lparr>cache := AList.update key it (cache s1)\<rparr>, n1 + 2))"

definition sget :: "clock \<Rightarrow> nat \<Rightarrow> 'k \<Rightarrow> int \<Rightarrow> 'v \<Rightarrow> ('k, 'v) scache \<Rightarrow> 'v \<times> ('k, 'v) scache \<times> nat" where
  "sget c n key e default_value s =
     (let (s1, n1) = clean_up c n s
      in case map_of (cache s1) key of
           Some it \<Rightarrow> (fst it, s1\<lparr>cache := AList.update key (with_extend_expiration c n1 e it) (cache s1)\<rparr>, n1 + 1)
         | None \<Rightarrow> (default_value, s1, n1))"

definition sremove :: "clock \<Rightarrow> nat \<Rightarrow> 'k \<Rightarrow> ('k, 'v) scache \<Rightarrow> ('k, 'v) scache \<times> nat" where
  "sremove c n key s = clean_up c n (remove_and_dispose key s)"

definition sclear :: "('k, 'v) scache \<Rightarrow> ('k, 'v) scache" where
  "sclear s = (fold remove_and_dispose (map fst (cache s)) s)\<lparr>cache := []\<rparr>"

definition get_entries :: "('k, 'v) scache \<Rightarrow> ('k \<times> 'v) list" where
  "get_entries s = map (\<lambda>(k, it). (k, fst it)) (cache s)"

definition ssize :: "('k, 'v) scache \<Rightarrow> nat" where
  "ssize s = length (cache s)"

definition set_clean_up_interval_nanos :: "clock \<Rightarrow> nat \<Rightarrow> int \<Rightarrow> ('k, 'v) scache \<Rightarrow> ('k, 'v) scache \<times> nat" where
  "set_clean_up_interval_nanos c n i s =
     (s\<lparr>clean_up_interval_nanos := i, clean_up_time_nanos := c n + i\<rparr>, n + 1)"

subsection \<open>The clean-up thread\<close>

record ('k, 'v) scache_thread = "('k, 'v) scache" +
  is_initialized :: bool
  should_stop :: bool
  pool_size :: nat

text \<open>One round of the thread's loop, after its sleep; it runs while \<open>should_stop\<close> is false.\<close>

definition clean_up_round ::
  "clock \<Rightarrow> nat \<Rightarrow> ('k, 'v) scache \<Rightarrow> ('k, 'v) scache \<times> nat" where
  "clean_up_round c n s =
     fold (remove_if_expired c) (map fst (cache s))
       (s\<lparr>clean_up_time_nanos := c n + clean_up_interval_nanos s\<rparr>, n + 1)"

definition init_clean_up_thread :: "('k, 'v) scache_thread \<Rightarrow> ('k, 'v) scache_thread" where
  "init_clean_up_thread s =
     (if \<not> is_initialized s then s\<lparr>pool_size := pool_size s + 1, is_initialized := True\<rparr> else s)"

definition thread_cache_empty :: "('k, 'v) scache_thread \<Rightarrow> bool" where
  "thread_cache_empty s \<longleftrightarrow> cache s = []"

definition release_resources :: "('k, 'v) scache_thread \<Rightarrow> ('k, 'v) scache_thread" where
  "release_resources s =
     (let base = sclear (scache.truncate s)
      in s\<lparr>cache := cache base, disposed := disposed base, should_stop := True,
           pool_size := 0, is_initialized := False\<rparr>)"

section \<open>Cleaning up\<close>

definition scache_ok :: "('k, 'v) scache \<Rightarrow> bool" where
  "scache_ok s \<longleftrightarrow> distinct (map fst (cache s))"

abbreviation sentry :: "('k, 'v) scache \<Rightarrow> ('k, 'v) lookup" where
  "sentry s \<equiv> map_of (cache s)"

text \<open>Everything the cache holds or has handed to the disposal function.\<close>

definition owned :: "('k, 'v) scache \<Rightarrow> 'v multiset" where
  "owned s = mset (map (fst \<circ> snd) (cache s)) + mset (disposed s)"

lemma erase_fields [simp]:
  "cache (dispose_and_erase k it s) = AList.delete k (cache s)"
  "has_disposal_func (dispose_and_erase k it s) = has_disposal_func s"
  "should_dispose_func (dispose_and_erase k it s) = should_dispose_func s"
  "clean_up_interval_nanos (dispose_and_erase k it s) = clean_up_interval_nanos s"
  "clean_up_time_nanos (dispose_and_erase k it s) = clean_up_time_nanos s"
  by (simp_all add: dispose_and_erase_def)

lemma erase_ok: "scache_ok s \<Longrightarrow> scache_ok (dispose_and_erase k it s)"
  by (simp add: scache_ok_def AList.distinct_delete)

lemma mset_delete:
  assumes "distinct (map fst al)" "map_of al k = Some it"
  shows "mset (map (fst \<circ> snd) al) = add_mset (fst it) (mset (map (fst \<circ> snd) (AList.delete k al)))"
  using assms
proof (induction al)
  case (Cons a al)
  show ?case
  proof (cases "fst a = k")
    case True
    then have "AList.delete k al = al" using Cons.prems(1)
      by (simp add: delete_id)
    with True Cons.prems(2) show ?thesis by (cases a) auto
  qed (use Cons in \<open>cases a; auto\<close>)
qed simp

lemma erase_owned:
  assumes "scache_ok s" "sentry s k = Some it" "has_disposal_func s"
  shows "owned (dispose_and_erase k it s) = owned s"
  using mset_delete [OF assms(1) [unfolded scache_ok_def] assms(2)] assms(3)
  by (simp add: owned_def dispose_and_erase_def)

lemma expired_step:
  assumes "remove_if_expired c k (s, n) = (s', n')"
  shows "(scache_ok s \<longrightarrow> scache_ok s') \<and> n \<le> n' \<and> has_disposal_func s' = has_disposal_func s \<and>
    (scache_ok s \<and> has_disposal_func s \<longrightarrow> owned s' = owned s) \<and>
    (scache_ok s \<and> steady c \<longrightarrow> keeps c n' {} (sentry s) (sentry s'))"
proof (cases "sentry s k")
  case (Some it)
  show ?thesis
  proof (cases "should_clean_up c n (should_dispose_func s) it")
    case True
    with assms Some have eq: "s' = dispose_and_erase k it s" "n' = n + 1"
      by (auto simp: remove_if_expired_def)
    have "keeps c n' {} (sentry s) (sentry s')" if "steady c"
    proof -
      have "snd it < c n" using True by (simp add: should_clean_up_def split: option.splits)
      moreover have "c n \<le> c n'" using that eq(2) by (simp add: steadyD)
      ultimately show ?thesis using Some
        by (auto simp: keeps_def eq(1) AList.delete_conv)
    qed
    with erase_owned [OF _ Some] erase_ok [of s k it] eq show ?thesis by auto
  qed (use assms Some in \<open>auto simp: remove_if_expired_def\<close>)
qed (use assms in \<open>auto simp: remove_if_expired_def\<close>)

lemma sweep:
  assumes "fold (remove_if_expired c) keys (s, n) = (s', n')" "scache_ok s"
  shows "scache_ok s' \<and> n \<le> n' \<and> has_disposal_func s' = has_disposal_func s \<and>
    (has_disposal_func s \<longrightarrow> owned s' = owned s) \<and>
    (steady c \<longrightarrow> keeps c n' {} (sentry s) (sentry s'))"
  using assms
proof (induction keys arbitrary: s n)
  case (Cons k keys)
  obtain s1 n1 where st: "remove_if_expired c k (s, n) = (s1, n1)" by fastforce
  note e = expired_step [OF st]
  have run: "fold (remove_if_expired c) keys (s1, n1) = (s', n')" using Cons.prems(1) st by simp
  note ih = Cons.IH [OF run]
  have "keeps c n' {} (sentry s) (sentry s')" if "steady c"
    using keeps_steady [OF that] e ih that Cons.prems(2) by blast
  with e ih Cons.prems(2) show ?case by auto
qed simp

lemma clean_up_facts:
  assumes "clean_up c n s = (s', n')" "scache_ok s"
  shows "scache_ok s'" "n \<le> n'" "has_disposal_func s \<longrightarrow> owned s' = owned s"
    "has_disposal_func s' = has_disposal_func s"
    "steady c \<longrightarrow> keeps c n' {} (sentry s) (sentry s')"
proof -
  have "scache_ok s' \<and> n \<le> n' \<and> (has_disposal_func s \<longrightarrow> owned s' = owned s) \<and>
    has_disposal_func s' = has_disposal_func s \<and> (steady c \<longrightarrow> keeps c n' {} (sentry s) (sentry s'))"
  proof (cases "clean_up_time_nanos s > c n")
    case False
    let ?s1 = "s\<lparr>clean_up_time_nanos := c (n + 1) + clean_up_interval_nanos s\<rparr>"
    have "fold (remove_if_expired c) (map fst (cache ?s1)) (?s1, n + 2) = (s', n')"
      using assms(1) False by (simp add: clean_up_def Let_def)
    from sweep [OF this] assms(2) show ?thesis by (auto simp: scache_ok_def owned_def)
  qed (use assms in \<open>auto simp: clean_up_def\<close>)
  then show "scache_ok s'" "n \<le> n'" "has_disposal_func s \<longrightarrow> owned s' = owned s"
    "has_disposal_func s' = has_disposal_func s"
    "steady c \<longrightarrow> keeps c n' {} (sentry s) (sentry s')" by blast+
qed

section \<open>The contract of the cache\<close>

lemma update_ok: "scache_ok s \<Longrightarrow> scache_ok (s\<lparr>cache := AList.update k v (cache s)\<rparr>)"
  by (simp add: scache_ok_def AList.distinct_update)

lemma sput_facts:
  assumes "sput c n k v e s = (s', n')" "scache_ok s"
  shows "scache_ok s' \<and> n \<le> n' \<and>
    (steady c \<longrightarrow> keeps c n' {k} (sentry s) (sentry s')) \<and>
    (\<exists>x. sentry s' k = Some (v, x) \<and> (steady c \<longrightarrow> c n + e \<le> x))"
proof -
  obtain s1 n1 where cu: "clean_up c n s = (s1, n1)" by fastforce
  have eq: "s' = s1\<lparr>cache := AList.update k (v, c (n1 + 1) + e) (cache s1)\<rparr>" "n' = n1 + 2"
    using assms(1) cu by (simp_all add: sput_def with_extend_expiration_def)
  note f = clean_up_facts [OF cu assms(2)]
  have "keeps c n' {k} (sentry s) (sentry s')" if "steady c"
  proof -
    have "keeps c n1 {k} (sentry s) (sentry s1)" using f(5) that keeps_mono by blast
    then have "keeps c n' {k} (sentry s) (sentry s1)"
      by (rule keeps_later) (use that eq(2) in \<open>simp add: steadyD\<close>)
    then show ?thesis unfolding eq by (simp add: AList.update_conv' keeps_upd)
  qed
  moreover have "c n + e \<le> c (n1 + 1) + e" if "steady c" using f(2) steadyD [OF that, of n "n1 + 1"] by simp
  ultimately show ?thesis using f update_ok [OF f(1)] eq by (auto simp: AList.update_conv')
qed

lemma sget_facts:
  assumes "sget c n k e d s = (r, s', n')" "scache_ok s"
  shows "scache_ok s'" "n \<le> n'"
    "steady c \<longrightarrow> keeps c n' {k} (sentry s) (sentry s')"
    "steady c \<longrightarrow> sentry s' k = Some (w, x) \<longrightarrow> (\<exists>x'. sentry s k = Some (w, x'))"
    "steady c \<longrightarrow> r = d \<or> (\<exists>x. sentry s k = Some (r, x))"
    "steady c \<longrightarrow> sentry s k = Some (v, y) \<longrightarrow> c n' \<le> y \<longrightarrow> r = v"
    "has_disposal_func s \<longrightarrow> owned s' = owned s"
proof -
  obtain s1 n1 where cu: "clean_up c n s = (s1, n1)" by fastforce
  note f = clean_up_facts [OF cu assms(2)]
  have kept: "keeps c n1 {} (sentry s) (sentry s1)" if "steady c" using f(5) that by blast
  have "scache_ok s' \<and> n \<le> n' \<and>
    (steady c \<longrightarrow> keeps c n' {k} (sentry s) (sentry s')) \<and>
    (steady c \<longrightarrow> sentry s' k = Some (w, x) \<longrightarrow> (\<exists>x'. sentry s k = Some (w, x'))) \<and>
    (steady c \<longrightarrow> r = d \<or> (\<exists>x. sentry s k = Some (r, x))) \<and>
    (steady c \<longrightarrow> sentry s k = Some (v, y) \<longrightarrow> c n' \<le> y \<longrightarrow> r = v) \<and>
    (has_disposal_func s \<longrightarrow> owned s' = owned s)"
  proof (cases "sentry s1 k")
    case None
    then have eq: "r = d" "s' = s1" "n' = n1" using assms(1) cu by (simp_all add: sget_def)
    have "keeps c n1 {k} (sentry s) (sentry s1)" if "steady c"
      by (rule keeps_mono [OF kept [OF that]]) simp
    moreover have "\<not> (sentry s k = Some (v, y) \<and> c n1 \<le> y)" if "steady c"
      using keepsD(2) [OF kept [OF that], of k v y] None by auto
    ultimately show ?thesis using f eq None by auto
  next
    case (Some it)
    then have eq: "r = fst it" "s' = s1\<lparr>cache := AList.update k (fst it, c n1 + e) (cache s1)\<rparr>" "n' = n1 + 1"
      using assms(1) cu by (auto simp: sget_def with_extend_expiration_def)
    have same: "owned s' = owned s1"
    proof -
      have "distinct (map fst (AList.update k (fst it, c n1 + e) (cache s1)))"
        using f(1) by (simp add: scache_ok_def AList.distinct_update)
      then have "mset (map (fst \<circ> snd) (AList.update k (fst it, c n1 + e) (cache s1))) =
          add_mset (fst it) (mset (map (fst \<circ> snd) (AList.delete k (cache s1))))"
        using mset_delete [of "AList.update k (fst it, c n1 + e) (cache s1)" k "(fst it, c n1 + e)"]
        by (simp add: AList.update_conv' AList.delete_update_same)
      then show ?thesis
        using mset_delete [OF f(1) [unfolded scache_ok_def] Some] by (simp add: owned_def eq(2))
    qed
    have was: "\<exists>x. sentry s k = Some (fst it, x)" if "steady c"
      using keepsD(1) [OF kept [OF that], of k it] Some by (cases it) auto
    have "keeps c n' {k} (sentry s) (sentry s')" if "steady c"
    proof -
      have "keeps c n1 {k} (sentry s) (sentry s1)" using kept [OF that] keeps_mono by blast
      then have "keeps c n' {k} (sentry s) (sentry s1)"
        by (rule keeps_later) (use that eq(3) in \<open>simp add: steadyD\<close>)
      then show ?thesis unfolding eq by (simp add: AList.update_conv' keeps_upd)
    qed
    with f same was update_ok [OF f(1)] eq show ?thesis by (auto simp: AList.update_conv')
  qed
  then show "scache_ok s'" "n \<le> n'"
    "steady c \<longrightarrow> keeps c n' {k} (sentry s) (sentry s')"
    "steady c \<longrightarrow> sentry s' k = Some (w, x) \<longrightarrow> (\<exists>x'. sentry s k = Some (w, x'))"
    "steady c \<longrightarrow> r = d \<or> (\<exists>x. sentry s k = Some (r, x))"
    "steady c \<longrightarrow> sentry s k = Some (v, y) \<longrightarrow> c n' \<le> y \<longrightarrow> r = v"
    "has_disposal_func s \<longrightarrow> owned s' = owned s" by blast+
qed

lemma remove_and_dispose_facts:
  assumes "scache_ok s"
  shows "scache_ok (remove_and_dispose k s)" "sentry (remove_and_dispose k s) = (sentry s)(k := None)"
    "has_disposal_func s \<Longrightarrow> owned (remove_and_dispose k s) = owned s"
    "has_disposal_func (remove_and_dispose k s) = has_disposal_func s"
  using assms erase_ok erase_owned
  by (auto simp: remove_and_dispose_def AList.delete_conv' fun_upd_idem split: option.split)

lemma sremove_facts:
  assumes "sremove c n k s = (s', n')" "scache_ok s"
  shows "scache_ok s' \<and> n \<le> n' \<and> (steady c \<longrightarrow> keeps c n' {k} (sentry s) (sentry s') \<and> sentry s' k = None) \<and>
    (has_disposal_func s \<longrightarrow> owned s' = owned s)"
proof -
  note g = remove_and_dispose_facts [OF assms(2), of k]
  note f = clean_up_facts [OF assms(1) [unfolded sremove_def] g(1)]
  have "keeps c n' {k} (sentry s) (sentry s') \<and> sentry s' k = None" if "steady c"
  proof -
    have "keeps c n' {} ((sentry s)(k := None)) (sentry s')" using f(5) that g(2) by simp
    then have "keeps c n' {k} ((sentry s)(k := None)) (sentry s')"
      by (rule keeps_mono) simp
    moreover have "sentry s' k = None"
      using keepsD(1) [OF \<open>keeps c n' {} _ _\<close>, of k] by (cases "sentry s' k") auto
    moreover have "keeps c n' {k} (sentry s) ((sentry s)(k := None))" by (simp add: keeps_upd)
    ultimately show ?thesis using keeps_trans by blast
  qed
  with f g show ?thesis by auto
qed

interpretation sliding: expiring_cache scache_ok sentry sput sremove sget
proof unfold_locales
  fix s s' :: "('k, 'v) scache" and c n k v e n' w x
  assume ok: "scache_ok s" and p: "sput c n k v e s = (s', n')"
  show "scache_ok s' \<and> n \<le> n'" using sput_facts [OF p ok] by blast
  assume st: "steady c"
  show "keeps c n' {k} (sentry s) (sentry s')" using sput_facts [OF p ok] st by blast
  show "sentry s' k = Some (w, x) \<Longrightarrow> w = v" using sput_facts [OF p ok] by auto
  show "c n' \<le> c n + e \<Longrightarrow> \<exists>x \<ge> c n + e. sentry s' k = Some (v, x)" using sput_facts [OF p ok] st by auto
next
  fix s s' :: "('k, 'v) scache" and c n k n'
  assume ok: "scache_ok s" and p: "sremove c n k s = (s', n')"
  show "scache_ok s' \<and> n \<le> n'" using sremove_facts [OF p ok] by blast
  assume st: "steady c"
  show "keeps c n' {k} (sentry s) (sentry s')" "sentry s' k = None" using sremove_facts [OF p ok] st by blast+
next
  fix s s' :: "('k, 'v) scache" and c n k e d r n' w x v
  assume ok: "scache_ok s" and p: "sget c n k e d s = (r, s', n')"
  show "scache_ok s' \<and> n \<le> n'" using sget_facts(1,2) [OF p ok] by blast
  assume st: "steady c"
  show "keeps c n' {k} (sentry s) (sentry s')" using sget_facts(3) [OF p ok] st by blast
  show "sentry s' k = Some (w, x) \<Longrightarrow> \<exists>x'. sentry s k = Some (w, x')"
    using sget_facts(4) [OF p ok] st by blast
  show "r = d \<or> (\<exists>x. sentry s k = Some (r, x))" using sget_facts(5) [OF p ok] st by blast
  show "sentry s k = Some (v, x) \<Longrightarrow> c n' \<le> x \<Longrightarrow> r = v" using sget_facts(6) [OF p ok] st by blast
qed

lemma new_cache_ok [simp]: "scache_ok (SLIDING_EXPIRATION_CACHE sd disp i)"
  "sentry (SLIDING_EXPIRATION_CACHE sd disp i) k = None"
  by (simp_all add: scache_ok_def SLIDING_EXPIRATION_CACHE_def)

lemma last_put_append: "last_put (ops @ ops') k v = last_put ops' k (last_put ops k v)"
  by (induction ops k v rule: last_put.induct) auto

lemma last_put_other: "k \<notin> set (map op_key ops) \<Longrightarrow> last_put ops k v = v"
  by (induction ops k v rule: last_put.induct) auto



section \<open>Disposal\<close>

lemma fold_remove_facts:
  assumes "scache_ok s"
  shows "scache_ok (fold remove_and_dispose ks s)"
    "sentry (fold remove_and_dispose ks s) = (sentry s) |` (- set ks)"
    "has_disposal_func s \<Longrightarrow> owned (fold remove_and_dispose ks s) = owned s"
proof -
  have "scache_ok (fold remove_and_dispose ks s) \<and>
    sentry (fold remove_and_dispose ks s) = (sentry s) |` (- set ks) \<and>
    (has_disposal_func s \<longrightarrow> owned (fold remove_and_dispose ks s) = owned s)"
    using assms
  proof (induction ks arbitrary: s)
    case (Cons k ks)
    from Cons.IH [OF remove_and_dispose_facts(1) [OF Cons.prems]] remove_and_dispose_facts [OF Cons.prems]
    show ?case by (auto simp: restrict_map_def)
  qed (simp add: restrict_map_def)
  then show "scache_ok (fold remove_and_dispose ks s)"
    "sentry (fold remove_and_dispose ks s) = (sentry s) |` (- set ks)"
    "has_disposal_func s \<Longrightarrow> owned (fold remove_and_dispose ks s) = owned s" by auto
qed

lemma sclear_facts:
  assumes "scache_ok s"
  shows "cache (sclear s) = []" "has_disposal_func s \<Longrightarrow> owned (sclear s) = owned s"
proof -
  let ?t = "fold remove_and_dispose (map fst (cache s)) s"
  have "sentry ?t = Map.empty"
    unfolding fold_remove_facts(2) [OF assms]
    by (rule ext) (metis (no_types, lifting) ComplD map_of_eq_None_iff restrict_map_def set_map)
  then have "cache ?t = []" by simp
  then have "sclear s = ?t" by (simp add: sclear_def)
  with fold_remove_facts(3) [OF assms] \<open>cache ?t = []\<close>
  show "cache (sclear s) = []" "has_disposal_func s \<Longrightarrow> owned (sclear s) = owned s" by auto
qed



section \<open>Two surprises\<close>

text \<open>
  \<open>compute_if_absent\<close> calls the mapping function and answers its result also when the key is
  present, and does not extend the entry that is there.
\<close>

lemma compute_if_absent_ignores_entry:
  assumes "clean_up c n s = (s1, n1)" "sentry s1 key = Some it"
  shows "compute_if_absent c n key f e s = (f key, s1, n1 + 2)"
  using assms by (simp add: compute_if_absent_def Let_def)

text \<open>
  \<open>release_resources\<close> leaves \<open>should_stop\<close> set, and nothing resets it: a clean-up thread started
  afterwards ends before its first round.
\<close>

lemma restarted_thread_stops:
  "should_stop (init_clean_up_thread (release_resources s))"
  "pool_size (init_clean_up_thread (release_resources s)) = 1"
  by (simp_all add: init_clean_up_thread_def release_resources_def Let_def)

lemma release_resources_clears: "scache_ok (scache.truncate s) \<Longrightarrow> thread_cache_empty (release_resources s)"
  using sclear_facts(1) [of "scache.truncate s"]
  by (simp add: release_resources_def thread_cache_empty_def Let_def)

end
