(* ===== verification/Cache_Map.thy ===== *)
theory Cache_Map
  imports Cache_Interface
begin

text \<open>
  The cache with fixed expiration times (\<^verbatim>\<open>driver/cache_map.h\<close>, \<^verbatim>\<open>driver/cache_map.cc\<close>),
  which holds the custom endpoint information. An entry is a value and its expiration time; the
  order of the association list stands for the traversal order of the \<^verbatim>\<open>unordered_map\<close>.
\<close>

record ('k, 'v) cache_map =
  m_cache :: "('k \<times> 'v \<times> int) list"
  m_clean_up_time_nanos :: int

definition CACHE_MAP :: "('k, 'v) cache_map" where
  "CACHE_MAP = \<lparr>m_cache = [], m_clean_up_time_nanos = 0\<rparr>"

definition clean_up_time_interval_nanos :: int where
  "clean_up_time_interval_nanos = 60000000000"

definition is_expired :: "clock \<Rightarrow> nat \<Rightarrow> 'v \<times> int \<Rightarrow> bool" where
  "is_expired c n it \<longleftrightarrow> c n > snd it"

definition erase_if_expired :: "clock \<Rightarrow> 'k \<Rightarrow> ('k \<times> 'v \<times> int) list \<times> nat \<Rightarrow> ('k \<times> 'v \<times> int) list \<times> nat" where
  "erase_if_expired c key = (\<lambda>(al, n).
     case map_of al key of
       Some it \<Rightarrow> (if is_expired c n it then AList.delete key al else al, n + 1)
     | None \<Rightarrow> (al, n))"

definition mclean_up :: "clock \<Rightarrow> nat \<Rightarrow> ('k, 'v) cache_map \<Rightarrow> ('k, 'v) cache_map \<times> nat" where
  "mclean_up c n s =
     (if c n > m_clean_up_time_nanos s
      then let (al, n') = fold (erase_if_expired c) (map fst (m_cache s)) (m_cache s, n + 2)
           in (s\<lparr>m_clean_up_time_nanos := c (n + 1) + clean_up_time_interval_nanos, m_cache := al\<rparr>, n')
      else (s, n + 1))"

definition mput :: "clock \<Rightarrow> nat \<Rightarrow> 'k \<Rightarrow> 'v \<Rightarrow> int \<Rightarrow> ('k, 'v) cache_map \<Rightarrow> ('k, 'v) cache_map \<times> nat" where
  "mput c n key value e s =
     mclean_up c (n + 1) (s\<lparr>m_cache := AList.update key (value, c n + e) (m_cache s)\<rparr>)"

definition mget :: "clock \<Rightarrow> nat \<Rightarrow> 'k \<Rightarrow> 'v \<Rightarrow> ('k, 'v) cache_map \<Rightarrow> 'v \<times> nat" where
  "mget c n key default_value s =
     (case map_of (m_cache s) key of
        Some it \<Rightarrow> (if \<not> is_expired c n it then fst it else default_value, n + 1)
      | None \<Rightarrow> (default_value, n))"

text \<open>
  The lookup that stores the default when the key is missing or expired. The entry read at the
  end was just stored, but the clean-up inside \<open>put\<close> may have erased it again when the interval
  is not positive; \<^verbatim>\<open>cache[key]\<close> then inserts a null pointer, which is dereferenced.
\<close>

definition mget_or_put ::
  "clock \<Rightarrow> nat \<Rightarrow> 'k \<Rightarrow> 'v \<Rightarrow> int \<Rightarrow> ('k, 'v) cache_map \<Rightarrow> 'v res \<times> ('k, 'v) cache_map \<times> nat" where
  "mget_or_put c n key default_value e s =
     (let (s1, n1) =
        (case map_of (m_cache s) key of
           None \<Rightarrow> mput c n key default_value e s
         | Some it \<Rightarrow> if is_expired c n it then mput c (n + 1) key default_value e s else (s, n + 1))
      in case map_of (m_cache s1) key of
           Some it \<Rightarrow> (Inr (fst it), s1, n1)
         | None \<Rightarrow> (Inl Null_deref, s1, n1))"

definition mremove :: "clock \<Rightarrow> nat \<Rightarrow> 'k \<Rightarrow> ('k, 'v) cache_map \<Rightarrow> ('k, 'v) cache_map \<times> nat" where
  "mremove c n key s =
     mclean_up c n (if map_of (m_cache s) key \<noteq> None then s\<lparr>m_cache := AList.delete key (m_cache s)\<rparr> else s)"

definition msize :: "('k, 'v) cache_map \<Rightarrow> nat" where
  "msize s = length (m_cache s)"

definition mclear :: "('k, 'v) cache_map \<Rightarrow> ('k, 'v) cache_map" where
  "mclear s = s\<lparr>m_cache := []\<rparr>"

section \<open>The contract of the cache\<close>

definition cache_map_ok :: "('k, 'v) cache_map \<Rightarrow> bool" where
  "cache_map_ok s \<longleftrightarrow> distinct (map fst (m_cache s))"

abbreviation mentry :: "('k, 'v) cache_map \<Rightarrow> ('k, 'v) lookup" where
  "mentry s \<equiv> map_of (m_cache s)"

lemma erase_step:
  assumes "erase_if_expired c k (al, n) = (al', n')"
  shows "(distinct (map fst al) \<longrightarrow> distinct (map fst al')) \<and> n \<le> n' \<and>
    (steady c \<longrightarrow> keeps c n' {} (map_of al) (map_of al'))"
proof (cases "map_of al k")
  case (Some it)
  have "keeps c (n + 1) {} (map_of al) (map_of (AList.delete k al))" if "steady c" "is_expired c n it"
    using Some that steadyD [OF that(1), of n "n + 1"]
    by (auto simp: keeps_def is_expired_def AList.delete_conv)
  with assms Some show ?thesis
    by (auto simp: erase_if_expired_def AList.distinct_delete split: if_splits)
qed (use assms in \<open>auto simp: erase_if_expired_def\<close>)

lemma erase_all:
  assumes "fold (erase_if_expired c) ks (al, n) = (al', n')"
  shows "(distinct (map fst al) \<longrightarrow> distinct (map fst al')) \<and> n \<le> n' \<and>
    (steady c \<longrightarrow> keeps c n' {} (map_of al) (map_of al'))"
  using assms
proof (induction ks arbitrary: al n)
  case (Cons k ks)
  obtain al1 n1 where st: "erase_if_expired c k (al, n) = (al1, n1)" by fastforce
  have run: "fold (erase_if_expired c) ks (al1, n1) = (al', n')" using Cons.prems st by simp
  note e = erase_step [OF st] and ih = Cons.IH [OF run]
  have "keeps c n' {} (map_of al) (map_of al')" if "steady c"
    using keeps_steady [OF that] e ih that by blast
  with e ih show ?case by auto
qed simp

lemma mclean_up_facts:
  assumes "mclean_up c n s = (s', n')" "cache_map_ok s"
  shows "cache_map_ok s'" "n \<le> n'" "steady c \<Longrightarrow> keeps c n' {} (mentry s) (mentry s')"
proof -
  have "cache_map_ok s' \<and> n \<le> n' \<and> (steady c \<longrightarrow> keeps c n' {} (mentry s) (mentry s'))"
  proof (cases "c n > m_clean_up_time_nanos s")
    case True
    obtain al m where f: "fold (erase_if_expired c) (map fst (m_cache s)) (m_cache s, n + 2) = (al, m)"
      by fastforce
    with assms(1) True have "m_cache s' = al" "n' = m" by (auto simp: mclean_up_def)
    with erase_all [OF f] assms(2) show ?thesis by (auto simp: cache_map_ok_def)
  qed (use assms in \<open>auto simp: mclean_up_def\<close>)
  then show "cache_map_ok s'" "n \<le> n'" "steady c \<Longrightarrow> keeps c n' {} (mentry s) (mentry s')" by blast+
qed

lemma mput_facts:
  assumes "mput c n k v e s = (s', n')" "cache_map_ok s"
  shows "cache_map_ok s'" "n < n'"
    "steady c \<Longrightarrow> keeps c n' {} ((mentry s)(k \<mapsto> (v, c n + e))) (mentry s')"
proof -
  let ?s = "s\<lparr>m_cache := AList.update k (v, c n + e) (m_cache s)\<rparr>"
  have ok: "cache_map_ok ?s" using assms(2) by (simp add: cache_map_ok_def AList.distinct_update)
  note f = mclean_up_facts [OF assms(1) [unfolded mput_def] ok]
  show "cache_map_ok s'" "n < n'" using f by auto
  show "steady c \<Longrightarrow> keeps c n' {} ((mentry s)(k \<mapsto> (v, c n + e))) (mentry s')"
    using f(3) by (simp add: AList.update_conv')
qed

lemma mput_live:
  assumes "mput c n k v e s = (s', n')" "cache_map_ok s" "steady c" "c n' \<le> c n + e"
  shows "mentry s' k = Some (v, c n + e)"
  using keepsD(2) [OF mput_facts(3) [OF assms(1-3)], of k v "c n + e"] assms(4) by simp

lemma mremove_facts:
  assumes "mremove c n k s = (s', n')" "cache_map_ok s"
  shows "cache_map_ok s'" "n \<le> n'" "steady c \<Longrightarrow> keeps c n' {} ((mentry s)(k := None)) (mentry s')"
proof -
  let ?s = "if mentry s k \<noteq> None then s\<lparr>m_cache := AList.delete k (m_cache s)\<rparr> else s"
  have ok: "cache_map_ok ?s" using assms(2) by (simp add: cache_map_ok_def AList.distinct_delete)
  have m: "mentry ?s = (mentry s)(k := None)" by (cases "mentry s k") (simp_all add: AList.delete_conv' fun_upd_idem)
  note f = mclean_up_facts [OF assms(1) [unfolded mremove_def] ok]
  show "cache_map_ok s'" "n \<le> n'" using f by auto
  show "steady c \<Longrightarrow> keeps c n' {} ((mentry s)(k := None)) (mentry s')" using f(3) m by simp
qed

lemma keeps_only:
  assumes "keeps c n {} (m(k := v)) m'"
  shows "keeps c n {k} m m'"
proof -
  have "keeps c n {k} m (m(k := v))" by (simp add: keeps_upd)
  moreover have "keeps c n {k} (m(k := v)) m'" by (rule keeps_mono [OF assms]) simp
  ultimately show ?thesis by (rule keeps_trans)
qed

text \<open>The lookup of the interface: \<open>get(key, default)\<close>, which changes nothing.\<close>

definition mget_op ::
  "clock \<Rightarrow> nat \<Rightarrow> 'k \<Rightarrow> int \<Rightarrow> 'v \<Rightarrow> ('k, 'v) cache_map \<Rightarrow> 'v \<times> ('k, 'v) cache_map \<times> nat" where
  "mget_op c n k e d s = (case mget c n k d s of (r, n') \<Rightarrow> (r, s, n'))"

interpretation cmap: expiring_cache cache_map_ok mentry mput mremove mget_op
proof unfold_locales
  fix s s' :: "('k, 'v) cache_map" and c n k v e n' w x
  assume ok: "cache_map_ok s" and p: "mput c n k v e s = (s', n')"
  note f = mput_facts [OF p ok]
  show "cache_map_ok s' \<and> n \<le> n'" using f by simp
  assume st: "steady c"
  show "keeps c n' {k} (mentry s) (mentry s')" using keeps_only [OF f(3) [OF st]] .
  show "mentry s' k = Some (w, x) \<Longrightarrow> w = v" using keepsD(1) [OF f(3) [OF st], of k] by auto
  show "c n' \<le> c n + e \<Longrightarrow> \<exists>x \<ge> c n + e. mentry s' k = Some (v, x)" using mput_live [OF p ok st] by auto
next
  fix s s' :: "('k, 'v) cache_map" and c n k n'
  assume ok: "cache_map_ok s" and p: "mremove c n k s = (s', n')"
  note f = mremove_facts [OF p ok]
  show "cache_map_ok s' \<and> n \<le> n'" using f by simp
  assume st: "steady c"
  show "keeps c n' {k} (mentry s) (mentry s')" using keeps_only [OF f(3) [OF st]] .
  show "mentry s' k = None" using keepsD(1) [OF f(3) [OF st], of k] by (cases "mentry s' k") auto
next
  fix s s' :: "('k, 'v) cache_map" and c n k e d r n' v x
  assume st: "steady c" and g: "mget_op c n k e d s = (r, s', n')" and "mentry s k = Some (v, x)" "c n' \<le> x"
  then show "r = v"
    using steadyD [OF st, of n "n + 1"] by (auto simp: mget_op_def mget_def is_expired_def split: if_splits)
qed (auto simp: mget_op_def mget_def split: option.splits if_splits)

lemma new_map_ok [simp]: "cache_map_ok CACHE_MAP" "mentry CACHE_MAP k = None"
  by (simp_all add: cache_map_ok_def CACHE_MAP_def)

text \<open>
  C9. A lookup in the map cache, after any operations, answers the value last put under its key
  (and not removed since) or the default; it answers the value put by an operation that nothing
  on the same key follows if it ends before that entry's expiration time, and the default when
  the entry's time is over, whether or not a clean-up has run.
\<close>

theorem cache_map_answers:
  assumes "steady c"
    and "fold (cmap.cache_step c) ops (CACHE_MAP, n0) = (s, n)"
    and "mput c n k v e s = (s1, n1)"
    and "fold (cmap.cache_step c) ops' (s1, n1) = (s2, n2)" "k \<notin> set (map op_key ops')"
    and "mget c n2 k d s2 = (r, n3)"
  shows "(c n3 \<le> c n + e \<longrightarrow> r = v) \<and> (c n + e < c n2 \<longrightarrow> r = d) \<and> (r = v \<or> r = d)"
proof -
  have ok: "cache_map_ok s" using cmap.run_inv [OF new_map_ok(1) assms(1,2)] by blast
  have g: "mget_op c n2 k e d s2 = (r, s2, n3)" using assms(6) by (simp add: mget_op_def)
  have ok1: "cache_map_ok s1" using mput_facts(1) [OF assms(3) ok] .
  have "mentry s2 k = None \<or> mentry s2 k = Some (v, c n + e)"
  proof (cases "mentry s2 k")
    case (Some y)
    from keepsD(1) [OF cmap.run_keeps [OF ok1 assms(1,4)] assms(5) this]
    have "mentry s1 k = Some y" .
    with keepsD(1) [OF mput_facts(3) [OF assms(3) ok assms(1)], of k y] Some show ?thesis by simp
  qed simp
  then have "(c n + e < c n2 \<longrightarrow> r = d) \<and> (r = v \<or> r = d)"
    using assms(6) by (auto simp: mget_def is_expired_def split: if_splits)
  with cmap.answers_live [OF ok assms(1,3,4,5) g] show ?thesis by blast
qed

theorem cache_map_answers_witness:
  "\<exists>s1 n1 s2 n2 n3. mput (\<lambda>n. int n) 0 ''k'' (7 :: int) 100 CACHE_MAP = (s1, n1) \<and>
     mput (\<lambda>n. int n) n1 ''j'' 8 1 s1 = (s2, n2) \<and> mget (\<lambda>n. int n) n2 ''k'' 0 s2 = (7, n3)"
proof -
  let ?c = "\<lambda>n. int n"
  obtain s1 n1 where p: "mput ?c 0 ''k'' (7 :: int) 100 CACHE_MAP = (s1, n1)" by fastforce
  obtain s2 n2 where q: "mput ?c n1 ''j'' 8 1 s1 = (s2, n2)" by fastforce
  obtain r n3 where g: "mget ?c n2 ''k'' 0 s2 = (r, n3)" by fastforce
  have st: "steady ?c" by (simp add: steady_def)
  have n3: "?c n3 \<le> ?c 0 + 100"
    using p q g by (auto simp: mput_def mget_def mclean_up_def CACHE_MAP_def Let_def
      erase_if_expired_def is_expired_def clean_up_time_interval_nanos_def split: option.splits if_splits)
  have "r = 7"
    using cache_map_answers [OF st _ p, of "[]" _ "[Put ''j'' 8 1]", OF _ _ _ g] q n3 by simp
  with p q g show ?thesis by blast
qed

text \<open>With an interval that has not run out when the clean-up ends, \<open>mget_or_put\<close> never fails.\<close>

lemma mget_or_put_total:
  assumes "steady c" "cache_map_ok s" "mget_or_put c n k d e s = (r, s', n')" "c n' \<le> c n + e"
  shows "\<exists>v. r = Inr v"
proof -
  have live: "mentry s1 k = Some (d, c m + e)" if "mput c m k d e s = (s1, n')" "n \<le> m" for m s1
    using mput_live [OF that(1) assms(2,1)] assms(4) steadyD [OF assms(1) that(2)] by linarith
  show ?thesis
    using assms(3) live by (auto simp: mget_or_put_def Let_def split: option.splits prod.splits if_splits)
qed

end
