(* ===== verification/Host_Info.thy ===== *)
theory Host_Info
  imports Rds_Utils
begin

text \<open>
  One node of a cluster (\<^verbatim>\<open>driver/host_info.h\<close>, \<^verbatim>\<open>driver/host_info.cc\<close>). A
  \<^verbatim>\<open>HOST_INFO\<close> is a record; \<^verbatim>\<open>std::shared_ptr<HOST_INFO>\<close> is an index of a store of them.
\<close>

datatype host_state = UP | DOWN

record host_info =
  h_host :: string
  h_host_id :: string
  h_port :: int
  h_state :: host_state
  h_is_writer :: bool
  h_session_id :: string
  h_last_updated :: string
  h_replica_lag :: string
  h_instance_name :: string

type_synonym host_store = "host_info list"

definition NO_PORT :: int where
  "NO_PORT = -1"

text \<open>The four-argument constructor; the members that are not listed start empty.\<close>

definition HOST_INFO :: "string \<Rightarrow> int \<Rightarrow> host_state \<Rightarrow> bool \<Rightarrow> host_info" where
  "HOST_INFO host port state is_writer =
     \<lparr>h_host = host, h_host_id = get_rds_instance_id host, h_port = port, h_state = state,
      h_is_writer = is_writer, h_session_id = [], h_last_updated = [], h_replica_lag = [],
      h_instance_name = []\<rparr>"

definition HOST_INFO_2 :: "string \<Rightarrow> int \<Rightarrow> host_info" where
  "HOST_INFO_2 host port = HOST_INFO host port UP False"

definition HOST_INFO_0 :: host_info where
  "HOST_INFO_0 = HOST_INFO_2 [] NO_PORT"

definition get_host_port_pair :: "host_info \<Rightarrow> string" where
  "get_host_port_pair h = h_host h @ '':'' @ to_string (h_port h)"

definition equal_host_port_pair :: "host_info \<Rightarrow> host_info \<Rightarrow> bool" where
  "equal_host_port_pair h hi \<longleftrightarrow> get_host_port_pair h = get_host_port_pair hi"

definition set_host_state :: "host_state \<Rightarrow> host_info \<Rightarrow> host_info" where
  "set_host_state s h = h\<lparr>h_state := s\<rparr>"

definition is_host_up :: "host_info \<Rightarrow> bool" where
  "is_host_up h \<longleftrightarrow> h_state h = UP"

definition is_host_down :: "host_info \<Rightarrow> bool" where
  "is_host_down h \<longleftrightarrow> h_state h = DOWN"

definition mark_as_writer :: "bool \<Rightarrow> host_info \<Rightarrow> host_info" where
  "mark_as_writer w h = h\<lparr>h_is_writer := w\<rparr>"

text \<open>\<open>is_host_same\<close> dereferences both pointers.\<close>

definition is_host_same :: "host_store \<Rightarrow> ref option \<Rightarrow> ref option \<Rightarrow> bool res" where
  "is_host_same hs h1 h2 =
     (case (h1, h2) of
        (Some a, Some b) \<Rightarrow> Inr (h_instance_name (hs ! a) = h_instance_name (hs ! b))
      | _ \<Rightarrow> Inl Null_deref)"

lemma host_port_pair_inject:
  "get_host_port_pair a = get_host_port_pair b \<longleftrightarrow> h_host a = h_host b \<and> h_port a = h_port b"
proof -
  have "get_host_port_pair x = h_host x @ CHR '':'' # to_string (h_port x)" for x
    by (simp add: get_host_port_pair_def)
  then show ?thesis
    by (simp add: append_last_sep_eq to_string_inject)
qed

lemma down_not_up [simp]: "is_host_down h \<longleftrightarrow> \<not> is_host_up h"
  by (cases "h_state h") (simp_all add: is_host_down_def is_host_up_def)

lemma set_host_state_simps [simp]:
  "h_host (set_host_state s h) = h_host h" "h_port (set_host_state s h) = h_port h"
  "h_is_writer (set_host_state s h) = h_is_writer h" "h_state (set_host_state s h) = s"
  "h_instance_name (set_host_state s h) = h_instance_name h"
  "get_host_port_pair (set_host_state s h) = get_host_port_pair h"
  by (simp_all add: set_host_state_def get_host_port_pair_def)

text \<open>
  Two hosts have the same host:port text exactly when they have the same host name and the
  same port, also when the host name itself contains colons (as an IPv6 address does) and for
  the port \<^verbatim>\<open>NO_PORT\<close>: the text identifies the node.
\<close>

theorem equal_host_port_pair_iff:
  "equal_host_port_pair a b \<longleftrightarrow> h_host a = h_host b \<and> h_port a = h_port b"
  by (simp add: equal_host_port_pair_def host_port_pair_inject)

end
