(* ===== verification/Cluster_Topology_Info.thy ===== *)
theory Cluster_Topology_Info
  imports Host_Info "HOL-Library.Multiset"
begin

text \<open>
  The topology of one cluster (\<^verbatim>\<open>driver/cluster_topology_info.h\<close>,
  \<^verbatim>\<open>driver/cluster_topology_info.cc\<close>): writers and readers as pointers into the host store,
  the round-robin cursor over the readers, and the set of hosts marked down.
\<close>

section \<open>State and operations\<close>

record topology =
  current_reader :: int
  last_updated :: int
  down_hosts :: "string set"
  last_used_reader :: "ref option"
  writers :: "ref list"
  readers :: "ref list"

definition update_time :: "int \<Rightarrow> topology \<Rightarrow> topology" where
  "update_time now t = t\<lparr>last_updated := now\<rparr>"

definition CLUSTER_TOPOLOGY_INFO :: "int \<Rightarrow> topology" where
  "CLUSTER_TOPOLOGY_INFO now = update_time now
     \<lparr>current_reader = -1, last_updated = 0, down_hosts = {}, last_used_reader = None,
      writers = [], readers = []\<rparr>"

text \<open>
  The copy constructor copies every host object. \<open>down_hosts\<close> is not among the members it
  initialises and starts empty; \<open>last_used_reader\<close> keeps pointing to the source's object.
\<close>

fun copy_hosts :: "host_store \<Rightarrow> ref list \<Rightarrow> ref list \<times> host_store" where
  "copy_hosts hs [] = ([], hs)"
| "copy_hosts hs (r # rs) =
     (let (r', hs1) = alloc (hs ! r) hs; (rs', hs2) = copy_hosts hs1 rs in (r' # rs', hs2))"

definition copy_topology :: "host_store \<Rightarrow> topology \<Rightarrow> topology \<times> host_store" where
  "copy_topology hs src =
     (let (ws, hs1) = copy_hosts hs (writers src); (rs, hs2) = copy_hosts hs1 (readers src)
      in (\<lparr>current_reader = current_reader src, last_updated = last_updated src, down_hosts = {},
           last_used_reader = last_used_reader src, writers = ws, readers = rs\<rparr>, hs2))"

definition add_host :: "host_store \<Rightarrow> int \<Rightarrow> ref \<Rightarrow> topology \<Rightarrow> topology" where
  "add_host hs now r t = update_time now
     (if h_is_writer (hs ! r) then t\<lparr>writers := writers t @ [r]\<rparr> else t\<lparr>readers := readers t @ [r]\<rparr>)"

text \<open>\<^verbatim>\<open>std::find\<close> compares pointers and \<open>erase\<close> removes the first position found.\<close>

definition remove_host :: "int \<Rightarrow> ref \<Rightarrow> topology \<Rightarrow> topology" where
  "remove_host now r t = update_time now
     (t\<lparr>writers := remove1 r (writers t), readers := remove1 r (readers t)\<rparr>)"

definition total_hosts :: "topology \<Rightarrow> nat" where
  "total_hosts t = length (writers t) + length (readers t)"

definition num_readers :: "topology \<Rightarrow> nat" where
  "num_readers t = length (readers t)"

definition get_writer :: "topology \<Rightarrow> ref res" where
  "get_writer t =
     (case writers t of [] \<Rightarrow> Inl (Runtime_error ''No writer available'') | w # _ \<Rightarrow> Inr w)"

text \<open>
  \<open>rnd\<close> is the value of \<^verbatim>\<open>get_random_number()\<close>. The comparison and the remainders are
  computed in \<^verbatim>\<open>size_t\<close> and the result is stored in an \<^verbatim>\<open>int\<close>.
\<close>

definition next_index :: "int \<Rightarrow> int \<Rightarrow> nat \<Rightarrow> int" where
  "next_index rnd cur n =
     to_int32
       (if cur = -1 then to_size_t rnd mod int n
        else if to_size_t cur \<ge> int n then to_size_t cur mod int n
        else to_size_t (cur + 1) mod int n)"

definition get_next_reader :: "int \<Rightarrow> topology \<Rightarrow> ref res \<times> topology" where
  "get_next_reader rnd t =
     (if readers t = [] then (Inl (Runtime_error ''No reader available''), t)
      else let cur = next_index rnd (current_reader t) (length (readers t))
           in (Inr (readers t ! nat (to_size_t cur)), t\<lparr>current_reader := cur\<rparr>))"

text \<open>
  The message of the exception is the literal advanced by \<open>i\<close> characters, not a concatenation;
  outside of the literal the pointer is invalid.
\<close>

definition get_reader :: "int \<Rightarrow> topology \<Rightarrow> ref res" where
  "get_reader i t =
     (if i < 0 \<or> to_size_t i \<ge> int (length (readers t))
      then let msg = ''No reader available at index ''
           in if i < 0 \<or> nat i > length msg then Inl Bad_pointer
              else Inl (Runtime_error (drop (nat i) msg))
      else Inr (readers t ! nat i))"

definition get_instances :: "topology \<Rightarrow> ref list" where
  "get_instances t = writers t @ readers t"

definition set_last_used_reader :: "ref option \<Rightarrow> topology \<Rightarrow> topology" where
  "set_last_used_reader r t = t\<lparr>last_used_reader := r\<rparr>"

definition mark_host_down :: "host_store \<Rightarrow> ref \<Rightarrow> topology \<Rightarrow> host_store \<times> topology" where
  "mark_host_down hs r t =
     (let hs' = modify r (set_host_state DOWN) hs
      in (hs', t\<lparr>down_hosts := insert (get_host_port_pair (hs' ! r)) (down_hosts t)\<rparr>))"

definition mark_host_up :: "host_store \<Rightarrow> ref \<Rightarrow> topology \<Rightarrow> host_store \<times> topology" where
  "mark_host_up hs r t =
     (let hs' = modify r (set_host_state UP) hs
      in (hs', t\<lparr>down_hosts := down_hosts t - {get_host_port_pair (hs' ! r)}\<rparr>))"

section \<open>Well-formedness\<close>

text \<open>
  Every pointer of a topology denotes an object, no object occurs twice, and the two lists are
  sorted by the role recorded in the objects.
\<close>

definition topology_ok :: "host_store \<Rightarrow> topology \<Rightarrow> bool" where
  "topology_ok hs t \<longleftrightarrow>
     distinct (get_instances t) \<and> list_all (\<lambda>r. r < length hs) (get_instances t) \<and>
     list_all (\<lambda>r. h_is_writer (hs ! r)) (writers t) \<and> list_all (\<lambda>r. \<not> h_is_writer (hs ! r)) (readers t)"

lemma update_time_simps [simp]:
  "writers (update_time n t) = writers t" "readers (update_time n t) = readers t"
  "last_updated (update_time n t) = n" "current_reader (update_time n t) = current_reader t"
  "down_hosts (update_time n t) = down_hosts t" "last_used_reader (update_time n t) = last_used_reader t"
  by (simp_all add: update_time_def)

lemma get_instances_update_time [simp]: "get_instances (update_time n t) = get_instances t"
  by (simp add: get_instances_def)

lemma topology_ok_new [simp]: "topology_ok hs (CLUSTER_TOPOLOGY_INFO now)"
  by (simp add: topology_ok_def CLUSTER_TOPOLOGY_INFO_def get_instances_def)

lemma topology_ok_add_host:
  assumes "topology_ok hs t" "r < length hs" "r \<notin> set (get_instances t)"
  shows "topology_ok hs (add_host hs now r t)"
  using assms by (auto simp: topology_ok_def add_host_def get_instances_def)

lemma topology_ok_remove_host:
  assumes "topology_ok hs t"
  shows "topology_ok hs (remove_host now r t)"
  using assms by (auto simp: topology_ok_def remove_host_def get_instances_def list_all_iff
    distinct_remove1 dest: notin_set_remove1 set_remove1_subset [THEN subsetD])

lemma instances_remove_host:
  assumes "topology_ok hs t"
  shows "set (get_instances (remove_host now r t)) = set (get_instances t) - {r}"
  using assms by (auto simp: topology_ok_def remove_host_def get_instances_def)

lemma topology_ok_store:
  assumes "topology_ok hs t" "length hs \<le> length hs'"
    and "\<And>r. r \<in> set (get_instances t) \<Longrightarrow> h_is_writer (hs' ! r) = h_is_writer (hs ! r)"
  shows "topology_ok hs' t"
  unfolding topology_ok_def list_all_iff
proof (intro conjI ballI)
  fix r
  assume "r \<in> set (get_instances t)"
  with assms(1,2) show "r < length hs'" by (auto simp: topology_ok_def list_all_iff)
next
  fix r
  assume r: "r \<in> set (writers t)"
  with assms(1) have "h_is_writer (hs ! r)" by (auto simp: topology_ok_def list_all_iff)
  with assms(3) [of r] r show "h_is_writer (hs' ! r)" by (simp add: get_instances_def)
next
  fix r
  assume r: "r \<in> set (readers t)"
  with assms(1) have "\<not> h_is_writer (hs ! r)" by (auto simp: topology_ok_def list_all_iff)
  with assms(3) [of r] r show "\<not> h_is_writer (hs' ! r)" by (simp add: get_instances_def)
qed (use assms(1) in \<open>simp add: topology_ok_def\<close>)

lemma topology_ok_modify:
  assumes "topology_ok hs t" "\<And>h. h_is_writer (f h) = h_is_writer h"
  shows "topology_ok (modify r f hs) t"
  by (rule topology_ok_store [OF assms(1)]) (simp_all add: modify_field assms(2))

lemma topology_ok_append: "topology_ok hs t \<Longrightarrow> topology_ok (hs @ hs') t"
  by (rule topology_ok_store) (auto simp: topology_ok_def list_all_iff nth_append)

lemma topology_ok_fields:
  assumes "writers t' = writers t" "readers t' = readers t"
  shows "topology_ok hs t' \<longleftrightarrow> topology_ok hs t"
  using assms by (simp add: topology_ok_def get_instances_def)

lemma topology_ok_mark:
  assumes "topology_ok hs t"
  shows "topology_ok (fst (mark_host_down hs r t)) (snd (mark_host_down hs r t))"
    "topology_ok (fst (mark_host_up hs r t)) (snd (mark_host_up hs r t))"
  using topology_ok_modify [OF assms, of "set_host_state DOWN" r]
    topology_ok_modify [OF assms, of "set_host_state UP" r]
  by (simp_all add: mark_host_down_def mark_host_up_def Let_def topology_ok_def get_instances_def)

lemma topology_ok_next_reader: "topology_ok hs t \<Longrightarrow> topology_ok hs (snd (get_next_reader rnd t))"
  by (simp add: get_next_reader_def Let_def topology_ok_def get_instances_def)

section \<open>Copies\<close>

lemma copy_hosts_eq:
  assumes "list_all (\<lambda>r. r < length hs) rs"
  shows "copy_hosts hs rs = ([length hs..<length hs + length rs], hs @ map ((!) hs) rs)"
  using assms
proof (induction rs arbitrary: hs)
  case (Cons r rs)
  then have "list_all (\<lambda>q. q < length (hs @ [hs ! r])) rs" by (auto simp: list_all_iff less_SucI)
  from Cons.IH [OF this] Cons.prems show ?case
    by (auto simp: alloc_def upt_conv_Cons nth_append list_all_iff simp del: upt_Suc)
qed simp

lemma copy_topology_eq:
  assumes "topology_ok hs src"
  shows "copy_topology hs src =
     (let n = length hs; m = length (writers src); k = length (readers src)
      in (src\<lparr>down_hosts := {}, writers := [n..<n + m], readers := [n + m..<n + m + k]\<rparr>,
          hs @ map ((!) hs) (get_instances src)))"
proof -
  from assms have w: "list_all (\<lambda>r. r < length hs) (writers src)" and r: "list_all (\<lambda>r. r < length hs) (readers src)"
    by (simp_all add: topology_ok_def get_instances_def)
  from r have r': "list_all (\<lambda>r. r < length (hs @ map ((!) hs) (writers src))) (readers src)"
    by (auto simp: list_all_iff)
  have same: "map ((!) (hs @ map ((!) hs) (writers src))) (readers src) = map ((!) hs) (readers src)"
    using r by (simp add: list_all_iff nth_append)
  show ?thesis
    unfolding copy_topology_def copy_hosts_eq [OF w] prod.case Let_def copy_hosts_eq [OF r'] same
    by (simp add: get_instances_def)
qed

text \<open>
  The copy constructor makes a deep copy of a well-formed topology: the copy lists fresh
  objects with the same contents in the same order and is well-formed, and no write through a
  pointer of the copy changes a host of the source.
\<close>

theorem copy_topology_deep:
  assumes "topology_ok hs src" and "copy_topology hs src = (t, hs')"
  shows "topology_ok hs' t \<and>
    map ((!) hs') (get_instances t) = map ((!) hs) (get_instances src) \<and>
    length (writers t) = length (writers src) \<and>
    (\<forall>r \<in> set (get_instances t). \<forall>f.
       map ((!) (modify r f hs')) (get_instances src) = map ((!) hs) (get_instances src))"
proof (intro conjI ballI allI)
  let ?n = "length hs" and ?xs = "get_instances src"
  have hs': "hs' = hs @ map ((!) hs) ?xs"
    and w: "writers t = [?n..<?n + length (writers src)]"
    and r: "readers t = [?n + length (writers src)..<?n + length (writers src) + length (readers src)]"
    using assms(2) unfolding copy_topology_eq [OF assms(1)] by (auto simp: Let_def)
  have inst: "get_instances t = [?n..<?n + length ?xs]"
    unfolding get_instances_def w r
    using upt_add_eq_append [of ?n "?n + length (writers src)" "length (readers src)"] by (simp add: add.assoc)
  show "length (writers t) = length (writers src)" by (simp add: w)
  show copied: "map ((!) hs') (get_instances t) = map ((!) hs) ?xs"
    by (rule nth_equalityI) (simp_all add: inst hs' nth_append)
  have role: "h_is_writer (hs' ! (?n + k)) = h_is_writer (hs ! (?xs ! k))" if "k < length ?xs" for k
    using that by (simp add: hs' nth_append)
  have writer_role: "h_is_writer (hs ! (?xs ! k))" if "k < length (writers src)" for k
    using assms(1) that by (auto simp: topology_ok_def get_instances_def nth_append list_all_length)
  have reader_role: "\<not> h_is_writer (hs ! (?xs ! k))" if "length (writers src) \<le> k" "k < length ?xs" for k
    using assms(1) that by (auto simp: topology_ok_def get_instances_def nth_append list_all_length)
  have len: "length ?xs = length (writers src) + length (readers src)" by (simp add: get_instances_def)
  show "topology_ok hs' t"
    unfolding topology_ok_def inst w r
  proof (intro conjI)
    show "list_all (\<lambda>r. h_is_writer (hs' ! r)) [?n..<?n + length (writers src)]"
      using role writer_role len by (simp add: list_all_length)
    show "list_all (\<lambda>r. \<not> h_is_writer (hs' ! r))
        [?n + length (writers src)..<?n + length (writers src) + length (readers src)]"
      using role [of "length (writers src) + _"] reader_role len by (simp add: list_all_length add.assoc)
  qed (simp_all add: list_all_length hs')
  fix q f
  assume "q \<in> set (get_instances t)"
  then have "?n \<le> q" by (simp add: inst)
  with assms(1) show "map ((!) (modify q f hs')) ?xs = map ((!) hs) ?xs"
    by (auto simp: modify_other hs' nth_append topology_ok_def list_all_iff)
qed

theorem copy_topology_deep_witness:
  "let hs = [HOST_INFO ''w'' 1 UP True, HOST_INFO ''r'' 2 UP False];
       src = add_host hs 5 1 (add_host hs 5 0 (CLUSTER_TOPOLOGY_INFO 5));
       (t, hs') = copy_topology hs src
   in topology_ok hs src \<and> topology_ok hs' t \<and> get_instances t = [2, 3] \<and>
      map ((!) (modify 2 (set_host_state DOWN) hs')) (get_instances src) = hs"
proof -
  define hs where "hs = [HOST_INFO ''w'' 1 UP True, HOST_INFO ''r'' 2 UP False]"
  define src where "src = add_host hs 5 1 (add_host hs 5 0 (CLUSTER_TOPOLOGY_INFO 5))"
  have lists: "writers src = [0]" "readers src = [1]"
    by (simp_all add: src_def add_host_def hs_def HOST_INFO_def CLUSTER_TOPOLOGY_INFO_def)
  then have ok: "topology_ok hs src"
    by (simp add: topology_ok_def get_instances_def hs_def HOST_INFO_def)
  obtain t hs' where c: "copy_topology hs src = (t, hs')" by fastforce
  have inst: "get_instances t = [2, 3]"
    using c lists unfolding copy_topology_eq [OF ok] by (auto simp: get_instances_def hs_def)
  have "map ((!) (modify 2 (set_host_state DOWN) hs')) (get_instances src) = map ((!) hs) (get_instances src)"
    using copy_topology_deep [OF ok c] inst by auto
  then have "map ((!) (modify 2 (set_host_state DOWN) hs')) (get_instances src) = hs"
    using lists by (simp add: get_instances_def hs_def)
  with copy_topology_deep [OF ok c] ok inst c show ?thesis
    unfolding hs_def [symmetric] Let_def src_def [symmetric] by simp
qed

section \<open>Round robin over the readers\<close>

fun next_readers :: "int list \<Rightarrow> topology \<Rightarrow> ref res list" where
  "next_readers [] t = []"
| "next_readers (rnd # rnds) t =
     (let (r, t') = get_next_reader rnd t in r # next_readers rnds t')"

lemma next_index_range:
  assumes "0 < n" "n < 2 ^ 31" "-1 \<le> cur" "cur < 2 ^ 31"
  shows "0 \<le> next_index rnd cur n \<and> next_index rnd cur n < int n"
proof -
  have "0 \<le> to_int32 (x mod int n) \<and> to_int32 (x mod int n) < int n" for x
  proof -
    define m where "m = nat (x mod int n)"
    have m: "x mod int n = int m" "m < n"
      using assms(1) by (simp_all add: m_def nat_less_iff)
    then have "to_int32 (int m) = int m" using assms(2) by (intro to_int32_nat) linarith
    with m show ?thesis by simp
  qed
  then show ?thesis by (simp add: next_index_def)
qed

lemma next_index_succ:
  assumes "c < n" "n < 2 ^ 31"
  shows "next_index rnd (int c) n = int (Suc c mod n)"
proof -
  have "to_size_t (int c) = int c" "to_size_t (int (Suc c)) = int (Suc c)"
    using assms by (intro to_size_t_nat; linarith)+
  then have "to_size_t (int c) = int c" "to_size_t (int c + 1) = int c + 1"
    by (simp_all add: add.commute)
  moreover have "(int c + 1) mod int n = int (Suc c mod n)"
    by (simp add: zmod_int add.commute)
  moreover have "to_int32 (int (Suc c mod n)) = int (Suc c mod n)"
  proof (rule to_int32_nat)
    have "Suc c mod n < n" using assms(1) by (intro mod_less_divisor) linarith
    then show "Suc c mod n < 2 ^ 31" using assms(2) by (rule less_trans)
  qed
  ultimately show ?thesis using assms by (simp add: next_index_def)
qed

lemma next_readers_from:
  assumes "c < length (readers t)" "length (readers t) < 2 ^ 31" "current_reader t = int c"
  shows "next_readers rnds t = map (\<lambda>i. Inr (readers t ! ((c + 1 + i) mod length (readers t)))) [0..<length rnds]"
  using assms
proof (induction rnds arbitrary: c t)
  case (Cons rnd rnds)
  let ?n = "length (readers t)" and ?d = "Suc c mod length (readers t)"
  let ?t' = "t\<lparr>current_reader := int ?d\<rparr>"
  have d: "?d < ?n" using Cons.prems(1) by (intro mod_less_divisor) linarith
  then have "to_size_t (int ?d) = int ?d"
    using Cons.prems(2) by (intro to_size_t_nat) linarith
  with Cons.prems have step: "get_next_reader rnd t = (Inr (readers t ! ?d), ?t')"
    by (auto simp: get_next_reader_def Let_def next_index_succ)
  have "next_readers rnds ?t' = map (\<lambda>i. Inr (readers t ! ((?d + 1 + i) mod ?n))) [0..<length rnds]"
    using Cons.IH [of ?d ?t'] Cons.prems d by simp
  moreover have "(?d + 1 + i) mod ?n = (c + 1 + Suc i) mod ?n" for i
    using mod_add_left_eq [of "Suc c" ?n "1 + i"] by (simp add: add.assoc)
  ultimately have "next_readers rnds ?t' = map (\<lambda>i. Inr (readers t ! ((c + 1 + Suc i) mod ?n))) [0..<length rnds]"
    by simp
  then show ?case
    by (simp add: step upt_conv_Cons map_Suc_upt [symmetric] del: upt_Suc map_Suc_upt)
qed simp

lemma rotate_conv_map: "rotate k xs = map (\<lambda>i. xs ! ((k + i) mod length xs)) [0..<length xs]"
  by (rule nth_equalityI) (simp_all add: nth_rotate)

text \<open>
  As many consecutive calls of \<open>get_next_reader\<close> as there are readers return every reader
  exactly once, in the order of the list up to rotation: from the state before the first use,
  whatever the random start, and also after the list of readers has changed.
\<close>

theorem get_next_reader_round_robin:
  assumes "readers t \<noteq> []" "length (readers t) < 2 ^ 31"
    and "-1 \<le> current_reader t" "current_reader t < 2 ^ 31"
    and "length rnds = length (readers t)"
  shows "\<exists>k. next_readers rnds t = map Inr (rotate k (readers t))"
proof -
  let ?n = "length (readers t)"
  obtain rnd rnds' where rnds: "rnds = rnd # rnds'" using assms(1,5) by (cases rnds) auto
  define c where "c = nat (next_index rnd (current_reader t) ?n)"
  have c: "c < ?n" "next_index rnd (current_reader t) ?n = int c"
    using next_index_range [of ?n "current_reader t" rnd, OF _ assms(2-4)] assms(1)
    by (simp_all add: c_def nat_less_iff)
  have "to_size_t (int c) = int c" using c(1) assms(2) by (intro to_size_t_nat) linarith
  with c assms(1) have "get_next_reader rnd t = (Inr (readers t ! c), t\<lparr>current_reader := int c\<rparr>)"
    by (simp add: get_next_reader_def)
  moreover have "next_readers rnds' (t\<lparr>current_reader := int c\<rparr>) =
      map (\<lambda>i. Inr (readers t ! ((c + 1 + i) mod ?n))) [0..<length rnds']"
    using next_readers_from [of c "t\<lparr>current_reader := int c\<rparr>"] c assms(2) by simp
  ultimately have "next_readers rnds t =
      map (\<lambda>i. Inr (readers t ! ((c + i) mod ?n))) (0 # map Suc [0..<length rnds'])"
    using c(1) by (simp add: rnds)
  also have "0 # map Suc [0..<length rnds'] = [0..<?n]"
    using assms(1,5) rnds by (simp add: map_Suc_upt upt_conv_Cons [of 0] del: upt_Suc)
  finally have "next_readers rnds t = map Inr (rotate c (readers t))"
    by (simp add: rotate_conv_map comp_def)
  then show ?thesis by blast
qed

theorem get_next_reader_round_robin_witness:
  "\<exists>k. next_readers [7, 8, 9] ((CLUSTER_TOPOLOGY_INFO 0)\<lparr>readers := [4, 5, 6]\<rparr>) = map Inr (rotate k [4, 5, 6])"
  using get_next_reader_round_robin [of "(CLUSTER_TOPOLOGY_INFO 0)\<lparr>readers := [4, 5, 6]\<rparr>" "[7, 8, 9]"]
  by (simp add: CLUSTER_TOPOLOGY_INFO_def update_time_def)

end
