(* ===== verification/Topology_Service.thy ===== *)
theory Topology_Service
  imports Cluster_Topology_Info "HOL-Library.List_Lexorder" "HOL-Library.Char_ord"
begin

text \<open>
  The topology service (\<^verbatim>\<open>driver/topology_service.h\<close>, \<^verbatim>\<open>driver/topology_service.cc\<close>,
  \<^verbatim>\<open>driver/allowed_and_blocked_hosts.h\<close>): it queries the topology of the cluster, caches it
  process-wide per cluster, tracks which hosts are down and filters by a custom endpoint.

  The process-wide state is a \<open>world\<close>: the stores of host and topology objects, the static
  \<^verbatim>\<open>topology_cache\<close>, the two clocks with the numbers of their next readings, and the sequence
  of calls of the metrics container. A service object is a \<open>tsvc\<close>. What the connection answers
  to a query (the rows, or nothing when it fails) is the argument \<open>exec\<close>.
\<close>

section \<open>State\<close>

datatype metric_call =
    Use_cached_topology bool
  | Topology_query_time int
  | Gather_metric bool
  | Set_cluster_id string

record world =
  hosts :: host_store
  topos :: "topology list"
  topology_cache :: "(string \<times> ref) list"
  time_clock :: clock
  time_tick :: nat
  steady_clock :: clock
  steady_tick :: nat
  metrics :: "metric_call list"

record tsvc =
  cluster_id :: string
  cluster_instance_host :: "ref option"
  refresh_rate_in_ms :: int
  allowed_and_blocked_hosts :: "(string set \<times> string set) option"

definition DEFAULT_REFRESH_RATE_IN_MILLISECONDS :: int where
  "DEFAULT_REFRESH_RATE_IN_MILLISECONDS = 30000"

definition WRITER_SESSION_ID :: string where
  "WRITER_SESSION_ID = ''MASTER_SESSION_ID''"

text \<open>A row of the topology query: server id, session id, last update, replica lag; \<open>None\<close> is SQL NULL.\<close>

type_synonym row = "string option \<times> string option \<times> string option \<times> string option"

type_synonym 'conn exec = "'conn \<Rightarrow> row list option"

definition read_time :: "world \<Rightarrow> int \<times> world" where
  "read_time w = (time_clock w (time_tick w), w\<lparr>time_tick := time_tick w + 1\<rparr>)"

definition read_steady :: "world \<Rightarrow> int \<times> world" where
  "read_steady w = (steady_clock w (steady_tick w), w\<lparr>steady_tick := steady_tick w + 1\<rparr>)"

definition record_metric :: "metric_call \<Rightarrow> world \<Rightarrow> world" where
  "record_metric m w = w\<lparr>metrics := metrics w @ [m]\<rparr>"

section \<open>Operations\<close>

text \<open>
  The constructor takes as first cluster id the text of the current time, here \<open>ctime_text\<close>.
\<close>

definition TOPOLOGY_SERVICE :: "string \<Rightarrow> tsvc" where
  "TOPOLOGY_SERVICE ctime_text =
     \<lparr>cluster_id = ctime_text, cluster_instance_host = None,
      refresh_rate_in_ms = DEFAULT_REFRESH_RATE_IN_MILLISECONDS, allowed_and_blocked_hosts = None\<rparr>"

text \<open>The copy constructor does not copy the allowed and blocked hosts.\<close>

definition copy_service :: "tsvc \<Rightarrow> tsvc" where
  "copy_service ts =
     \<lparr>cluster_id = cluster_id ts, cluster_instance_host = cluster_instance_host ts,
      refresh_rate_in_ms = refresh_rate_in_ms ts, allowed_and_blocked_hosts = None\<rparr>"

definition set_cluster_id :: "string \<Rightarrow> tsvc \<Rightarrow> world \<Rightarrow> tsvc \<times> world" where
  "set_cluster_id cid svc w = (svc\<lparr>cluster_id := cid\<rparr>, record_metric (Set_cluster_id cid) w)"

definition set_cluster_instance_template :: "ref \<Rightarrow> tsvc \<Rightarrow> tsvc" where
  "set_cluster_instance_template host_template svc = svc\<lparr>cluster_instance_host := Some host_template\<rparr>"

definition set_refresh_rate :: "int \<Rightarrow> tsvc \<Rightarrow> tsvc" where
  "set_refresh_rate rate svc = svc\<lparr>refresh_rate_in_ms := rate\<rparr>"

definition set_allowed_and_blocked_hosts :: "(string set \<times> string set) option \<Rightarrow> tsvc \<Rightarrow> tsvc" where
  "set_allowed_and_blocked_hosts ab svc = svc\<lparr>allowed_and_blocked_hosts := ab\<rparr>"

definition set_gather_metric :: "bool \<Rightarrow> world \<Rightarrow> world" where
  "set_gather_metric b w = record_metric (Gather_metric b) w"

definition get_from_cache :: "tsvc \<Rightarrow> world \<Rightarrow> ref option \<times> world" where
  "get_from_cache svc w =
     (if topology_cache w = [] then (None, record_metric (Use_cached_topology False) w)
      else case map_of (topology_cache w) (cluster_id svc) of
             None \<Rightarrow> (None, record_metric (Use_cached_topology False) w)
           | Some t \<Rightarrow> (Some t, record_metric (Use_cached_topology True) w))"

definition put_to_cache :: "tsvc \<Rightarrow> ref \<Rightarrow> world \<Rightarrow> world" where
  "put_to_cache svc t w =
     (if topology_cache w \<noteq> [] \<and> map_of (topology_cache w) (cluster_id svc) \<noteq> None
      then w\<lparr>topology_cache := AList.update (cluster_id svc) t (topology_cache w)\<rparr>
      else w\<lparr>topology_cache := (cluster_id svc, t) # topology_cache w\<rparr>)"

text \<open>\<^verbatim>\<open>refresh_rate_in_ms / 1000\<close> is the truncating division of C++.\<close>

definition refresh_needed :: "tsvc \<Rightarrow> int \<Rightarrow> world \<Rightarrow> bool \<times> world" where
  "refresh_needed svc updated w =
     (let (now, w1) = read_time w;
          rate = (if refresh_rate_in_ms svc \<ge> 0 then refresh_rate_in_ms svc div 1000
                  else - ((- refresh_rate_in_ms svc) div 1000))
      in (now - updated > rate, w1))"

definition svc_get_last_used_reader :: "tsvc \<Rightarrow> world \<Rightarrow> ref option \<times> world" where
  "svc_get_last_used_reader svc w =
     (case get_from_cache svc w of
        (None, w1) \<Rightarrow> (None, w1)
      | (Some t, w1) \<Rightarrow>
          (case refresh_needed svc (last_updated (topos w1 ! t)) w1 of
             (stale, w2) \<Rightarrow> (if stale then None else last_used_reader (topos w2 ! t), w2)))"

definition svc_set_last_used_reader :: "tsvc \<Rightarrow> ref option \<Rightarrow> world \<Rightarrow> world" where
  "svc_set_last_used_reader svc reader w =
     (case reader of
        None \<Rightarrow> w
      | Some r \<Rightarrow>
          (case get_from_cache svc w of
             (None, w1) \<Rightarrow> w1
           | (Some t, w1) \<Rightarrow> w1\<lparr>topos := modify t (set_last_used_reader (Some r)) (topos w1)\<rparr>))"

definition get_down_hosts :: "tsvc \<Rightarrow> world \<Rightarrow> string set \<times> world" where
  "get_down_hosts svc w =
     (case get_from_cache svc w of
        (None, w1) \<Rightarrow> ({}, w1)
      | (Some t, w1) \<Rightarrow> (down_hosts (topos w1 ! t), w1))"

definition svc_mark_host_down :: "tsvc \<Rightarrow> ref option \<Rightarrow> world \<Rightarrow> world" where
  "svc_mark_host_down svc host w =
     (case host of
        None \<Rightarrow> w
      | Some h \<Rightarrow>
          (case get_from_cache svc w of
             (None, w1) \<Rightarrow> w1
           | (Some t, w1) \<Rightarrow>
               (case mark_host_down (hosts w1) h (topos w1 ! t) of
                  (hs, ti) \<Rightarrow> w1\<lparr>hosts := hs, topos := (topos w1)[t := ti]\<rparr>)))"

definition svc_mark_host_up :: "tsvc \<Rightarrow> ref option \<Rightarrow> world \<Rightarrow> world" where
  "svc_mark_host_up svc host w =
     (case host of
        None \<Rightarrow> w
      | Some h \<Rightarrow>
          (case get_from_cache svc w of
             (None, w1) \<Rightarrow> w1
           | (Some t, w1) \<Rightarrow>
               (case mark_host_up (hosts w1) h (topos w1 ! t) of
                  (hs, ti) \<Rightarrow> w1\<lparr>hosts := hs, topos := (topos w1)[t := ti]\<rparr>)))"

definition clear_all :: "world \<Rightarrow> world" where
  "clear_all w = w\<lparr>topology_cache := []\<rparr>"

definition clear :: "tsvc \<Rightarrow> world \<Rightarrow> world" where
  "clear svc w = w\<lparr>topology_cache := AList.delete (cluster_id svc) (topology_cache w)\<rparr>"

definition get_cached_topology :: "tsvc \<Rightarrow> world \<Rightarrow> ref option \<times> world" where
  "get_cached_topology svc w = get_from_cache svc w"

definition get_host_endpoint :: "string \<Rightarrow> string \<Rightarrow> string" where
  "get_host_endpoint template node_name =
     (case find_char CHR ''?'' template of
        Some p \<Rightarrow> replace_str p 1 node_name template | None \<Rightarrow> template)"

definition opt_str :: "string option \<Rightarrow> string" where
  "opt_str x = (case x of Some s \<Rightarrow> s | None \<Rightarrow> [])"

text \<open>The session id is compared before it is tested for NULL.\<close>

definition create_host :: "tsvc \<Rightarrow> row \<Rightarrow> world \<Rightarrow> (ref option \<times> world) res" where
  "create_host svc row w =
     (case row of (server, session, updated, lag) \<Rightarrow>
      (case server of
         None \<Rightarrow> Inr (None, w)
       | Some node \<Rightarrow>
          (case cluster_instance_host svc of
             None \<Rightarrow> Inl Null_deref
           | Some tmpl \<Rightarrow>
              let h = HOST_INFO_2 (get_host_endpoint (h_host (hosts w ! tmpl)) node) (h_port (hosts w ! tmpl))
              in case session of
                   None \<Rightarrow> Inl Null_deref
                 | Some sid \<Rightarrow>
                     let h1 = (if sid = WRITER_SESSION_ID then mark_as_writer True h else h);
                         h2 = h1\<lparr>h_instance_name := node, h_session_id := sid,
                                 h_last_updated := opt_str updated, h_replica_lag := opt_str lag\<rparr>;
                         (r, hs) = alloc h2 (hosts w)
                     in Inr (Some r, w\<lparr>hosts := hs\<rparr>))))"

definition does_instance_exist ::
  "(string \<times> ref) list \<Rightarrow> world \<Rightarrow> ref \<Rightarrow> bool \<times> (string \<times> ref) list" where
  "does_instance_exist instances w r =
     (let name = h_instance_name (hosts w ! r)
      in case map_of instances name of
           Some _ \<Rightarrow> (True, instances) | None \<Rightarrow> (False, (name, r) # instances))"

definition add_host_now :: "ref \<Rightarrow> topology \<times> world \<Rightarrow> topology \<times> world" where
  "add_host_now r = (\<lambda>(t, w). case read_time w of (now, w1) \<Rightarrow> (add_host (hosts w1) now r t, w1))"

text \<open>The loop over the rows: topology so far, instances seen, latest writer.\<close>

fun topology_rows ::
  "tsvc \<Rightarrow> row list \<Rightarrow> topology \<Rightarrow> (string \<times> ref) list \<Rightarrow> ref option \<Rightarrow> world \<Rightarrow>
     (topology \<times> (string \<times> ref) list \<times> ref option \<times> world) res" where
  "topology_rows svc [] t insts latest w = Inr (t, insts, latest, w)"
| "topology_rows svc (row # rows) t insts latest w =
     (case create_host svc row w of
        Inl e \<Rightarrow> Inl e
      | Inr (None, w1) \<Rightarrow> topology_rows svc rows t insts latest w1
      | Inr (Some r, w1) \<Rightarrow>
          if h_is_writer (hosts w1 ! r)
          then (case latest of
                  None \<Rightarrow> topology_rows svc rows t insts (Some r) w1
                | Some l \<Rightarrow>
                    topology_rows svc rows t insts
                      (if h_last_updated (hosts w1 ! r) > h_last_updated (hosts w1 ! l) then Some r else latest) w1)
          else (case does_instance_exist insts w1 r of
                  (True, insts') \<Rightarrow> topology_rows svc rows t insts' latest w1
                | (False, insts') \<Rightarrow>
                    (case add_host_now r (t, w1) of
                       (t', w2) \<Rightarrow> topology_rows svc rows t' insts' latest w2)))"

definition topology_of_rows :: "tsvc \<Rightarrow> row list \<Rightarrow> world \<Rightarrow> (topology \<times> world) res" where
  "topology_of_rows svc rows w =
     (case read_time w of (now, w1) \<Rightarrow>
      (case topology_rows svc rows (CLUSTER_TOPOLOGY_INFO now) [] None w1 of
         Inl e \<Rightarrow> Inl e
       | Inr (t, insts, None, w2) \<Rightarrow> Inr (t, w2)
       | Inr (t, insts, Some l, w2) \<Rightarrow>
           if \<not> fst (does_instance_exist insts w2 l) then Inr (add_host_now l (t, w2)) else Inr (t, w2)))"

definition try_execute_query :: "'conn exec \<Rightarrow> 'conn option \<Rightarrow> row list option" where
  "try_execute_query exec connection = (case connection of Some c \<Rightarrow> exec c | None \<Rightarrow> None)"

definition query_for_topology ::
  "'conn exec \<Rightarrow> tsvc \<Rightarrow> 'conn option \<Rightarrow> world \<Rightarrow> (ref option \<times> world) res" where
  "query_for_topology exec svc connection w =
     (let (start, w1) = read_steady w;
          finish = (\<lambda>w2. let (stop, w3) = read_steady w2
                         in record_metric (Topology_query_time ((stop - start) div 1000000)) w3)
      in case try_execute_query exec connection of
           None \<Rightarrow> Inr (None, finish w1)
         | Some rows \<Rightarrow>
             (case topology_of_rows svc rows w1 of
                Inl e \<Rightarrow> Inl e
              | Inr (t, w2) \<Rightarrow>
                  (case alloc t (topos w2) of
                     (r, ts) \<Rightarrow> Inr (Some r, finish (w2\<lparr>topos := ts\<rparr>)))))"

definition get_topology ::
  "'conn exec \<Rightarrow> tsvc \<Rightarrow> 'conn option \<Rightarrow> bool \<Rightarrow> world \<Rightarrow> (ref option \<times> world) res" where
  "get_topology exec svc connection force_update w =
     (let (cached, w1) = get_from_cache svc w;
          (need, w2) = (case cached of
             None \<Rightarrow> (True, w1)
           | Some t \<Rightarrow> if force_update then (True, w1) else refresh_needed svc (last_updated (topos w1 ! t)) w1)
      in if need
         then (case query_for_topology exec svc connection w2 of
                 Inl e \<Rightarrow> Inl e
               | Inr (Some latest, w3) \<Rightarrow> Inr (Some latest, put_to_cache svc latest w3)
               | Inr (None, w3) \<Rightarrow> Inr (cached, w3))
         else Inr (cached, w2))"

definition allowed_host :: "string set \<Rightarrow> string set \<Rightarrow> host_info \<Rightarrow> bool" where
  "allowed_host allowed blocked h \<longleftrightarrow> h_host_id h \<in> allowed \<and> h_host_id h \<notin> blocked"

fun add_allowed :: "string set \<Rightarrow> string set \<Rightarrow> ref list \<Rightarrow> topology \<times> world \<Rightarrow> topology \<times> world" where
  "add_allowed al bl [] tw = tw"
| "add_allowed al bl (r # rs) (t, w) =
     (if allowed_host al bl (hosts w ! r) then add_allowed al bl rs (add_host_now r (t, w))
      else add_allowed al bl rs (t, w))"

definition get_filtered_topology :: "tsvc \<Rightarrow> ref option \<Rightarrow> world \<Rightarrow> (ref option \<times> world) res" where
  "get_filtered_topology svc topology w =
     (case allowed_and_blocked_hosts svc of
        None \<Rightarrow> Inr (topology, w)
      | Some (allowed, blocked) \<Rightarrow>
          (case read_time w of (now, w1) \<Rightarrow>
           (case topology of
              None \<Rightarrow> Inl Null_deref
            | Some t \<Rightarrow>
                (case add_allowed allowed blocked (get_instances (topos w1 ! t)) (CLUSTER_TOPOLOGY_INFO now, w1) of
                   (ti, w2) \<Rightarrow>
                     (case alloc ti (topos w2) of (r, ts) \<Rightarrow> Inr (Some r, w2\<lparr>topos := ts\<rparr>))))))"

text \<open>\<^verbatim>\<open>operator<<\<close> of a host, and the text of a topology for the log.\<close>

definition host_text :: "host_info \<Rightarrow> string" where
  "host_text h = ''HostSpec[host='' @ h_host h @ '', port='' @ to_string (h_port h) @ '', '' @
     (if h_is_writer h then ''WRITER'' else ''READER'') @ '', '' @ h_last_updated h @ '']''"

definition log_topology :: "world \<Rightarrow> ref \<Rightarrow> string" where
  "log_topology w t =
     (if total_hosts (topos w ! t) = 0 then ''[TOPOLOGY_SERVICE] Topology: <empty topology>''
      else ''[TOPOLOGY_SERVICE] Topology: '' @
        concat (map (\<lambda>r. [CHR 0x0A, CHR 0x09] @ host_text (hosts w ! r)) (get_instances (topos w ! t))))"

section \<open>What a query yields\<close>

text \<open>
  The reference: the hosts the rows describe, the first reader of every instance name, and the
  latest writer, which is dropped when its instance has been seen as a reader.
\<close>

definition row_host :: "host_info \<Rightarrow> row \<Rightarrow> host_info option" where
  "row_host tmpl = (\<lambda>(server, session, updated, lag). map_option (\<lambda>node.
     (HOST_INFO (get_host_endpoint (h_host tmpl) node) (h_port tmpl) UP (opt_str session = WRITER_SESSION_ID))
       \<lparr>h_instance_name := node, h_session_id := opt_str session, h_last_updated := opt_str updated,
        h_replica_lag := opt_str lag\<rparr>) server)"

definition row_hosts :: "host_info \<Rightarrow> row list \<Rightarrow> host_info list" where
  "row_hosts tmpl rows = List.map_filter (row_host tmpl) rows"

fun first_by_name :: "string list \<Rightarrow> host_info list \<Rightarrow> host_info list" where
  "first_by_name seen [] = []"
| "first_by_name seen (h # hs) =
     (if h_instance_name h \<in> set seen then first_by_name seen hs
      else h # first_by_name (h_instance_name h # seen) hs)"

fun latest_of :: "host_info option \<Rightarrow> host_info list \<Rightarrow> host_info option" where
  "latest_of l [] = l"
| "latest_of None (h # hs) = latest_of (Some h) hs"
| "latest_of (Some l) (h # hs) = latest_of (Some (if h_last_updated h > h_last_updated l then h else l)) hs"

definition topology_readers :: "host_info list \<Rightarrow> host_info list" where
  "topology_readers hs = first_by_name [] (filter (\<lambda>h. \<not> h_is_writer h) hs)"

definition topology_writers :: "host_info list \<Rightarrow> host_info list" where
  "topology_writers hs =
     (case latest_of None (filter h_is_writer hs) of
        None \<Rightarrow> []
      | Some l \<Rightarrow> if h_instance_name l \<in> h_instance_name ` set (topology_readers hs) then [] else [l])"

definition rows_ok :: "row list \<Rightarrow> bool" where
  "rows_ok rows \<longleftrightarrow> list_all (\<lambda>(server, session, _, _). server \<noteq> None \<longrightarrow> session \<noteq> None) rows"

text \<open>What a query leaves alone: it only appends objects and reads the clocks.\<close>

definition grows :: "world \<Rightarrow> world \<Rightarrow> bool" where
  "grows w w' \<longleftrightarrow> (\<exists>xs. hosts w' = hosts w @ xs) \<and> topos w' = topos w \<and>
     topology_cache w' = topology_cache w \<and> metrics w' = metrics w"

lemma growsD:
  assumes "grows w w'"
  shows "length (hosts w) \<le> length (hosts w')" "r < length (hosts w) \<Longrightarrow> hosts w' ! r = hosts w ! r"
    "topos w' = topos w" "topology_cache w' = topology_cache w" "metrics w' = metrics w"
  using assms by (auto simp: grows_def nth_append)

lemma grows_refl [simp]: "grows w w"
  by (simp add: grows_def)

lemma grows_trans: "grows w w' \<Longrightarrow> grows w' w'' \<Longrightarrow> grows w w''"
  by (auto simp: grows_def)

lemma grows_read_time [simp]: "grows w (snd (read_time w))"
  by (simp add: grows_def read_time_def)

lemma grows_map:
  assumes "grows w w'" "list_all (\<lambda>r. r < length (hosts w)) rs"
  shows "map ((!) (hosts w')) rs = map ((!) (hosts w)) rs"
  using assms growsD(2) by (auto simp: list_all_iff)

lemma grows_topology_ok: "grows w w' \<Longrightarrow> topology_ok (hosts w) t \<Longrightarrow> topology_ok (hosts w') t"
  by (auto simp: grows_def topology_ok_append)

lemma create_host_Some:
  assumes "cluster_instance_host svc = Some tm" "row_host (hosts w ! tm) row = Some h" "rows_ok [row]"
  shows "create_host svc row w = Inr (Some (length (hosts w)), w\<lparr>hosts := hosts w @ [h]\<rparr>)"
proof -
  obtain node sid updated lag where row: "row = (Some node, Some sid, updated, lag)"
    using assms(2,3) by (auto simp: rows_ok_def row_host_def split: prod.splits)
  then have h: "h = (HOST_INFO (get_host_endpoint (h_host (hosts w ! tm)) node) (h_port (hosts w ! tm)) UP (sid = WRITER_SESSION_ID))
      \<lparr>h_instance_name := node, h_session_id := sid, h_last_updated := opt_str updated, h_replica_lag := opt_str lag\<rparr>"
    using assms(2) by (simp add: row_host_def opt_str_def)
  show ?thesis
    unfolding create_host_def row h prod.case option.case assms(1) Let_def alloc_def HOST_INFO_2_def HOST_INFO_def
    by (cases "sid = WRITER_SESSION_ID") (simp_all add: mark_as_writer_def)
qed

lemma create_host_None:
  assumes "row_host (hosts w ! tm) row = None"
  shows "create_host svc row w = Inr (None, w)"
  using assms by (auto simp: create_host_def row_host_def split: prod.splits option.splits)

lemma row_host_up: "row_host tmpl row = Some h \<Longrightarrow> h_state h = UP"
  by (auto simp: row_host_def HOST_INFO_def split: prod.splits)

definition rows_inv :: "world \<Rightarrow> topology \<Rightarrow> (string \<times> ref) list \<Rightarrow> ref option \<Rightarrow> bool" where
  "rows_inv w t insts latest \<longleftrightarrow> topology_ok (hosts w) t \<and> writers t = [] \<and>
     fst ` set insts = h_instance_name ` set (map ((!) (hosts w)) (readers t)) \<and>
     (\<forall>l. latest = Some l \<longrightarrow> l < length (hosts w) \<and> h_is_writer (hosts w ! l))"

lemma rows_inv_readers: "rows_inv w t insts latest \<Longrightarrow> list_all (\<lambda>r. r < length (hosts w)) (readers t)"
  by (auto simp: rows_inv_def topology_ok_def get_instances_def)

lemma rows_inv_grows:
  assumes "rows_inv w t insts latest" "grows w w'"
  shows "rows_inv w' t insts latest"
proof -
  have "l < length (hosts w') \<and> h_is_writer (hosts w' ! l)" if "latest = Some l" for l
    using assms that growsD(1,2) [OF assms(2)] by (auto simp: rows_inv_def intro: less_le_trans)
  then show ?thesis
    using assms(1) grows_topology_ok [OF assms(2)] grows_map [OF assms(2) rows_inv_readers [OF assms(1)]]
    by (simp add: rows_inv_def)
qed

lemma rows_inv_latest:
  "rows_inv w t insts latest \<Longrightarrow> l < length (hosts w) \<Longrightarrow> h_is_writer (hosts w ! l) \<Longrightarrow> rows_inv w t insts (Some l)"
  by (simp add: rows_inv_def)

lemma rows_inv_add:
  assumes "rows_inv w t insts latest" "r < length (hosts w)" "r \<notin> set (readers t)" "\<not> h_is_writer (hosts w ! r)"
    and "add_host_now r (t, w) = (t', w')"
  shows "rows_inv w' t' ((h_instance_name (hosts w ! r), r) # insts) latest" "grows w w'"
    "readers t' = readers t @ [r]" "hosts w' = hosts w"
proof -
  obtain now where t': "t' = add_host (hosts w) now r t" and w': "w' = w\<lparr>time_tick := time_tick w + 1\<rparr>"
    using assms(5) by (auto simp: add_host_now_def read_time_def)
  have lists: "readers t' = readers t @ [r]" "writers t' = writers t"
    using assms(4) by (simp_all add: t' add_host_def)
  have "topology_ok (hosts w) t'"
    unfolding t' by (rule topology_ok_add_host) (use assms in \<open>auto simp: rows_inv_def get_instances_def\<close>)
  then show "rows_inv w' t' ((h_instance_name (hosts w ! r), r) # insts) latest"
    using assms(1) by (auto simp: rows_inv_def lists w')
  show "grows w w'" "readers t' = readers t @ [r]" "hosts w' = hosts w"
    by (simp_all add: grows_def w' lists)
qed

lemma instance_exists:
  "does_instance_exist insts w r =
     (if h_instance_name (hosts w ! r) \<in> fst ` set insts then (True, insts)
      else (False, (h_instance_name (hosts w ! r), r) # insts))"
  by (auto simp: does_instance_exist_def Let_def map_of_eq_None_iff split: option.splits)
    (metis option.distinct(1) map_of_eq_None_iff)

abbreviation reader_hosts :: "world \<Rightarrow> topology \<Rightarrow> host_info list" where
  "reader_hosts w t \<equiv> map ((!) (hosts w)) (readers t)"

lemma topology_rows_correct:
  assumes "cluster_instance_host svc = Some tm" "tm < length (hosts w)" "rows_ok rows"
    and "rows_inv w t insts latest" "row_hosts (hosts w ! tm) rows = hs"
  shows "\<exists>t' insts' latest' w'. topology_rows svc rows t insts latest w = Inr (t', insts', latest', w') \<and>
    grows w w' \<and> rows_inv w' t' insts' latest' \<and>
    reader_hosts w' t' = reader_hosts w t @ first_by_name (map fst insts) (filter (\<lambda>h. \<not> h_is_writer h) hs) \<and>
    map_option ((!) (hosts w')) latest' = latest_of (map_option ((!) (hosts w)) latest) (filter h_is_writer hs)"
  using assms
proof (induction rows arbitrary: w t insts latest hs)
  case Nil
  then show ?case by (auto simp: row_hosts_def List.map_filter_def)
next
  case (Cons row rows)
  have ok: "rows_ok rows" "rows_ok [row]" using Cons.prems(3) by (simp_all add: rows_ok_def)
  show ?case
  proof (cases "row_host (hosts w ! tm) row")
    case None
    then have "row_hosts (hosts w ! tm) rows = hs"
      using Cons.prems(5) by (simp add: row_hosts_def List.map_filter_simps)
    from Cons.IH [OF Cons.prems(1,2) ok(1) Cons.prems(4) this] create_host_None [OF None]
    show ?thesis by simp
  next
    case (Some h)
    define w1 where "w1 = w\<lparr>hosts := hosts w @ [h]\<rparr>"
    define r where "r = length (hosts w)"
    have g1: "grows w w1" by (simp add: grows_def w1_def)
    have tm1: "tm < length (hosts w1)" "hosts w1 ! tm = hosts w ! tm"
      using Cons.prems(2) by (simp_all add: w1_def nth_append)
    have r1: "hosts w1 ! r = h" "r < length (hosts w1)" by (simp_all add: w1_def r_def)
    define hs' where "hs' = row_hosts (hosts w ! tm) rows"
    have hs: "hs = h # hs'"
      using Cons.prems(5) Some by (simp add: row_hosts_def List.map_filter_simps hs'_def)
    have rh1: "row_hosts (hosts w1 ! tm) rows = hs'" by (simp add: tm1 hs'_def)
    have c: "create_host svc row w = Inr (Some r, w1)"
      using create_host_Some [OF Cons.prems(1) Some ok(2)] by (simp add: w1_def r_def)
    have inv1: "rows_inv w1 t insts latest" by (rule rows_inv_grows [OF Cons.prems(4) g1])
    have same: "reader_hosts w1 t = reader_hosts w t"
      by (rule grows_map [OF g1 rows_inv_readers [OF Cons.prems(4)]])
    have lat: "map_option ((!) (hosts w1)) latest = map_option ((!) (hosts w)) latest"
      using Cons.prems(4) growsD(2) [OF g1] by (cases latest) (auto simp: rows_inv_def)
    show ?thesis
    proof (cases "h_is_writer h")
      case True
      define latest1 where "latest1 = (case latest of None \<Rightarrow> Some r
        | Some l \<Rightarrow> if h_last_updated h > h_last_updated (hosts w1 ! l) then Some r else Some l)"
      have inv2: "rows_inv w1 t insts latest1"
        using inv1 rows_inv_latest [OF inv1 r1(2)] r1(1) True
        by (auto simp: latest1_def split: option.splits)
      have "topology_rows svc (row # rows) t insts latest w = topology_rows svc rows t insts latest1 w1"
        using True r1 by (simp add: c latest1_def split: option.splits)
      moreover have "latest_of (map_option ((!) (hosts w)) latest) (filter h_is_writer hs) =
          latest_of (map_option ((!) (hosts w1)) latest1) (filter h_is_writer hs')"
        using True r1 lat [symmetric] by (simp add: hs latest1_def split: option.splits)
      ultimately show ?thesis
        using Cons.IH [OF Cons.prems(1) tm1(1) ok(1) inv2 rh1] g1 True same hs
        by (auto intro: grows_trans)
    next
      case reader: False
      show ?thesis
      proof (cases "h_instance_name h \<in> fst ` set insts")
        case True
        have "topology_rows svc (row # rows) t insts latest w = topology_rows svc rows t insts latest w1"
          using True r1 reader by (simp add: c instance_exists)
        with Cons.IH [OF Cons.prems(1) tm1(1) ok(1) inv1 rh1] show ?thesis
          using g1 reader same lat hs True by (auto intro: grows_trans)
      next
        case False
        obtain t' w2 where a: "add_host_now r (t, w1) = (t', w2)" by fastforce
        have "r \<notin> set (readers t)"
          using rows_inv_readers [OF Cons.prems(4)] by (auto simp: r_def list_all_iff)
        note add = rows_inv_add [OF inv1 r1(2) this _ a]
        have rd: "\<not> h_is_writer (hosts w1 ! r)" using reader r1 by simp
        have step: "topology_rows svc (row # rows) t insts latest w =
            topology_rows svc rows t' ((h_instance_name h, r) # insts) latest w2"
          using False r1 reader a by (simp add: c instance_exists)
        have w2: "hosts w2 = hosts w1" "tm < length (hosts w2)" "row_hosts (hosts w2 ! tm) rows = hs'"
          using add(4) rd tm1 rh1 by simp_all
        have "reader_hosts w2 t' = reader_hosts w t @ [h]"
          using add(3) rd same r1 w2(1) by simp
        with Cons.IH [OF Cons.prems(1) w2(2) ok(1) add(1) w2(3)] step rd r1 hs reader False
          lat w2(1) grows_trans [OF g1 add(2) [OF rd]]
        show ?thesis by (force intro: grows_trans)
      qed
    qed
  qed
qed

lemma topology_of_rows_correct:
  assumes "cluster_instance_host svc = Some tm" "tm < length (hosts w)" "rows_ok rows"
  defines "hs \<equiv> row_hosts (hosts w ! tm) rows"
  obtains t w' where "topology_of_rows svc rows w = Inr (t, w')" "grows w w'" "topology_ok (hosts w') t"
    "map ((!) (hosts w')) (readers t) = topology_readers hs"
    "map ((!) (hosts w')) (writers t) = topology_writers hs"
proof -
  obtain now w1 where rt: "read_time w = (now, w1)" by fastforce
  have g1: "grows w w1" using grows_read_time [of w] by (simp add: rt)
  have tm1: "tm < length (hosts w1)" "row_hosts (hosts w1 ! tm) rows = hs"
    using growsD(1,2) [OF g1] assms(2) by (auto simp: hs_def)
  let ?t0 = "CLUSTER_TOPOLOGY_INFO now"
  have new: "readers ?t0 = []" "writers ?t0 = []" by (simp_all add: CLUSTER_TOPOLOGY_INFO_def)
  have "rows_inv w1 ?t0 [] None" by (simp add: rows_inv_def new)
  from topology_rows_correct [OF assms(1) tm1(1) assms(3) this tm1(2)]
  obtain t insts latest w2 where rows: "topology_rows svc rows ?t0 [] None w1 = Inr (t, insts, latest, w2)"
    and g2: "grows w1 w2" and inv: "rows_inv w2 t insts latest"
    and rd: "reader_hosts w2 t = topology_readers hs"
    and lat: "map_option ((!) (hosts w2)) latest = latest_of None (filter h_is_writer hs)"
    by (auto simp: new topology_readers_def)
  have names: "fst ` set insts = h_instance_name ` set (topology_readers hs)"
    and empty: "writers t = []" and ok: "topology_ok (hosts w2) t"
    using inv unfolding rows_inv_def rd by blast+
  show thesis
  proof (cases latest)
    case None
    with that [of t w2] rows grows_trans [OF g1 g2] ok rd lat empty show thesis
      by (simp add: topology_of_rows_def rt topology_writers_def)
  next
    case (Some l)
    have l: "l < length (hosts w2)" "h_is_writer (hosts w2 ! l)" using inv Some by (auto simp: rows_inv_def)
    have lw: "latest_of None (filter h_is_writer hs) = Some (hosts w2 ! l)" using lat Some by simp
    show thesis
    proof (cases "h_instance_name (hosts w2 ! l) \<in> h_instance_name ` set (topology_readers hs)")
      case True
      with that [of t w2] rows Some grows_trans [OF g1 g2] ok rd lw empty names show thesis
        by (simp add: topology_of_rows_def rt topology_writers_def instance_exists)
    next
      case False
      obtain t' w3 where a: "add_host_now l (t, w2) = (t', w3)" by fastforce
      then obtain now' where t': "t' = add_host (hosts w2) now' l t" and w3: "w3 = w2\<lparr>time_tick := time_tick w2 + 1\<rparr>"
        by (auto simp: add_host_now_def read_time_def)
      have "l \<notin> set (get_instances t)"
        using ok l(2) empty by (auto simp: topology_ok_def get_instances_def list_all_iff)
      then have "topology_ok (hosts w2) t'" unfolding t' by (rule topology_ok_add_host [OF ok l(1)])
      moreover have "readers t' = readers t" "writers t' = [l]" using l(2) empty by (simp_all add: t' add_host_def)
      moreover have "grows w2 w3" by (simp add: w3 grows_def)
      ultimately show thesis
        using that [of t' w3] rows Some a False names lw rd grows_trans [OF grows_trans [OF g1 g2], of w3]
        by (simp add: topology_of_rows_def rt topology_writers_def instance_exists w3)
    qed
  qed
qed

lemma first_by_name_names:
  "distinct (map h_instance_name (first_by_name seen hs)) \<and>
   h_instance_name ` set (first_by_name seen hs) \<inter> set seen = {}"
proof (induction seen hs rule: first_by_name.induct)
  case (2 seen h hs)
  show ?case
  proof (cases "h_instance_name h \<in> set seen")
    case True
    with 2(1) show ?thesis by simp
  next
    case False
    with 2(2) have "h_instance_name h \<notin> h_instance_name ` set (first_by_name (h_instance_name h # seen) hs)"
      by (simp add: disjoint_iff) blast
    with 2(2) False show ?thesis by (simp add: disjoint_iff)
  qed
qed simp

text \<open>Every instance is listed once, as reader or as writer.\<close>

lemma topology_names_distinct:
  "distinct (map h_instance_name (topology_writers hs @ topology_readers hs))"
proof -
  have "distinct (map h_instance_name (topology_readers hs))"
    using first_by_name_names by (simp add: topology_readers_def)
  then show ?thesis unfolding topology_writers_def
    by (cases "latest_of None (filter h_is_writer hs)") simp_all
qed

lemma query_for_topology_Some:
  assumes "cluster_instance_host svc = Some tm" "tm < length (hosts w)" "rows_ok rows" "exec conn = Some rows"
  obtains t w' where "query_for_topology exec svc (Some conn) w = Inr (Some (length (topos w)), w')"
    "topos w' = topos w @ [t]" "topology_cache w' = topology_cache w" "\<exists>xs. hosts w' = hosts w @ xs"
    "topology_ok (hosts w') t"
    "map ((!) (hosts w')) (readers t) = topology_readers (row_hosts (hosts w ! tm) rows)"
    "map ((!) (hosts w')) (writers t) = topology_writers (row_hosts (hosts w ! tm) rows)"
proof -
  obtain start w1 where rs: "read_steady w = (start, w1)" by fastforce
  then have w1: "w1 = w\<lparr>steady_tick := steady_tick w + 1\<rparr>" by (auto simp: read_steady_def)
  have "tm < length (hosts w1)" using assms(2) by (simp add: w1)
  from topology_of_rows_correct [OF assms(1) this assms(3)] obtain t w2
    where "topology_of_rows svc rows w1 = Inr (t, w2)" "grows w1 w2" "topology_ok (hosts w2) t"
    "map ((!) (hosts w2)) (readers t) = topology_readers (row_hosts (hosts w1 ! tm) rows)"
    "map ((!) (hosts w2)) (writers t) = topology_writers (row_hosts (hosts w1 ! tm) rows)" by blast
  with that show thesis
    by (auto simp: query_for_topology_def rs assms(4) try_execute_query_def alloc_def Let_def read_steady_def
        record_metric_def grows_def w1)
qed

lemma query_for_topology_None:
  assumes "try_execute_query exec connection = None" "query_for_topology exec svc connection w = Inr (r, w')"
  shows "r = None" "hosts w' = hosts w" "topos w' = topos w" "topology_cache w' = topology_cache w"
  using assms by (auto simp: query_for_topology_def read_steady_def record_metric_def Let_def)

text \<open>
  C10. When the topology query answers rows (with a session id for every server id), the service
  builds a well-formed topology in which every instance occurs once: the readers are the first
  reader row of each instance, in the order of the rows; there is at most one writer, the writer
  row with the greatest update time (the first of them when there are several), and it is left
  out exactly when its instance is also listed as a reader.
\<close>

theorem query_for_topology_correct:
  assumes "cluster_instance_host svc = Some tm" "tm < length (hosts w)" "rows_ok rows" "exec conn = Some rows"
  shows "\<exists>r w'. query_for_topology exec svc (Some conn) w = Inr (Some r, w') \<and>
    (let t = topos w' ! r; hs = row_hosts (hosts w ! tm) rows
     in topology_ok (hosts w') t \<and>
        map ((!) (hosts w')) (readers t) = topology_readers hs \<and>
        map ((!) (hosts w')) (writers t) = topology_writers hs \<and>
        length (writers t) \<le> 1 \<and>
        distinct (map (h_instance_name \<circ> (!) (hosts w')) (get_instances t)))"
proof -
  let ?hs = "row_hosts (hosts w ! tm) rows"
  obtain t w' where q: "query_for_topology exec svc (Some conn) w = Inr (Some (length (topos w)), w')"
    and ts: "topos w' = topos w @ [t]" and ok: "topology_ok (hosts w') t"
    and rd: "map ((!) (hosts w')) (readers t) = topology_readers ?hs"
    and wr: "map ((!) (hosts w')) (writers t) = topology_writers ?hs"
    by (rule query_for_topology_Some [OF assms(1-3), of exec conn]) (use assms(4) in simp_all)
  have "length (writers t) = length (topology_writers ?hs)" using wr by (metis length_map)
  then have "length (writers t) \<le> 1" by (simp add: topology_writers_def split: option.splits)
  moreover have "map (h_instance_name \<circ> (!) (hosts w')) (get_instances t) =
      map h_instance_name (topology_writers ?hs @ topology_readers ?hs)"
    by (simp add: get_instances_def rd [symmetric] wr [symmetric])
  then have "distinct (map (h_instance_name \<circ> (!) (hosts w')) (get_instances t))"
    using topology_names_distinct by metis
  ultimately show ?thesis using q ts ok rd wr by (auto simp: Let_def)
qed

theorem query_for_topology_correct_witness:
  "let w = \<lparr>hosts = [HOST_INFO_2 ''?.x'' 3306], topos = [], topology_cache = [], time_clock = (\<lambda>_. 0), time_tick = 0,
            steady_clock = (\<lambda>_. 0), steady_tick = 0, metrics = []\<rparr>;
       svc = set_cluster_instance_template 0 (TOPOLOGY_SERVICE []);
       rows = [(Some ''a'', Some ''s1'', Some ''2'', None), (Some ''b'', Some WRITER_SESSION_ID, Some ''1'', None),
               (Some ''c'', Some WRITER_SESSION_ID, Some ''2'', None), (Some ''a'', Some ''s2'', Some ''1'', None)]
   in map h_instance_name (topology_writers (row_hosts (hosts w ! 0) rows)) = [''c''] \<and>
      map h_instance_name (topology_readers (row_hosts (hosts w ! 0) rows)) = [''a''] \<and>
      (\<exists>r w'. query_for_topology (\<lambda>_. Some rows) svc (Some ()) w = Inr (Some r, w') \<and>
         map ((!) (hosts w')) (writers (topos w' ! r)) = topology_writers (row_hosts (hosts w ! 0) rows))"
proof -
  define w where "w = \<lparr>hosts = [HOST_INFO_2 ''?.x'' 3306], topos = [], topology_cache = [], time_clock = (\<lambda>_. 0), time_tick = 0,
            steady_clock = (\<lambda>_. 0), steady_tick = 0, metrics = []\<rparr>"
  define svc where "svc = set_cluster_instance_template 0 (TOPOLOGY_SERVICE [])"
  define rows :: "row list" where "rows = [(Some ''a'', Some ''s1'', Some ''2'', None), (Some ''b'', Some WRITER_SESSION_ID, Some ''1'', None),
               (Some ''c'', Some WRITER_SESSION_ID, Some ''2'', None), (Some ''a'', Some ''s2'', Some ''1'', None)]"
  have 1: "cluster_instance_host svc = Some 0" by (simp add: svc_def set_cluster_instance_template_def)
  have 2: "0 < length (hosts w)" by (simp add: w_def)
  have 3: "rows_ok rows" by (simp add: rows_def rows_ok_def)
  have 4: "(\<lambda>_. Some rows) () = Some rows" by simp
  let ?hs = "row_hosts (hosts w ! 0) rows"
  have w: "filter h_is_writer ?hs = drop 1 (take 3 ?hs)" "filter (\<lambda>h. \<not> h_is_writer h) ?hs = [?hs ! 0, ?hs ! 3]"
    "map h_instance_name ?hs = [''a'', ''b'', ''c'', ''a'']" "map h_last_updated ?hs = [''2'', ''1'', ''2'', ''1'']"
    by (simp_all add: row_hosts_def rows_def List.map_filter_simps row_host_def opt_str_def HOST_INFO_def WRITER_SESSION_ID_def)
  obtain a b c d where hs: "?hs = [a, b, c, d]"
    using w(3) by (auto simp: map_eq_Cons_conv)
  have "map h_instance_name (topology_readers ?hs) = [''a'']"
    using w(2,3) by (simp add: topology_readers_def hs)
  moreover from this have "topology_writers ?hs = [c]"
    using w(1,3,4) unfolding topology_writers_def by (auto simp: hs simp flip: set_map)
  ultimately have "map h_instance_name (topology_writers ?hs) = [''c'']" "map h_instance_name (topology_readers ?hs) = [''a'']"
    using w(3) by (simp_all add: hs)
  with query_for_topology_correct [OF 1 2 3, of "\<lambda>_. Some rows" "()", OF 4] show ?thesis
    unfolding w_def [symmetric] svc_def [symmetric] rows_def [symmetric] Let_def by blast
qed

section \<open>The cache\<close>

text \<open>A fresh cached topology is one that \<open>refresh_needed\<close> does not reject at the next reading of the clock.\<close>

definition cached_fresh :: "tsvc \<Rightarrow> world \<Rightarrow> ref \<Rightarrow> bool" where
  "cached_fresh svc w t \<longleftrightarrow> \<not> fst (refresh_needed svc (last_updated (topos w ! t)) w)"

lemma get_from_cache_eq:
  "get_from_cache svc w = (map_of (topology_cache w) (cluster_id svc),
     record_metric (Use_cached_topology (map_of (topology_cache w) (cluster_id svc) \<noteq> None)) w)"
  by (auto simp: get_from_cache_def split: option.splits)

lemma record_metric_simps [simp]:
  "hosts (record_metric m w) = hosts w" "topos (record_metric m w) = topos w"
  "topology_cache (record_metric m w) = topology_cache w"
  "time_clock (record_metric m w) = time_clock w" "time_tick (record_metric m w) = time_tick w"
  by (simp_all add: record_metric_def)

lemma refresh_needed_metric: "fst (refresh_needed svc u (record_metric m w)) = fst (refresh_needed svc u w)"
  by (simp add: refresh_needed_def read_time_def)

lemma refresh_needed_frame:
  "refresh_needed svc u w = (b, w') \<Longrightarrow> hosts w' = hosts w \<and> topos w' = topos w \<and> topology_cache w' = topology_cache w"
  by (auto simp: refresh_needed_def read_time_def Let_def)

lemma put_to_cache_lookup:
  "map_of (topology_cache (put_to_cache svc t w)) = (map_of (topology_cache w))(cluster_id svc \<mapsto> t)"
  "hosts (put_to_cache svc t w) = hosts w" "topos (put_to_cache svc t w) = topos w"
  by (simp_all add: put_to_cache_def AList.update_conv')

text \<open>The part of \<open>get_topology\<close> before the query: whether to query, and the state then.\<close>

lemma get_topology_split:
  obtains w2 where "hosts w2 = hosts w" "topos w2 = topos w" "topology_cache w2 = topology_cache w"
    "get_topology exec svc connection force w =
       (let cached = map_of (topology_cache w) (cluster_id svc)
        in if force \<or> (case cached of None \<Rightarrow> True | Some t \<Rightarrow> \<not> cached_fresh svc w t)
           then (case query_for_topology exec svc connection w2 of
                   Inl e \<Rightarrow> Inl e
                 | Inr (Some latest, w3) \<Rightarrow> Inr (Some latest, put_to_cache svc latest w3)
                 | Inr (None, w3) \<Rightarrow> Inr (cached, w3))
           else Inr (cached, w2))"
proof (cases "map_of (topology_cache w) (cluster_id svc)")
  case None
  with that [of "record_metric (Use_cached_topology False) w"] show thesis
    by (simp add: get_topology_def get_from_cache_eq)
next
  case (Some t)
  let ?w1 = "record_metric (Use_cached_topology True) w"
  show thesis
  proof (cases force)
    case True
    with that [of ?w1] Some show thesis by (simp add: get_topology_def get_from_cache_eq)
  next
    case False
    obtain b w2 where r: "refresh_needed svc (last_updated (topos ?w1 ! t)) ?w1 = (b, w2)" by fastforce
    have b: "b = (\<not> cached_fresh svc w t)"
      using arg_cong [OF r, of fst] by (simp add: cached_fresh_def refresh_needed_metric)
    have "get_topology exec svc connection force w =
       (if b then (case query_for_topology exec svc connection w2 of
                   Inl e \<Rightarrow> Inl e
                 | Inr (Some latest, w3) \<Rightarrow> Inr (Some latest, put_to_cache svc latest w3)
                 | Inr (None, w3) \<Rightarrow> Inr (Some t, w3))
           else Inr (Some t, w2))"
      using Some False r by (simp add: get_topology_def get_from_cache_eq)
    with that [of w2] refresh_needed_frame [OF r] Some False b show thesis by simp
  qed
qed

text \<open>
  C11. \<open>get_topology\<close> answers the cached topology of its cluster without asking the connection
  when that is fresh and no update is forced. Otherwise it asks: a topology the query yields is
  answered and replaces the cached one of this cluster only; when the query fails, the cached
  topology (or null) is answered and the cache is unchanged.
\<close>

theorem get_topology_contract:
  assumes "cluster_instance_host svc = Some tm" "tm < length (hosts w)"
    and "map_of (topology_cache w) (cluster_id svc) = cached"
  shows "(\<not> force \<and> cached = Some t \<and> cached_fresh svc w t \<longrightarrow>
       (\<exists>w'. get_topology exec svc conn force w = Inr (Some t, w') \<and> hosts w' = hosts w \<and>
          topos w' = topos w \<and> topology_cache w' = topology_cache w)) \<and>
    ((force \<or> cached = None \<or> \<not> cached_fresh svc w (the cached)) \<and>
      try_execute_query exec conn = Some rows \<and> rows_ok rows \<longrightarrow>
       (\<exists>w' ti. get_topology exec svc conn force w = Inr (Some (length (topos w)), w') \<and>
          topos w' = topos w @ [ti] \<and>
          map ((!) (hosts w')) (get_instances ti) =
            (let hs = row_hosts (hosts w ! tm) rows in topology_writers hs @ topology_readers hs) \<and>
          map_of (topology_cache w') = (map_of (topology_cache w))(cluster_id svc \<mapsto> length (topos w)))) \<and>
    ((force \<or> cached = None \<or> \<not> cached_fresh svc w (the cached)) \<and>
      try_execute_query exec conn = None \<longrightarrow>
       (\<exists>w'. get_topology exec svc conn force w = Inr (cached, w') \<and> hosts w' = hosts w \<and>
          topos w' = topos w \<and> topology_cache w' = topology_cache w))"
proof -
  obtain w2 where w2: "hosts w2 = hosts w" "topos w2 = topos w" "topology_cache w2 = topology_cache w"
    and eq: "get_topology exec svc conn force w =
       (if force \<or> (case cached of None \<Rightarrow> True | Some t \<Rightarrow> \<not> cached_fresh svc w t)
        then (case query_for_topology exec svc conn w2 of
                   Inl e \<Rightarrow> Inl e
                 | Inr (Some latest, w3) \<Rightarrow> Inr (Some latest, put_to_cache svc latest w3)
                 | Inr (None, w3) \<Rightarrow> Inr (cached, w3))
        else Inr (cached, w2))"
    by (rule get_topology_split [of w exec svc conn force, unfolded Let_def assms(3)])
  have need: "(force \<or> (case cached of None \<Rightarrow> True | Some t \<Rightarrow> \<not> cached_fresh svc w t)) \<longleftrightarrow>
    force \<or> cached = None \<or> \<not> cached_fresh svc w (the cached)" by (cases cached) auto
  show ?thesis
  proof (intro conjI impI)
    assume "\<not> force \<and> cached = Some t \<and> cached_fresh svc w t"
    then show "\<exists>w'. get_topology exec svc conn force w = Inr (Some t, w') \<and> hosts w' = hosts w \<and>
          topos w' = topos w \<and> topology_cache w' = topology_cache w"
      unfolding eq using w2 by simp
  next
    assume a: "(force \<or> cached = None \<or> \<not> cached_fresh svc w (the cached)) \<and>
      try_execute_query exec conn = Some rows \<and> rows_ok rows"
    then obtain c where conn: "conn = Some c" "exec c = Some rows"
      by (auto simp: try_execute_query_def split: option.splits)
    have tm2: "tm < length (hosts w2)" and ok: "rows_ok rows" using assms(2) w2 a by simp_all
    obtain ti w' where "query_for_topology exec svc (Some c) w2 = Inr (Some (length (topos w2)), w')"
      "topos w' = topos w2 @ [ti]" "topology_cache w' = topology_cache w2"
      "map ((!) (hosts w')) (readers ti) = topology_readers (row_hosts (hosts w2 ! tm) rows)"
      "map ((!) (hosts w')) (writers ti) = topology_writers (row_hosts (hosts w2 ! tm) rows)"
      by (rule query_for_topology_Some [OF assms(1) tm2 ok, of exec c]) (use conn(2) in simp_all)
    with a conn w2 show "\<exists>w' ti. get_topology exec svc conn force w = Inr (Some (length (topos w)), w') \<and>
          topos w' = topos w @ [ti] \<and>
          map ((!) (hosts w')) (get_instances ti) =
            (let hs = row_hosts (hosts w ! tm) rows in topology_writers hs @ topology_readers hs) \<and>
          map_of (topology_cache w') = (map_of (topology_cache w))(cluster_id svc \<mapsto> length (topos w))"
      unfolding eq need
      by (intro exI [of _ "put_to_cache svc (length (topos w)) w'"] exI [of _ ti])
        (simp add: put_to_cache_lookup get_instances_def Let_def)
  next
    assume a: "(force \<or> cached = None \<or> \<not> cached_fresh svc w (the cached)) \<and> try_execute_query exec conn = None"
    then obtain r w' where "query_for_topology exec svc conn w2 = Inr (r, w')"
      by (cases "read_steady w2") (simp add: query_for_topology_def Let_def)
    with query_for_topology_None [OF _ this] a w2
    show "\<exists>w'. get_topology exec svc conn force w = Inr (cached, w') \<and> hosts w' = hosts w \<and>
          topos w' = topos w \<and> topology_cache w' = topology_cache w"
      unfolding eq need by simp
  qed
qed

theorem get_topology_contract_witness:
  "let w = \<lparr>hosts = [HOST_INFO_2 ''?.x'' 3306], topos = [CLUSTER_TOPOLOGY_INFO 100], topology_cache = [(''c'', 0)],
            time_clock = (\<lambda>_. 120), time_tick = 0, steady_clock = (\<lambda>_. 0), steady_tick = 0, metrics = []\<rparr>;
       svc = set_cluster_instance_template 0 (TOPOLOGY_SERVICE ''c'')
   in (\<exists>w'. get_topology (\<lambda>_. None) svc (Some ()) False w = Inr (Some 0, w') \<and> topology_cache w' = [(''c'', 0)]) \<and>
      (\<exists>w' ti. get_topology (\<lambda>_. Some []) svc (Some ()) True w = Inr (Some 1, w') \<and> topos w' = topos w @ [ti])"
proof -
  define w where "w = \<lparr>hosts = [HOST_INFO_2 ''?.x'' 3306], topos = [CLUSTER_TOPOLOGY_INFO 100], topology_cache = [(''c'', 0)],
            time_clock = (\<lambda>_. 120), time_tick = 0, steady_clock = (\<lambda>_. 0), steady_tick = 0, metrics = []\<rparr>"
  define svc where "svc = set_cluster_instance_template 0 (TOPOLOGY_SERVICE ''c'')"
  have 1: "cluster_instance_host svc = Some 0" by (simp add: svc_def set_cluster_instance_template_def)
  have 2: "0 < length (hosts w)" "length (topos w) = 1" by (simp_all add: w_def)
  have 3: "map_of (topology_cache w) (cluster_id svc) = Some 0"
    by (simp add: w_def svc_def set_cluster_instance_template_def TOPOLOGY_SERVICE_def)
  have fresh: "cached_fresh svc w 0"
    by (simp add: cached_fresh_def refresh_needed_def read_time_def w_def svc_def set_cluster_instance_template_def
      TOPOLOGY_SERVICE_def DEFAULT_REFRESH_RATE_IN_MILLISECONDS_def CLUSTER_TOPOLOGY_INFO_def)
  have "\<exists>w'. get_topology (\<lambda>_. None) svc (Some ()) False w = Inr (Some 0, w') \<and> topology_cache w' = topology_cache w"
    using get_topology_contract [OF 1 2(1) 3, of False 0 "\<lambda>_. None" "Some ()" "[]"] fresh by blast
  moreover have "\<exists>w' ti. get_topology (\<lambda>_. Some []) svc (Some ()) True w = Inr (Some 1, w') \<and> topos w' = topos w @ [ti]"
    using get_topology_contract [OF 1 2(1) 3, of True 0 "\<lambda>_. Some []" "Some ()" "[]"] 2(2)
    by (auto simp: try_execute_query_def rows_ok_def)
  moreover have "topology_cache w = [(''c'', 0)]" by (simp add: w_def)
  ultimately show ?thesis unfolding w_def [symmetric] svc_def [symmetric] Let_def by simp
qed

section \<open>Endpoints of instances\<close>

lemma replace_question_mark: "get_host_endpoint (CHR ''?'' # s) node = node @ s"
  by (simp add: get_host_endpoint_def replace_str_def)

text \<open>
  When the template of the service is the host pattern taken from any endpoint of a cluster
  (an instance, writer, reader, custom or proxy endpoint), the host created for a row of the
  topology query has the instance endpoint of that node in the same cluster as its host name,
  the port of the template, and the node's name as host id: the id by which custom endpoints
  allow and block hosts.
\<close>

theorem created_host_is_instance_endpoint:
  assumes "rds_parts i a x y" "rds_parts node [] x y"
    and "cluster_instance_host svc = Some tm" "tm < length (hosts w)"
    and "h_host (hosts w ! tm) = get_rds_instance_host_pattern (rds_endpoint i a x y)"
  shows "\<exists>r w'. create_host svc (Some node, Some session, updated, lag) w = Inr (Some r, w') \<and>
    h_host (hosts w' ! r) = rds_endpoint node [] x y \<and> h_port (hosts w' ! r) = h_port (hosts w ! tm) \<and>
    h_host_id (hosts w' ! r) = node \<and> h_instance_name (hosts w' ! r) = node \<and>
    h_is_writer (hosts w' ! r) = (session = WRITER_SESSION_ID)"
proof -
  have pattern: "h_host (hosts w ! tm) = CHR ''?'' # CHR ''.'' # x @ CHR ''.'' # y @ ''.rds.amazonaws.com''"
    using assms(5) search_endpoint [OF assms(1)] by (simp add: get_rds_instance_host_pattern_def
      instance_host_pattern_of_def first_nonempty_def group_str_def match_size_DNS)
  have id: "get_rds_instance_id (rds_endpoint node [] x y) = node"
    using search_endpoint [OF assms(2)] assms(2) by (simp add: get_rds_instance_id_def
      instance_id_of_def first_nonempty_def group_str_def match_size_DNS rds_parts_def rds_identifier_def)
  have ep: "get_host_endpoint (h_host (hosts w ! tm)) node = rds_endpoint node [] x y"
    by (simp add: pattern replace_question_mark rds_endpoint_def)
  let ?row = "(Some node, Some session, updated, lag)"
  obtain h where h: "row_host (hosts w ! tm) ?row = Some h" by (simp add: row_host_def)
  then have "h_host h = rds_endpoint node [] x y" "h_port h = h_port (hosts w ! tm)" "h_host_id h = node"
    "h_instance_name h = node" "h_is_writer h = (session = WRITER_SESSION_ID)"
    by (auto simp: row_host_def HOST_INFO_def ep id opt_str_def)
  moreover have "create_host svc ?row w = Inr (Some (length (hosts w)), w\<lparr>hosts := hosts w @ [h]\<rparr>)"
    by (rule create_host_Some [OF assms(3) h]) (simp add: rows_ok_def)
  ultimately show ?thesis by simp
qed

theorem created_host_is_instance_endpoint_witness:
  "let w = \<lparr>hosts = [HOST_INFO_2 (get_rds_instance_host_pattern (rds_endpoint ''db'' ''cluster-'' ''X'' ''r-1'')) 3306],
            topos = [], topology_cache = [], time_clock = (\<lambda>_. 0), time_tick = 0, steady_clock = (\<lambda>_. 0),
            steady_tick = 0, metrics = []\<rparr>
   in \<exists>r w'. create_host (set_cluster_instance_template 0 (TOPOLOGY_SERVICE [])) (Some ''n1'', Some ''s'', None, None) w =
        Inr (Some r, w') \<and> h_host (hosts w' ! r) = ''n1.X.r-1.rds.amazonaws.com''"
proof -
  define w where "w = \<lparr>hosts = [HOST_INFO_2 (get_rds_instance_host_pattern (rds_endpoint ''db'' ''cluster-'' ''X'' ''r-1'')) 3306],
            topos = [], topology_cache = [], time_clock = (\<lambda>_. 0), time_tick = 0, steady_clock = (\<lambda>_. 0),
            steady_tick = 0, metrics = []\<rparr>"
  have "rds_parts ''db'' ''cluster-'' ''X'' ''r-1''" "rds_parts ''n1'' [] ''X'' ''r-1''"
    by (simp_all add: rds_parts_def rds_identifier_def known_prefixes_def alnum_dash_char_def alnum_char_code)
  moreover have "cluster_instance_host (set_cluster_instance_template 0 (TOPOLOGY_SERVICE [])) = Some 0"
    by (simp add: set_cluster_instance_template_def)
  moreover have "0 < length (hosts w)"
    "h_host (hosts w ! 0) = get_rds_instance_host_pattern (rds_endpoint ''db'' ''cluster-'' ''X'' ''r-1'')"
    by (simp_all add: w_def HOST_INFO_2_def HOST_INFO_def)
  ultimately have "\<exists>r w'. create_host (set_cluster_instance_template 0 (TOPOLOGY_SERVICE [])) (Some ''n1'', Some ''s'', None, None) w =
        Inr (Some r, w') \<and> h_host (hosts w' ! r) = rds_endpoint ''n1'' [] ''X'' ''r-1''"
    using created_host_is_instance_endpoint by blast
  then show ?thesis unfolding w_def [symmetric] Let_def by (simp add: rds_endpoint_def)
qed

section \<open>Filtering and host availability\<close>

lemma add_host_now_simps:
  "hosts (snd (add_host_now r (t, w))) = hosts w"
  "writers (fst (add_host_now r (t, w))) = writers t @ (if h_is_writer (hosts w ! r) then [r] else [])"
  "readers (fst (add_host_now r (t, w))) = readers t @ (if h_is_writer (hosts w ! r) then [] else [r])"
  "grows w (snd (add_host_now r (t, w)))"
  by (simp_all add: add_host_now_def read_time_def add_host_def grows_def)

lemma add_allowed_eq:
  assumes "add_allowed al bl rs (t, w) = (t', w')"
  shows "grows w w' \<and> hosts w' = hosts w \<and>
    writers t' = writers t @ filter (\<lambda>r. allowed_host al bl (hosts w ! r) \<and> h_is_writer (hosts w ! r)) rs \<and>
    readers t' = readers t @ filter (\<lambda>r. allowed_host al bl (hosts w ! r) \<and> \<not> h_is_writer (hosts w ! r)) rs"
  using assms
proof (induction rs arbitrary: t w)
  case (Cons r rs)
  show ?case
  proof (cases "allowed_host al bl (hosts w ! r)")
    case True
    obtain t1 w1 where a: "add_host_now r (t, w) = (t1, w1)" by fastforce
    note f = add_host_now_simps [where r = r and t = t and w = w, unfolded a fst_conv snd_conv]
    have "add_allowed al bl rs (t1, w1) = (t', w')" using Cons.prems True a by simp
    from Cons.IH [OF this] f True show ?thesis by (auto intro: grows_trans)
  qed (use Cons in auto)
qed simp

text \<open>The hosts that the custom endpoint allows, if one is set.\<close>

definition allowed_by :: "tsvc \<Rightarrow> host_info \<Rightarrow> bool" where
  "allowed_by svc hi \<longleftrightarrow> (case allowed_and_blocked_hosts svc of None \<Rightarrow> True | Some (al, bl) \<Rightarrow> allowed_host al bl hi)"

lemma filtered_allowed:
  assumes "get_filtered_topology svc (Some t) w = Inr (ft, w')"
  shows "hosts w' = hosts w \<and> (\<exists>xs. topos w' = topos w @ xs) \<and>
    (\<exists>f. ft = Some f \<and> (\<forall>x \<in> set (get_instances (topos w' ! f)). allowed_by svc (hosts w ! x) \<and> x \<in> set (get_instances (topos w ! t))))"
proof (cases "allowed_and_blocked_hosts svc")
  case None
  then show ?thesis using assms by (auto simp: get_filtered_topology_def allowed_by_def)
next
  case (Some ab)
  obtain al bl where ab: "ab = (al, bl)" by fastforce
  let ?w1 = "w\<lparr>time_tick := time_tick w + 1\<rparr>" and ?t0 = "CLUSTER_TOPOLOGY_INFO (time_clock w (time_tick w))"
  obtain t' w2 where a: "add_allowed al bl (get_instances (topos w ! t)) (?t0, ?w1) = (t', w2)" by fastforce
  have "ft = Some (length (topos w2))" "w' = w2\<lparr>topos := topos w2 @ [t']\<rparr>"
    using assms a Some ab by (auto simp: get_filtered_topology_def read_time_def alloc_def)
  moreover have "topos w2 = topos w" "hosts w2 = hosts w" using add_allowed_eq [OF a] growsD(3) by fastforce+
  ultimately show ?thesis
    using add_allowed_eq [OF a] Some ab
    by (auto simp: allowed_by_def get_instances_def CLUSTER_TOPOLOGY_INFO_def)
qed

lemma filter_none: "\<forall>x \<in> set xs. \<not> P x \<Longrightarrow> filter (\<lambda>x. Q x \<and> P x) xs = []"
  and filter_all: "\<forall>x \<in> set xs. P x \<Longrightarrow> filter (\<lambda>x. Q x \<and> P x) xs = filter Q xs"
  by (auto simp: filter_empty_conv intro: filter_cong)



lemma mark_down_world:
  assumes "map_of (topology_cache w) (cluster_id svc) = Some t"
  shows "svc_mark_host_down svc (Some h) w =
    (record_metric (Use_cached_topology True) w)
      \<lparr>hosts := fst (mark_host_down (hosts w) h (topos w ! t)),
       topos := (topos w)[t := snd (mark_host_down (hosts w) h (topos w ! t))]\<rparr>"
  using assms by (simp add: svc_mark_host_down_def get_from_cache_eq split: prod.split)

lemma mark_up_world:
  assumes "map_of (topology_cache w) (cluster_id svc) = Some t"
  shows "svc_mark_host_up svc (Some h) w =
    (record_metric (Use_cached_topology True) w)
      \<lparr>hosts := fst (mark_host_up (hosts w) h (topos w ! t)),
       topos := (topos w)[t := snd (mark_host_up (hosts w) h (topos w ! t))]\<rparr>"
  using assms by (simp add: svc_mark_host_up_def get_from_cache_eq split: prod.split)

text \<open>
  Marking a host down through the service sets the state of the shared host object, lists
  its host:port among the down hosts of the cached topology and touches no other host; marking
  it up again sets the state back and takes exactly that host:port off the list. Without a cached
  topology for the cluster nothing is recorded.
\<close>

theorem mark_host_down_up:
  assumes "map_of (topology_cache w) (cluster_id svc) = Some t" "t < length (topos w)" "h < length (hosts w)"
  defines "w1 \<equiv> svc_mark_host_down svc (Some h) w"
  defines "w2 \<equiv> svc_mark_host_up svc (Some h) w1"
  shows "hosts w1 = (hosts w)[h := set_host_state DOWN (hosts w ! h)] \<and>
    fst (get_down_hosts svc w1) = insert (get_host_port_pair (hosts w ! h)) (fst (get_down_hosts svc w)) \<and>
    hosts w2 = (hosts w)[h := set_host_state UP (hosts w ! h)] \<and>
    fst (get_down_hosts svc w2) = fst (get_down_hosts svc w) - {get_host_port_pair (hosts w ! h)} \<and>
    (topology_cache v = [] \<longrightarrow> hosts (svc_mark_host_down svc (Some h) v) = hosts v)"
proof -
  have c1: "map_of (topology_cache w1) (cluster_id svc) = Some t"
    using assms(1) by (simp add: w1_def mark_down_world)
  have w1: "hosts w1 = modify h (set_host_state DOWN) (hosts w)" "t < length (topos w1)"
    "topos w1 ! t = (topos w ! t)\<lparr>down_hosts := insert (get_host_port_pair (hosts w ! h)) (down_hosts (topos w ! t))\<rparr>"
    using assms(1-3) by (simp_all add: w1_def mark_down_world mark_host_down_def Let_def modify_same)
  have w2: "hosts w2 = modify h (set_host_state UP) (hosts w1)"
    "map_of (topology_cache w2) (cluster_id svc) = Some t"
    "down_hosts (topos w2 ! t) = down_hosts (topos w1 ! t) - {get_host_port_pair (hosts w ! h)}"
    using c1 w1 assms(3) by (simp_all add: w2_def mark_up_world mark_host_up_def Let_def modify_same)
  have h: "hosts w1 = (hosts w)[h := set_host_state DOWN (hosts w ! h)]"
    "hosts w2 = (hosts w)[h := set_host_state UP (hosts w ! h)]"
    using assms(3) w1(1) w2(1) by (simp_all add: modify_def set_host_state_def)
  have d: "fst (get_down_hosts svc v) = down_hosts (topos v ! t)"
    if "map_of (topology_cache v) (cluster_id svc) = Some t" for v
    using that by (simp add: get_down_hosts_def get_from_cache_eq)
  have "topology_cache v = [] \<longrightarrow> hosts (svc_mark_host_down svc (Some h) v) = hosts v"
    by (simp add: svc_mark_host_down_def get_from_cache_eq)
  then show ?thesis
    unfolding d [OF assms(1)] d [OF c1] d [OF w2(2)] w2(3) w1(3) using h by auto
qed

theorem mark_host_down_up_witness:
  "let w = \<lparr>hosts = [HOST_INFO_2 ''a'' 1], topos = [CLUSTER_TOPOLOGY_INFO 0], topology_cache = [(''c'', 0)],
            time_clock = (\<lambda>_. 0), time_tick = 0, steady_clock = (\<lambda>_. 0), steady_tick = 0, metrics = []\<rparr>
   in fst (get_down_hosts (TOPOLOGY_SERVICE ''c'') (svc_mark_host_down (TOPOLOGY_SERVICE ''c'') (Some 0) w)) = {''a:1''}"
proof -
  define w where "w = \<lparr>hosts = [HOST_INFO_2 ''a'' 1], topos = [CLUSTER_TOPOLOGY_INFO 0], topology_cache = [(''c'', 0)],
            time_clock = (\<lambda>_. 0), time_tick = 0, steady_clock = (\<lambda>_. 0), steady_tick = 0, metrics = []\<rparr>"
  have 1: "map_of (topology_cache w) (cluster_id (TOPOLOGY_SERVICE ''c'')) = Some 0" "0 < length (topos w)" "0 < length (hosts w)"
    by (simp_all add: w_def TOPOLOGY_SERVICE_def)
  have "to_string 1 = ''1''" by code_simp
  then have "get_host_port_pair (hosts w ! 0) = ''a:1''" "fst (get_down_hosts (TOPOLOGY_SERVICE ''c'') w) = {}"
    by (simp_all add: w_def HOST_INFO_2_def HOST_INFO_def get_host_port_pair_def
      get_down_hosts_def get_from_cache_eq TOPOLOGY_SERVICE_def CLUSTER_TOPOLOGY_INFO_def)
  with mark_host_down_up [OF 1, of w] show ?thesis unfolding w_def [symmetric] Let_def by simp
qed

end
