(* ===== verification/Failover_Sync.thy ===== *)
theory Failover_Sync
  imports Driver_Prelude
begin

text \<open>
  What the failover tasks share (\<^verbatim>\<open>driver/failover.h\<close> and the first part of
  \<^verbatim>\<open>driver/failover_writer_handler.cc\<close>): \<^verbatim>\<open>FAILOVER_SYNC\<close> and the base class
  \<^verbatim>\<open>FAILOVER\<close>, and the notion of a concurrent system used for both failover processes. A
  state is stepped by one thread at a time; each step is one access to what the threads share.
\<close>

section \<open>Step systems\<close>

inductive reachable :: "('s \<Rightarrow> bool) \<Rightarrow> ('s \<Rightarrow> 's \<Rightarrow> bool) \<Rightarrow> 's \<Rightarrow> bool"
  for start :: "'s \<Rightarrow> bool" and step :: "'s \<Rightarrow> 's \<Rightarrow> bool" where
  start: "start s \<Longrightarrow> reachable start step s"
| step: "reachable start step s \<Longrightarrow> step s s' \<Longrightarrow> reachable start step s'"

locale step_system =
  fixes start :: "'s \<Rightarrow> bool"
    and step :: "'s \<Rightarrow> 's \<Rightarrow> bool"
    and inv :: "'s \<Rightarrow> bool"
  assumes start_inv: "start s \<Longrightarrow> inv s"
    and step_inv: "inv s \<Longrightarrow> step s s' \<Longrightarrow> inv s'"
begin

lemma reachable_inv: "reachable start step s \<Longrightarrow> inv s"
  by (induction rule: reachable.induct) (auto intro: start_inv step_inv)

end

section \<open>The shared state\<close>

text \<open>
  A connection is a number; \<open>conns\<close> records for each the host it was opened to and whether it is
  connected, \<open>closed\<close> the ones that have been deleted. \<open>marks\<close> is the sequence of calls
  \<^verbatim>\<open>mark_host_up\<close> (true) and \<^verbatim>\<open>mark_host_down\<close> (false) of the topology service.
\<close>

type_synonym conn = nat

record shared =
  num_tasks :: int
  conns :: "(ref \<times> bool) list"
  closed :: "conn set"
  marks :: "(bool \<times> ref) list"

subsection \<open>\<^verbatim>\<open>FAILOVER_SYNC\<close>\<close>

definition is_completed :: "shared \<Rightarrow> bool" where
  "is_completed s \<longleftrightarrow> num_tasks s \<le> 0"

definition increment_task :: "shared \<Rightarrow> shared" where
  "increment_task s = s\<lparr>num_tasks := num_tasks s + 1\<rparr>"

definition mark_as_complete :: "bool \<Rightarrow> shared \<Rightarrow> shared res" where
  "mark_as_complete cancel_other_tasks s =
     (if cancel_other_tasks then Inr (s\<lparr>num_tasks := 0\<rparr>)
      else if num_tasks s \<le> 0
      then Inl (Runtime_error ''Trying to cancel a failover process that is already done.'')
      else Inr (s\<lparr>num_tasks := num_tasks s - 1\<rparr>))"

text \<open>
  \<^verbatim>\<open>wait_and_complete\<close> returns when no task is left or the time is over, so at any moment; it
  then leaves no task.
\<close>

definition wait_and_complete :: "shared \<Rightarrow> shared" where
  "wait_and_complete s = s\<lparr>num_tasks := 0\<rparr>"

subsection \<open>\<^verbatim>\<open>FAILOVER\<close>\<close>

text \<open>
  What \<^verbatim>\<open>CONNECTION_HANDLER::connect\<close> answers: null, a connection object that is not connected,
  or a connected one.
\<close>

datatype outcome = Conn_null | Conn_dead | Conn_live

definition open_connection :: "outcome \<Rightarrow> ref \<Rightarrow> shared \<Rightarrow> conn option \<times> shared" where
  "open_connection r host s =
     (case r of
        Conn_null \<Rightarrow> (None, s)
      | Conn_dead \<Rightarrow> (Some (length (conns s)), s\<lparr>conns := conns s @ [(host, False)]\<rparr>)
      | Conn_live \<Rightarrow> (Some (length (conns s)), s\<lparr>conns := conns s @ [(host, True)]\<rparr>))"

definition is_writer_connected :: "shared \<Rightarrow> conn option \<Rightarrow> bool" where
  "is_writer_connected s nc = (case nc of Some c \<Rightarrow> snd (conns s ! c) | None \<Rightarrow> False)"

definition fo_connect :: "outcome \<Rightarrow> ref \<Rightarrow> shared \<Rightarrow> bool \<times> conn option \<times> shared" where
  "fo_connect r host s =
     (case open_connection r host s of (nc, s') \<Rightarrow> (is_writer_connected s' nc, nc, s'))"

definition delete_connection :: "conn \<Rightarrow> shared \<Rightarrow> shared" where
  "delete_connection c s = s\<lparr>closed := insert c (closed s)\<rparr>"

definition release_new_connection :: "conn option \<Rightarrow> shared \<Rightarrow> shared" where
  "release_new_connection nc s = (case nc of Some c \<Rightarrow> delete_connection c s | None \<Rightarrow> s)"

definition mark_host :: "bool \<Rightarrow> ref \<Rightarrow> shared \<Rightarrow> shared" where
  "mark_host up h s = s\<lparr>marks := marks s @ [(up, h)]\<rparr>"

section \<open>Facts\<close>

lemma mark_as_complete_num:
  "mark_as_complete b s = Inr s' \<Longrightarrow>
     num_tasks s' \<le> max 0 (num_tasks s - 1) \<and> conns s' = conns s \<and> closed s' = closed s \<and> marks s' = marks s"
  by (auto simp: mark_as_complete_def split: if_splits)

lemma completed_sync [simp]:
  "is_completed (wait_and_complete s)" "\<not> is_completed s \<Longrightarrow> is_completed (increment_task s) = False"
  "mark_as_complete True s = Inr (wait_and_complete s)"
  by (simp_all add: is_completed_def wait_and_complete_def increment_task_def mark_as_complete_def)

lemma shared_fields [simp]:
  "conns (wait_and_complete s) = conns s" "closed (wait_and_complete s) = closed s"
  "conns (mark_host b h s) = conns s" "closed (mark_host b h s) = closed s" "num_tasks (mark_host b h s) = num_tasks s"
  "conns (delete_connection c s) = conns s" "num_tasks (delete_connection c s) = num_tasks s"
  "closed (delete_connection c s) = insert c (closed s)"
  "conns (release_new_connection nc s) = conns s" "num_tasks (release_new_connection nc s) = num_tasks s"
  "closed (release_new_connection nc s) = set_option nc \<union> closed s"
  by (auto simp: wait_and_complete_def mark_host_def delete_connection_def release_new_connection_def
      split: option.split)

text \<open>A valid, undeleted connection to host \<open>h\<close>; and a connected one.\<close>

definition conn_to :: "shared \<Rightarrow> ref \<Rightarrow> conn \<Rightarrow> bool" where
  "conn_to s h c \<longleftrightarrow> c < length (conns s) \<and> fst (conns s ! c) = h \<and> c \<notin> closed s"

definition live_to :: "shared \<Rightarrow> ref \<Rightarrow> conn \<Rightarrow> bool" where
  "live_to s h c \<longleftrightarrow> conn_to s h c \<and> snd (conns s ! c)"

text \<open>
  The frame of a step of one thread: connections are only added at the end, and of the ones
  there were only some in \<open>D\<close> are deleted.
\<close>

definition frame :: "conn set \<Rightarrow> shared \<Rightarrow> shared \<Rightarrow> bool" where
  "frame D s s' \<longleftrightarrow> (\<exists>xs. conns s' = conns s @ xs) \<and> closed s \<subseteq> closed s' \<and> closed s' \<subseteq> closed s \<union> D"

lemma frame_refl [simp]: "frame D s s"
  by (simp add: frame_def)

lemma frame_trans: "frame D s s' \<Longrightarrow> frame D s' s'' \<Longrightarrow> frame D s s''"
  by (auto simp: frame_def)

lemma frame_mono: "frame D s s' \<Longrightarrow> D \<subseteq> D' \<Longrightarrow> frame D' s s'"
  by (auto simp: frame_def)

text \<open>A process that deletes only connections it opened itself.\<close>

abbreviation own_frame :: "shared \<Rightarrow> shared \<Rightarrow> bool" where
  "own_frame s s' \<equiv> frame {length (conns s)..} s s'"

lemma own_frame_trans: "own_frame s s' \<Longrightarrow> own_frame s' s'' \<Longrightarrow> own_frame s s''"
  by (fastforce simp: frame_def)

lemma own_frame_step:
  assumes "own_frame s0 s" "frame H s s'" "H \<subseteq> {length (conns s0)..}" "H' \<subseteq> H \<union> {length (conns s)..}"
  shows "own_frame s0 s'" "H' \<subseteq> {length (conns s0)..}"
proof -
  have "length (conns s0) \<le> length (conns s)" using assms(1) by (auto simp: frame_def)
  then show "H' \<subseteq> {length (conns s0)..}" using assms(3,4) by fastforce
  show "own_frame s0 s'" by (rule frame_trans [OF assms(1) frame_mono [OF assms(2,3)]])
qed

lemma frame_conn_to: "frame D s s' \<Longrightarrow> conn_to s h c \<Longrightarrow> c \<notin> D \<Longrightarrow> conn_to s' h c"
  by (auto simp: frame_def conn_to_def nth_append)

lemma frame_live_to: "frame D s s' \<Longrightarrow> live_to s h c \<Longrightarrow> c \<notin> D \<Longrightarrow> live_to s' h c"
  by (auto simp: frame_def live_to_def conn_to_def nth_append)

lemma frame_simps [simp]:
  "frame D s (wait_and_complete s)" "frame D s (mark_host b h s)" "frame D s (delete_connection c s) \<longleftrightarrow> c \<in> D \<union> closed s"
  "frame D s (release_new_connection nc s) \<longleftrightarrow> set_option nc \<subseteq> D \<union> closed s"
  by (auto simp: frame_def)

lemma frame_mark: "mark_as_complete b s = Inr s' \<Longrightarrow> frame D s s'"
  by (auto simp: frame_def dest: mark_as_complete_num)

lemma frame_open: "open_connection r h s = (nc, s') \<Longrightarrow> frame D s s'"
  by (auto simp: open_connection_def frame_def split: outcome.splits)

lemma open_connection_new:
  assumes "open_connection r h s = (nc, s')" "closed s \<subseteq> {..<length (conns s)}"
  shows "nc = None \<and> s' = s \<or>
    (\<exists>c. nc = Some c \<and> c = length (conns s) \<and> length (conns s') = Suc c \<and> closed s' = closed s \<and>
       num_tasks s' = num_tasks s \<and> conn_to s' h c \<and> (snd (conns s' ! c) \<longleftrightarrow> r = Conn_live))"
  using assms by (auto simp: open_connection_def conn_to_def split: outcome.splits)

end
