(* ===== verification/Failover_Reader.thy ===== *)
theory Failover_Reader
  imports Failover_Sync Cluster_Topology_Info
begin

text \<open>
  Reader failover (\<^verbatim>\<open>driver/failover_reader_handler.cc\<close>). The list of candidate hosts is a
  function of the topology; one round of \<^verbatim>\<open>get_connection_from_hosts\<close>, in which up to two
  threads connect while the caller waits and polls, is a step system; the loops around it are
  an inductive relation over the outcomes of the rounds.
\<close>

section \<open>The candidate hosts\<close>

text \<open>
  \<open>shuf k\<close> is the \<open>k\<close>-th call of \<^verbatim>\<open>std::shuffle\<close> with the function's random engine.
\<close>

definition build_hosts_list ::
  "(nat \<Rightarrow> ref list \<Rightarrow> ref list) \<Rightarrow> host_store \<Rightarrow> topology \<Rightarrow> bool \<Rightarrow> ref list" where
  "build_hosts_list shuf hs t include_writers =
     (let readers_down = filter (\<lambda>r. is_host_down (hs ! r)) (readers t);
          readers_up = filter (\<lambda>r. \<not> is_host_down (hs ! r)) (readers t);
          hosts_list = shuf 0 readers_up @ shuf 1 readers_down
      in if include_writers then hosts_list @ shuf 2 (writers t) else hosts_list)"

definition shuffles :: "(nat \<Rightarrow> ref list \<Rightarrow> ref list) \<Rightarrow> bool" where
  "shuffles shuf \<longleftrightarrow> (\<forall>k xs. mset (shuf k xs) = mset xs)"

lemma shuffles_set: "shuffles shuf \<Longrightarrow> set (shuf k xs) = set xs"
  by (metis mset_eq_setD shuffles_def)

text \<open>The rank of a candidate: readers that are up, then readers that are down, then writers.\<close>

definition host_rank :: "host_store \<Rightarrow> ref \<Rightarrow> nat" where
  "host_rank hs r = (if h_is_writer (hs ! r) then 2 else if is_host_down (hs ! r) then 1 else 0)"

lemma mset_split: "mset (filter P xs) + mset (filter (\<lambda>x. \<not> P x) xs) = mset xs"
  by (induction xs) auto

text \<open>
  The candidates for reader failover are exactly the readers of the topology, and the
  writers when they are allowed, each once; every reader marked up comes before every reader
  marked down, and these before the writers. In strict mode no writer is a candidate.
\<close>

theorem build_hosts_list_correct:
  assumes "shuffles shuf" "topology_ok hs t"
  shows "mset (build_hosts_list shuf hs t include_writers) =
      mset (readers t) + (if include_writers then mset (writers t) else {#}) \<and>
    sorted (map (host_rank hs) (build_hosts_list shuf hs t include_writers)) \<and>
    (\<not> include_writers \<longrightarrow> (\<forall>r \<in> set (build_hosts_list shuf hs t include_writers). \<not> h_is_writer (hs ! r)))"
proof -
  let ?up = "filter (\<lambda>r. \<not> is_host_down (hs ! r)) (readers t)"
    and ?down = "filter (\<lambda>r. is_host_down (hs ! r)) (readers t)"
  have ms: "mset (shuf k xs) = mset xs" for k xs using assms(1) by (simp add: shuffles_def)
  have st: "set (shuf k xs) = set xs" for k xs by (rule shuffles_set [OF assms(1)])
  have roles: "\<forall>r \<in> set (writers t). h_is_writer (hs ! r)" "\<forall>r \<in> set (readers t). \<not> h_is_writer (hs ! r)"
    using assms(2) by (simp_all add: topology_ok_def list_all_iff)
  have const: "sorted (map (host_rank hs) xs)" if "\<forall>r \<in> set xs. host_rank hs r = k" for xs k
    using that by (induction xs) auto
  have rank: "\<forall>r \<in> set (shuf 0 ?up). host_rank hs r = 0" "\<forall>r \<in> set (shuf 1 ?down). host_rank hs r = 1"
    "\<forall>r \<in> set (shuf 2 (writers t)). host_rank hs r = 2"
    using roles by (auto simp: st host_rank_def)
  have readers: "sorted (map (host_rank hs) (shuf 0 ?up @ shuf 1 ?down))"
    using const [OF rank(1)] const [OF rank(2)] rank(1) by (simp add: sorted_append)
  moreover have "sorted (map (host_rank hs) ((shuf 0 ?up @ shuf 1 ?down) @ shuf 2 (writers t)))"
    unfolding map_append [of _ _ "shuf 2 (writers t)"] sorted_append
    using readers const [OF rank(3)] rank by auto
  moreover have "mset ?up + mset ?down = mset (readers t)"
    using mset_split [of "\<lambda>r. is_host_down (hs ! r)" "readers t"] by (simp add: add.commute)
  ultimately show ?thesis
    using roles(2) by (auto simp: build_hosts_list_def Let_def ms st)
qed

theorem build_hosts_list_correct_witness:
  "let hs = [HOST_INFO ''w'' 1 UP True, HOST_INFO ''r'' 1 DOWN False, HOST_INFO ''s'' 1 UP False];
       t = (CLUSTER_TOPOLOGY_INFO 0)\<lparr>writers := [0], readers := [1, 2]\<rparr>
   in shuffles (\<lambda>_. rev) \<and> topology_ok hs t \<and> build_hosts_list (\<lambda>_. rev) hs t True = [2, 1, 0] \<and>
      sorted (map (host_rank hs) (build_hosts_list (\<lambda>_. rev) hs t True))"
proof -
  define hs where "hs = [HOST_INFO ''w'' 1 UP True, HOST_INFO ''r'' 1 DOWN False, HOST_INFO ''s'' 1 UP False]"
  define t where "t = (CLUSTER_TOPOLOGY_INFO 0)\<lparr>writers := [0], readers := [1, 2]\<rparr>"
  have sh: "shuffles (\<lambda>_. rev)" by (simp add: shuffles_def)
  have ok: "topology_ok hs t"
    by (simp add: topology_ok_def t_def hs_def get_instances_def HOST_INFO_def)
  have "build_hosts_list (\<lambda>_. rev) hs t True = [2, 1, 0]"
    by (simp add: build_hosts_list_def t_def hs_def HOST_INFO_def is_host_up_def)
  with build_hosts_list_correct [OF sh ok, of True] sh ok show ?thesis
    unfolding Let_def hs_def [symmetric] t_def [symmetric] by blast
qed

section \<open>One round of connecting\<close>

subsection \<open>The connecting thread\<close>

datatype reader_pc =
    R_Start | R_Connect | R_Up | R_CheckUp | R_Publish | R_MarkTrue
  | R_Down | R_CheckDown | R_MarkFalse | R_Release | R_Done | R_Threw

text \<open>\<open>rt_connected\<close>, \<open>rt_new_host\<close> and \<open>rt_new_connection\<close> are the task's \<^verbatim>\<open>READER_FAILOVER_RESULT\<close>.\<close>

record reader_task =
  rt_host :: ref
  rt_pc :: reader_pc
  rt_conn :: "conn option"
  rt_connected :: bool
  rt_new_host :: "ref option"
  rt_new_connection :: "conn option"

definition new_reader_task :: "ref \<Rightarrow> reader_task" where
  "new_reader_task h = \<lparr>rt_host = h, rt_pc = R_Start, rt_conn = None, rt_connected = False,
     rt_new_host = None, rt_new_connection = None\<rparr>"

text \<open>
  \<^verbatim>\<open>CONNECT_TO_READER_HANDLER::operator()\<close>, one shared access per step. \<open>r\<close> is what connecting
  yields.
\<close>

definition reader_task_step :: "outcome \<Rightarrow> shared \<Rightarrow> reader_task \<Rightarrow> shared \<times> reader_task" where
  "reader_task_step r s t =
     (case rt_pc t of
        R_Start \<Rightarrow> (s, t\<lparr>rt_pc := if \<not> is_completed s then R_Connect else R_Release\<rparr>)
      | R_Connect \<Rightarrow>
          (case fo_connect r (rt_host t) s of
             (ok, nc, s') \<Rightarrow> (s', t\<lparr>rt_conn := nc, rt_pc := if ok then R_Up else R_Down\<rparr>))
      | R_Up \<Rightarrow> (mark_host True (rt_host t) s, t\<lparr>rt_pc := R_CheckUp\<rparr>)
      | R_CheckUp \<Rightarrow> (s, t\<lparr>rt_pc := if is_completed s then R_Release else R_Publish\<rparr>)
      | R_Publish \<Rightarrow>
          (s, t\<lparr>rt_connected := True, rt_new_host := Some (rt_host t), rt_new_connection := rt_conn t,
                rt_pc := R_MarkTrue\<rparr>)
      | R_MarkTrue \<Rightarrow>
          (case mark_as_complete True s of
             Inr s' \<Rightarrow> (s', t\<lparr>rt_pc := R_Done\<rparr>) | Inl e \<Rightarrow> (s, t\<lparr>rt_pc := R_Threw\<rparr>))
      | R_Down \<Rightarrow> (mark_host False (rt_host t) s, t\<lparr>rt_pc := R_CheckDown\<rparr>)
      | R_CheckDown \<Rightarrow> (s, t\<lparr>rt_pc := if \<not> is_completed s then R_MarkFalse else R_Release\<rparr>)
      | R_MarkFalse \<Rightarrow>
          (case mark_as_complete False s of
             Inr s' \<Rightarrow> (s', t\<lparr>rt_pc := R_Release\<rparr>) | Inl e \<Rightarrow> (s, t\<lparr>rt_pc := R_Threw\<rparr>))
      | R_Release \<Rightarrow> (release_new_connection (rt_conn t) s, t\<lparr>rt_conn := None, rt_pc := R_Done\<rparr>)
      | R_Done \<Rightarrow> (s, t)
      | R_Threw \<Rightarrow> (s, t))"

definition finished :: "reader_task \<Rightarrow> bool" where
  "finished t \<longleftrightarrow> rt_pc t \<in> {R_Done, R_Threw}"

subsection \<open>The caller\<close>

datatype main_pc =
    M_Wait | M_Poll1 | M_Poll2 | M_Check
  | M_Return reader_task | M_Next | M_Exc

record reader_round =
  sh :: shared
  task1 :: reader_task
  task2 :: "reader_task option"
  main :: main_pc
  valid1 :: bool
  valid2 :: bool

definition start_round :: "ref \<Rightarrow> ref option \<Rightarrow> shared \<Rightarrow> reader_round" where
  "start_round h1 h2 s =
     \<lparr>sh = (if h2 = None then s\<lparr>num_tasks := 1\<rparr> else increment_task (s\<lparr>num_tasks := 1\<rparr>)),
      task1 = new_reader_task h1, task2 = map_option new_reader_task h2, main = M_Wait,
      valid1 = True, valid2 = (h2 \<noteq> None)\<rparr>"

text \<open>
  The caller: \<^verbatim>\<open>wait_and_complete\<close>, then polling. \<^verbatim>\<open>get()\<close> of a ready future makes it
  invalid and rethrows the exception of the thread. \<open>expired\<close>: the remaining time is not positive.
\<close>

definition main_step :: "bool \<Rightarrow> reader_round \<Rightarrow> reader_round" where
  "main_step expired r =
     (case main r of
        M_Wait \<Rightarrow> r\<lparr>sh := wait_and_complete (sh r), main := M_Poll1\<rparr>
      | M_Poll1 \<Rightarrow>
          if valid1 r \<and> finished (task1 r)
          then r\<lparr>valid1 := False,
                 main := (if rt_pc (task1 r) = R_Threw then M_Exc
                          else if rt_connected (task1 r) then M_Return (task1 r) else M_Poll2)\<rparr>
          else r\<lparr>main := M_Poll2\<rparr>
      | M_Poll2 \<Rightarrow>
          (case task2 r of
             Some t \<Rightarrow>
               if valid2 r \<and> finished t
               then r\<lparr>valid2 := False,
                      main := (if rt_pc t = R_Threw then M_Exc
                               else if rt_connected t then M_Return t else M_Check)\<rparr>
               else r\<lparr>main := M_Check\<rparr>
           | None \<Rightarrow> r\<lparr>main := M_Check\<rparr>)
      | M_Check \<Rightarrow>
          r\<lparr>main := (if \<not> valid1 r \<and> (task2 r = None \<or> \<not> valid2 r) then M_Next
                     else if expired then M_Next else M_Poll1)\<rparr>
      | _ \<Rightarrow> r)"

inductive round_step :: "reader_round \<Rightarrow> reader_round \<Rightarrow> bool" where
  run1: "\<not> finished (task1 r) \<Longrightarrow> reader_task_step res (sh r) (task1 r) = (s', t') \<Longrightarrow>
    round_step r (r\<lparr>sh := s', task1 := t'\<rparr>)"
| run2: "task2 r = Some t \<Longrightarrow> \<not> finished t \<Longrightarrow> reader_task_step res (sh r) t = (s', t') \<Longrightarrow>
    round_step r (r\<lparr>sh := s', task2 := Some t'\<rparr>)"
| caller: "main_step expired r = r' \<Longrightarrow> round_step r r'"

text \<open>A round starts from a shared state in which only existing connections have been deleted.\<close>

definition conns_ok :: "shared \<Rightarrow> bool" where
  "conns_ok s \<longleftrightarrow> closed s \<subseteq> {..<length (conns s)}"

definition round_starts :: "ref \<Rightarrow> ref option \<Rightarrow> shared \<Rightarrow> reader_round \<Rightarrow> bool" where
  "round_starts h1 h2 s0 r \<longleftrightarrow> conns_ok s0 \<and> r = start_round h1 h2 s0"

abbreviation round_reachable :: "ref \<Rightarrow> ref option \<Rightarrow> shared \<Rightarrow> reader_round \<Rightarrow> bool" where
  "round_reachable h1 h2 s0 \<equiv> reachable (round_starts h1 h2 s0) round_step"

text \<open>A scheduler: which thread makes the next step, and what its environment answers.\<close>

datatype sched = T1 outcome | T2 outcome | Caller bool

definition sched_step :: "sched \<Rightarrow> reader_round \<Rightarrow> reader_round" where
  "sched_step x r =
     (case x of
        T1 res \<Rightarrow> if finished (task1 r) then r
                  else (case reader_task_step res (sh r) (task1 r) of (s', t') \<Rightarrow> r\<lparr>sh := s', task1 := t'\<rparr>)
      | T2 res \<Rightarrow>
          (case task2 r of
             None \<Rightarrow> r
           | Some t \<Rightarrow> if finished t then r
                  else (case reader_task_step res (sh r) t of (s', t') \<Rightarrow> r\<lparr>sh := s', task2 := Some t'\<rparr>))
      | Caller expired \<Rightarrow> main_step expired r)"

section \<open>The invariant of a round\<close>

text \<open>
  A task holds at most the connection it opened, and that is not deleted; a connected result
  carries that connection, which is connected to the task's host.
\<close>

definition task_inv :: "shared \<Rightarrow> reader_task \<Rightarrow> bool" where
  "task_inv s t \<longleftrightarrow>
     (\<forall>c. rt_conn t = Some c \<longrightarrow> conn_to s (rt_host t) c) \<and>
     (rt_pc t \<in> {R_Start, R_Connect} \<longrightarrow> rt_conn t = None) \<and>
     (rt_pc t \<in> {R_Up, R_CheckUp, R_Publish, R_MarkTrue} \<longrightarrow> (\<exists>c. rt_conn t = Some c \<and> live_to s (rt_host t) c)) \<and>
     (rt_connected t \<longrightarrow> rt_pc t \<in> {R_MarkTrue, R_Done} \<and> rt_new_host t = Some (rt_host t) \<and>
        (\<exists>c. rt_conn t = Some c \<and> rt_new_connection t = Some c \<and> live_to s (rt_host t) c)) \<and>
     (rt_pc t = R_MarkTrue \<longrightarrow> rt_connected t) \<and>
     (rt_pc t = R_Done \<and> \<not> rt_connected t \<longrightarrow> rt_conn t = None)"

abbreviation held :: "reader_task \<Rightarrow> conn set" where
  "held t \<equiv> set_option (rt_conn t)"

lemma task_inv_frame:
  assumes "task_inv s t" "frame D s s'" "D \<inter> held t = {}"
  shows "task_inv s' t"
proof -
  have "conn_to s' (rt_host t) c" if "rt_conn t = Some c" for c
    using assms that frame_conn_to [OF assms(2)] by (auto simp: task_inv_def)
  moreover have "live_to s' (rt_host t) c" if "rt_conn t = Some c" "live_to s (rt_host t) c" for c
    using assms that frame_live_to [OF assms(2)] by auto
  ultimately show ?thesis using assms(1) unfolding task_inv_def by (metis option.inject)
qed

lemma task_inv_held: "task_inv s t \<Longrightarrow> held t \<subseteq> {..<length (conns s)}"
  by (cases "rt_conn t") (simp_all add: task_inv_def conn_to_def)

lemma task_inv_new [simp]: "task_inv s (new_reader_task h)"
  by (simp add: task_inv_def new_reader_task_def)

text \<open>What one step of a task does to its own and to the shared state.\<close>

definition task_effect :: "shared \<Rightarrow> reader_task \<Rightarrow> shared \<Rightarrow> reader_task \<Rightarrow> bool" where
  "task_effect s t s' t' \<longleftrightarrow> task_inv s' t' \<and> rt_host t' = rt_host t \<and> frame (held t) s s' \<and>
     closed s' \<subseteq> {..<length (conns s')} \<and>
     (\<forall>c. c < length (conns s') \<longrightarrow> length (conns s) \<le> c \<longrightarrow> c \<in> held t') \<and>
     held t \<subseteq> held t' \<union> closed s' \<and> held t' \<subseteq> held t \<union> {length (conns s)..} \<and>
     (is_completed s \<longrightarrow> is_completed s')"

lemma task_step_connect:
  assumes "task_inv s t" "closed s \<subseteq> {..<length (conns s)}" "rt_pc t = R_Connect"
    and "reader_task_step r s t = (s', t')"
  shows "task_effect s t s' t'"
proof -
  obtain nc s1 where o: "open_connection r (rt_host t) s = (nc, s1)" by fastforce
  have eq: "s' = s1" "t' = t\<lparr>rt_conn := nc, rt_pc := if is_writer_connected s1 nc then R_Up else R_Down\<rparr>"
    using assms(3,4) o by (auto simp: reader_task_step_def fo_connect_def)
  have t: "rt_conn t = None" "\<not> rt_connected t" using assms(1,3) by (auto simp: task_inv_def)
  from open_connection_new [OF o assms(2)] show ?thesis
  proof
    assume "nc = None \<and> s1 = s"
    then show ?thesis using eq t assms(2)
      by (simp add: task_effect_def task_inv_def is_writer_connected_def)
  next
    assume "\<exists>c. nc = Some c \<and> c = length (conns s) \<and> length (conns s1) = Suc c \<and> closed s1 = closed s \<and>
       num_tasks s1 = num_tasks s \<and> conn_to s1 (rt_host t) c \<and> (snd (conns s1 ! c) \<longleftrightarrow> r = Conn_live)"
    then obtain c where c: "nc = Some c" "c = length (conns s)" "length (conns s1) = Suc c"
      "closed s1 = closed s" "num_tasks s1 = num_tasks s" "conn_to s1 (rt_host t) c" by blast
    have "task_inv s' t'" using eq t c(1,6)
      by (auto simp: task_inv_def is_writer_connected_def live_to_def)
    moreover have "closed s' \<subseteq> {..<length (conns s')}" using assms(2) c eq by auto
    ultimately show ?thesis
      using frame_open [OF o, of "held t"] c(1-5) eq t by (auto simp: task_effect_def is_completed_def)
  qed
qed

lemma task_step_effect:
  assumes "task_inv s t" "closed s \<subseteq> {..<length (conns s)}" "reader_task_step r s t = (s', t')"
  shows "task_effect s t s' t'"
proof (cases "rt_pc t")
  case R_Connect
  then show ?thesis by (rule task_step_connect [OF assms(1,2) _ assms(3)])
next
  case R_Release
  note task_inv_held [OF assms(1)]
  moreover have "s' = release_new_connection (rt_conn t) s" "t' = t\<lparr>rt_conn := None, rt_pc := R_Done\<rparr>"
    using assms(3) R_Release by (auto simp: reader_task_step_def)
  moreover have "\<not> rt_connected t" using assms(1) R_Release by (auto simp: task_inv_def)
  ultimately show ?thesis using assms(2) by (auto simp: task_effect_def task_inv_def is_completed_def)
next
  case R_MarkFalse
  show ?thesis
  proof (cases "mark_as_complete False s")
    case (Inr s1)
    note m = mark_as_complete_num [OF Inr]
    have "task_inv s1 t" by (rule task_inv_frame [OF assms(1) frame_mark [OF Inr, of "{}"]]) simp
    with Inr m assms(2,3) R_MarkFalse frame_mark [OF Inr] show ?thesis
      by (auto simp: reader_task_step_def task_effect_def task_inv_def is_completed_def)
  qed (use assms R_MarkFalse in \<open>auto simp: reader_task_step_def task_effect_def task_inv_def\<close>)
next
  case R_MarkTrue
  have "task_inv (wait_and_complete s) t" by (rule task_inv_frame [OF assms(1), of "{}"]) simp_all
  with assms(2,3) R_MarkTrue show ?thesis
    by (auto simp: reader_task_step_def task_effect_def task_inv_def)
next
  case R_Up
  have "task_inv (mark_host True (rt_host t) s) t" by (rule task_inv_frame [OF assms(1), of "{}"]) simp_all
  with assms(2,3) R_Up show ?thesis
    by (auto simp: reader_task_step_def task_effect_def task_inv_def is_completed_def)
next
  case R_Down
  have "task_inv (mark_host False (rt_host t) s) t" by (rule task_inv_frame [OF assms(1), of "{}"]) simp_all
  with assms(2,3) R_Down show ?thesis
    by (auto simp: reader_task_step_def task_effect_def task_inv_def is_completed_def)
qed (use assms in \<open>auto simp: reader_task_step_def task_effect_def task_inv_def split: if_splits\<close>)

definition held2 :: "reader_task option \<Rightarrow> conn set" where
  "held2 t = (case t of Some t \<Rightarrow> held t | None \<Rightarrow> {})"

definition round_inv :: "ref \<Rightarrow> ref option \<Rightarrow> shared \<Rightarrow> reader_round \<Rightarrow> bool" where
  "round_inv h1 h2 s0 r \<longleftrightarrow>
     closed (sh r) \<subseteq> {..<length (conns (sh r))} \<and>
     task_inv (sh r) (task1 r) \<and> (\<forall>t. task2 r = Some t \<longrightarrow> task_inv (sh r) t) \<and>
     rt_host (task1 r) = h1 \<and> map_option rt_host (task2 r) = h2 \<and>
     held (task1 r) \<inter> held2 (task2 r) = {} \<and>
     (\<forall>c. c < length (conns (sh r)) \<longrightarrow> length (conns s0) \<le> c \<longrightarrow>
        c \<in> closed (sh r) \<union> held (task1 r) \<union> held2 (task2 r)) \<and>
     (main r \<noteq> M_Wait \<longrightarrow> is_completed (sh r)) \<and>
     (\<forall>t. main r = M_Return t \<longrightarrow> rt_connected t \<and> rt_pc t = R_Done \<and> (t = task1 r \<or> Some t = task2 r))"

lemma start_round_inv: "closed s0 \<subseteq> {..<length (conns s0)} \<Longrightarrow> round_inv h1 h2 s0 (start_round h1 h2 s0)"
  by (cases h2) (auto simp: round_inv_def start_round_def increment_task_def new_reader_task_def task_inv_def held2_def)

lemma done_step: "reader_task_step res s t = (s', t') \<Longrightarrow> rt_pc t = R_Done \<Longrightarrow> t' = t"
  by (simp add: reader_task_step_def)

lemma round_inv_main:
  assumes "round_inv h1 h2 s0 r"
  shows "round_inv h1 h2 s0 (main_step expired r)"
proof (cases "main r = M_Wait")
  case True
  have "task_inv (wait_and_complete (sh r)) t" if "task_inv (sh r) t" for t
    by (rule task_inv_frame [OF that, of "{}"]) simp_all
  with True assms show ?thesis by (simp add: main_step_def round_inv_def)
next
  case False
  have threw: "rt_pc t = R_Done" if "finished t" "rt_pc t \<noteq> R_Threw" for t
    using that by (auto simp: finished_def)
  show ?thesis
    using assms threw False by (auto simp: main_step_def round_inv_def split: main_pc.splits option.splits if_splits)
qed

lemma round_inv_task1:
  assumes "round_inv h1 h2 s0 r" "\<not> finished (task1 r)" "reader_task_step res (sh r) (task1 r) = (s', t')"
  shows "round_inv h1 h2 s0 (r\<lparr>sh := s', task1 := t'\<rparr>)"
proof -
  have base: "closed (sh r) \<subseteq> {..<length (conns (sh r))}" "task_inv (sh r) (task1 r)"
    using assms(1) by (simp_all add: round_inv_def)
  note e = task_step_effect [OF base(2,1) assms(3), unfolded task_effect_def]
  have le: "length (conns (sh r)) \<le> length (conns s')" using e by (auto simp: frame_def)
  have other: "task_inv s' t" if "task2 r = Some t" for t
  proof -
    have "held (task1 r) \<inter> held t = {}" "task_inv (sh r) t"
      using assms(1) that by (simp_all add: round_inv_def held2_def)
    then show ?thesis using task_inv_frame e by blast
  qed
  have h2: "held2 (task2 r) \<subseteq> {..<length (conns (sh r))}"
    using assms(1) task_inv_held [of "sh r"] by (cases "task2 r") (simp_all add: round_inv_def held2_def)
  have "c \<in> closed s' \<union> held t' \<union> held2 (task2 r)" if "c < length (conns s')" "length (conns s0) \<le> c" for c
  proof (cases "c < length (conns (sh r))")
    case True
    then have "c \<in> closed (sh r) \<union> held (task1 r) \<union> held2 (task2 r)"
      using assms(1) that(2) by (simp add: round_inv_def)
    then show ?thesis using e by (auto simp: frame_def)
  qed (use e that in auto)
  moreover have "held t' \<inter> held2 (task2 r) = {}"
  proof -
    have "held (task1 r) \<inter> held2 (task2 r) = {}" using assms(1) by (simp add: round_inv_def)
    moreover have "held t' \<subseteq> held (task1 r) \<union> {length (conns (sh r))..}" using e by blast
    ultimately show ?thesis using h2 by force
  qed
  moreover have "t \<noteq> task1 r" if "main r = M_Return t" for t
    using assms(1,2) that by (auto simp: round_inv_def finished_def)
  ultimately show ?thesis
    using assms(1) e other by (auto simp: round_inv_def)
qed

lemma round_inv_task2:
  assumes "round_inv h1 h2 s0 r" "task2 r = Some t2" "\<not> finished t2" "reader_task_step res (sh r) t2 = (s', t')"
  shows "round_inv h1 h2 s0 (r\<lparr>sh := s', task2 := Some t'\<rparr>)"
proof -
  have base: "closed (sh r) \<subseteq> {..<length (conns (sh r))}" "task_inv (sh r) t2"
    using assms(1,2) by (simp_all add: round_inv_def)
  note e = task_step_effect [OF base(2,1) assms(4), unfolded task_effect_def]
  have "held t2 \<inter> held (task1 r) = {}" "task_inv (sh r) (task1 r)"
    using assms(1,2) by (simp_all add: round_inv_def held2_def Int_commute)
  then have other: "task_inv s' (task1 r)" using task_inv_frame e by blast
  have h1: "held (task1 r) \<subseteq> {..<length (conns (sh r))}"
    using assms(1) task_inv_held by (simp add: round_inv_def)
  have "c \<in> closed s' \<union> held (task1 r) \<union> held t'" if "c < length (conns s')" "length (conns s0) \<le> c" for c
  proof (cases "c < length (conns (sh r))")
    case True
    then have "c \<in> closed (sh r) \<union> held (task1 r) \<union> held t2"
      using assms(1,2) that(2) by (simp add: round_inv_def held2_def)
    then show ?thesis using e by (auto simp: frame_def)
  qed (use e that in auto)
  moreover have "held (task1 r) \<inter> held t' = {}"
  proof -
    have "held (task1 r) \<inter> held t2 = {}" using assms(1,2) by (simp add: round_inv_def held2_def)
    moreover have "held t' \<subseteq> held t2 \<union> {length (conns (sh r))..}" using e by blast
    ultimately show ?thesis using h1 by force
  qed
  moreover have "t \<noteq> t2" if "main r = M_Return t" for t
    using assms(1,3) that by (auto simp: round_inv_def finished_def)
  ultimately show ?thesis
    using assms(1,2) e other by (auto simp: round_inv_def held2_def)
qed

lemma round_step_inv: "round_inv h1 h2 s0 r \<Longrightarrow> round_step r r' \<Longrightarrow> round_inv h1 h2 s0 r'"
  by (cases rule: round_step.cases) (auto intro: round_inv_main round_inv_task1 round_inv_task2)

interpretation rround: step_system "round_starts h1 h2 s0" round_step "round_inv h1 h2 s0" for h1 h2 s0
  by unfold_locales (auto simp: round_starts_def conns_ok_def intro: start_round_inv round_step_inv)

lemma sched_reachable:
  assumes "round_reachable h1 h2 s0 r"
  shows "round_reachable h1 h2 s0 (fold sched_step xs r)"
  using assms
proof (induction xs arbitrary: r)
  case (Cons x xs)
  have "round_step r (sched_step x r) \<or> sched_step x r = r"
    by (cases x) (auto simp: sched_step_def intro: round_step.intros split: option.split prod.split)
  with Cons show ?case by (auto intro: reachable.step)
qed simp

lemma sched_from_start: "conns_ok s0 \<Longrightarrow> round_reachable h1 h2 s0 (fold sched_step xs (start_round h1 h2 s0))"
  by (rule sched_reachable) (simp add: reachable.start round_starts_def)

lemma round_return:
  assumes "round_reachable h1 h2 s0 r" "main r = M_Return t"
  shows "rt_connected t \<and> (rt_host t = h1 \<or> h2 = Some (rt_host t)) \<and> rt_new_host t = Some (rt_host t) \<and>
    (\<exists>c. rt_new_connection t = Some c \<and> live_to (sh r) (rt_host t) c)"
proof -
  have inv: "round_inv h1 h2 s0 r" by (rule rround.reachable_inv [OF assms(1)])
  then have t: "rt_connected t" "t = task1 r \<or> task2 r = Some t" using assms(2) by (auto simp: round_inv_def)
  have "task_inv (sh r) t" "rt_host t = h1 \<or> h2 = Some (rt_host t)"
    using inv t(2) by (auto simp: round_inv_def)
  with t(1) show ?thesis by (auto simp: task_inv_def)
qed

text \<open>
  C16. In every interleaving of the two connecting threads and the caller, a result the caller
  returns is one of a task that connected: its connection is connected, has not been deleted by
  anybody, and leads to the host the result names, which is one of the two hosts of the round.
\<close>

theorem reader_round_result:
  assumes "round_reachable h1 h2 s0 r" "main r = M_Return t"
  shows "rt_connected t \<and> (rt_host t = h1 \<or> h2 = Some (rt_host t)) \<and> rt_new_host t = Some (rt_host t) \<and>
    (\<exists>c. rt_new_connection t = Some c \<and> live_to (sh r) (rt_host t) c)"
  by (rule round_return [OF assms])

definition empty_shared :: shared where
  "empty_shared = \<lparr>num_tasks = 0, conns = [], closed = {}, marks = []\<rparr>"

lemma empty_shared_ok [simp]: "conns_ok empty_shared"
  by (simp add: conns_ok_def empty_shared_def)

lemmas round_eval = start_round_def empty_shared_def new_reader_task_def increment_task_def sched_step_def
  reader_task_step_def main_step_def finished_def is_completed_def fo_connect_def open_connection_def
  is_writer_connected_def mark_host_def mark_as_complete_def wait_and_complete_def
  release_new_connection_def delete_connection_def

theorem reader_round_result_witness:
  "let r = fold sched_step [T2 Conn_live, T2 Conn_live, T2 Conn_live, T2 Conn_live, T2 Conn_live, T2 Conn_live,
             T1 Conn_live, T1 Conn_live, Caller False, Caller False, Caller False] (start_round 3 (Some 4) empty_shared)
   in \<exists>t c. main r = M_Return t \<and> rt_host t = 4 \<and> rt_new_connection t = Some c \<and> live_to (sh r) 4 c"
proof -
  define r where "r = fold sched_step [T2 Conn_live, T2 Conn_live, T2 Conn_live, T2 Conn_live, T2 Conn_live, T2 Conn_live,
             T1 Conn_live, T1 Conn_live, Caller False, Caller False, Caller False] (start_round 3 (Some 4) empty_shared)"
  have reach: "round_reachable 3 (Some 4) empty_shared r" unfolding r_def by (rule sched_from_start) simp
  have "\<exists>t. main r = M_Return t \<and> rt_host t = 4" unfolding r_def by (simp add: round_eval)
  then obtain t where t: "main r = M_Return t" "rt_host t = 4" by blast
  with reader_round_result [OF reach t(1)] show ?thesis unfolding r_def [symmetric] Let_def by auto
qed

text \<open>
  C17. When the threads of a round have ended, every connection that was opened in it and has not
  been deleted is the connection of a result that says connected, unless its thread ended with
  an exception: no other connection is left over.
\<close>

theorem reader_round_no_stray_connection:
  assumes "round_reachable h1 h2 s0 r" "finished (task1 r)" "\<And>t. task2 r = Some t \<Longrightarrow> finished t"
    and "length (conns s0) \<le> c" "c < length (conns (sh r))" "c \<notin> closed (sh r)"
  shows "\<exists>t. (t = task1 r \<or> task2 r = Some t) \<and> rt_conn t = Some c \<and>
    (rt_connected t \<and> rt_new_connection t = Some c \<or> rt_pc t = R_Threw)"
proof -
  have inv: "round_inv h1 h2 s0 r" by (rule rround.reachable_inv [OF assms(1)])
  then have "c \<in> held (task1 r) \<union> held2 (task2 r)" using assms(4-6) by (auto simp: round_inv_def)
  then obtain t where t: "t = task1 r \<or> task2 r = Some t" "rt_conn t = Some c"
    by (auto simp: held2_def split: option.splits)
  then have "task_inv (sh r) t" "finished t" using inv assms(2,3) by (auto simp: round_inv_def)
  with t show ?thesis by (auto simp: task_inv_def finished_def)
qed

theorem reader_round_no_stray_connection_witness:
  "let r = fold sched_step (replicate 6 (T1 Conn_live)) (start_round 3 None empty_shared)
   in finished (task1 r) \<and> rt_new_connection (task1 r) = Some 0"
proof -
  define r where "r = fold sched_step (replicate 6 (T1 Conn_live)) (start_round 3 None empty_shared)"
  have reach: "round_reachable 3 None empty_shared r" unfolding r_def by (rule sched_from_start) simp
  have f: "finished (task1 r)" "task2 r = None" "length (conns (sh r)) = 1" "closed (sh r) = {}" "rt_pc (task1 r) = R_Done"
    unfolding r_def by (simp_all add: round_eval numeral_eq_Suc)
  have "\<exists>t. (t = task1 r \<or> task2 r = Some t) \<and> rt_conn t = Some 0 \<and>
    (rt_connected t \<and> rt_new_connection t = Some 0 \<or> rt_pc t = R_Threw)"
    by (rule reader_round_no_stray_connection [OF reach f(1)]) (simp_all add: f empty_shared_def)
  with f show ?thesis unfolding r_def [symmetric] Let_def by auto
qed

text \<open>
  Two races are possible. Both threads can pass the check for completion before either marks
  the round complete: both results then say connected, the caller returns the first, and nobody
  deletes the connection of the second. And a thread that failed to connect can find the round
  completed between its check and \<open>mark_as_complete(false)\<close>, which then throws; the caller's
  \<open>get()\<close> rethrows the exception.
\<close>

theorem reader_round_races:
  "(\<exists>r t1 t2 c. round_reachable 3 (Some 4) empty_shared r \<and> main r = M_Return t1 \<and> t1 = task1 r \<and>
      task2 r = Some t2 \<and> rt_connected t2 \<and> finished t2 \<and> rt_new_connection t2 = Some c \<and> c \<notin> closed (sh r)) \<and>
   (\<exists>r. round_reachable 3 None empty_shared r \<and> main r = M_Exc)"
proof
  let ?r = "fold sched_step [T1 Conn_live, T2 Conn_live, T1 Conn_live, T2 Conn_live, T1 Conn_live, T2 Conn_live,
      T1 Conn_live, T2 Conn_live, T1 Conn_live, T2 Conn_live, T1 Conn_live, T2 Conn_live, Caller False, Caller False]
      (start_round 3 (Some 4) empty_shared)"
  have "round_reachable 3 (Some 4) empty_shared ?r" by (rule sched_from_start) simp
  moreover have "\<exists>t1 t2 c. main ?r = M_Return t1 \<and> t1 = task1 ?r \<and>
      task2 ?r = Some t2 \<and> rt_connected t2 \<and> finished t2 \<and> rt_new_connection t2 = Some c \<and> c \<notin> closed (sh ?r)"
    by (simp add: round_eval)
  ultimately show "\<exists>r t1 t2 c. round_reachable 3 (Some 4) empty_shared r \<and> main r = M_Return t1 \<and> t1 = task1 r \<and>
      task2 r = Some t2 \<and> rt_connected t2 \<and> finished t2 \<and> rt_new_connection t2 = Some c \<and> c \<notin> closed (sh r)"
    by blast
next
  let ?r = "fold sched_step [T1 Conn_null, T1 Conn_null, T1 Conn_null, T1 Conn_null, Caller False, T1 Conn_null, Caller False]
      (start_round 3 None empty_shared)"
  have "round_reachable 3 None empty_shared ?r" by (rule sched_from_start) simp
  moreover have "main ?r = M_Exc" by (simp add: round_eval)
  ultimately show "\<exists>r. round_reachable 3 None empty_shared r \<and> main r = M_Exc" by blast
qed

section \<open>The loops\<close>

text \<open>
  \<^verbatim>\<open>get_connection_from_hosts\<close> over the hosts still to be tried: it may find the global
  synchronisation completed before any round. A round takes the next host or two; it yields a
  connected result, moves on, or lets an exception through. Threads left behind by a round that
  timed out keep to the connections they hold themselves.
\<close>

definition second_host :: "ref list \<Rightarrow> ref option" where
  "second_host rest = (case rest of [] \<Rightarrow> None | h # _ \<Rightarrow> Some h)"

inductive get_connection_from_hosts :: "ref list \<Rightarrow> shared \<Rightarrow> reader_task option res \<Rightarrow> shared \<Rightarrow> bool" where
  cancelled: "get_connection_from_hosts hosts s (Inr None) s"
| exhausted: "get_connection_from_hosts [] s (Inr None) s"
| connected: "round_reachable h (second_host rest) s r \<Longrightarrow> main r = M_Return t \<Longrightarrow>
    get_connection_from_hosts (h # rest) s (Inr (Some t)) (sh r)"
| thrown: "round_reachable h (second_host rest) s r \<Longrightarrow> main r = M_Exc \<Longrightarrow>
    get_connection_from_hosts (h # rest) s (Inl (Runtime_error ''Trying to cancel a failover process that is already done.'')) (sh r)"
| next_pair: "round_reachable h (second_host rest) s r \<Longrightarrow> main r = M_Next \<Longrightarrow>
    get_connection_from_hosts (tl rest) (sh r) res s' \<Longrightarrow>
    get_connection_from_hosts (h # rest) s res s'"

inductive_cases get_connection_from_hostsE: "get_connection_from_hosts hosts s res s'"

text \<open>
  \<^verbatim>\<open>failover\<close>: the candidates are computed anew for every pass, from hosts whose availability may
  have changed in the meantime but not their roles. \<open>None\<close> is the empty result, for a null or
  empty topology, when the time is over, or when the task was cancelled.
\<close>

definition same_roles :: "host_store \<Rightarrow> host_store \<Rightarrow> bool" where
  "same_roles hs hs' \<longleftrightarrow> length hs \<le> length hs' \<and> (\<forall>r < length hs. h_is_writer (hs' ! r) = h_is_writer (hs ! r))"

inductive reader_failover ::
  "(nat \<Rightarrow> ref list \<Rightarrow> ref list) \<Rightarrow> bool \<Rightarrow> topology option \<Rightarrow> host_store \<Rightarrow> shared \<Rightarrow> reader_task option res \<Rightarrow> shared \<Rightarrow> bool"
  for shuf :: "nat \<Rightarrow> ref list \<Rightarrow> ref list" and strict :: bool where
  no_topology: "reader_failover shuf strict None hs s (Inr None) s"
| no_hosts: "total_hosts t = 0 \<Longrightarrow> reader_failover shuf strict (Some t) hs s (Inr None) s"
| timed_out: "total_hosts t \<noteq> 0 \<Longrightarrow> reader_failover shuf strict (Some t) hs s (Inr None) s"
| found: "total_hosts t \<noteq> 0 \<Longrightarrow>
    get_connection_from_hosts (build_hosts_list shuf hs t (\<not> strict)) s (Inr (Some r)) s' \<Longrightarrow>
    reader_failover shuf strict (Some t) hs s (Inr (Some r)) s'"
| failed: "total_hosts t \<noteq> 0 \<Longrightarrow>
    get_connection_from_hosts (build_hosts_list shuf hs t (\<not> strict)) s (Inl e) s' \<Longrightarrow>
    reader_failover shuf strict (Some t) hs s (Inl e) s'"
| again: "total_hosts t \<noteq> 0 \<Longrightarrow>
    get_connection_from_hosts (build_hosts_list shuf hs t (\<not> strict)) s (Inr None) s1 \<Longrightarrow>
    same_roles hs hs' \<Longrightarrow> reader_failover shuf strict (Some t) hs' s1 res s' \<Longrightarrow>
    reader_failover shuf strict (Some t) hs s res s'"

text \<open>\<^verbatim>\<open>get_reader_connection\<close> computes its list of readers once.\<close>

inductive reader_connection_loop :: "ref list \<Rightarrow> shared \<Rightarrow> reader_task option res \<Rightarrow> shared \<Rightarrow> bool" where
  loop_cancelled: "reader_connection_loop hosts s (Inr None) s"
| loop_found: "get_connection_from_hosts hosts s (Inr (Some r)) s' \<Longrightarrow> reader_connection_loop hosts s (Inr (Some r)) s'"
| loop_failed: "get_connection_from_hosts hosts s (Inl e) s' \<Longrightarrow> reader_connection_loop hosts s (Inl e) s'"
| loop_again: "get_connection_from_hosts hosts s (Inr None) s1 \<Longrightarrow> reader_connection_loop hosts s1 res s' \<Longrightarrow>
    reader_connection_loop hosts s res s'"

definition get_reader_connection ::
  "(nat \<Rightarrow> ref list \<Rightarrow> ref list) \<Rightarrow> host_store \<Rightarrow> topology \<Rightarrow> shared \<Rightarrow> reader_task option res \<Rightarrow> shared \<Rightarrow> bool" where
  "get_reader_connection shuf hs t s res s' \<longleftrightarrow>
     reader_connection_loop (build_hosts_list shuf hs t False) s res s'"

text \<open>A result that says connected: its host, and a live connection to it.\<close>

definition good_result :: "shared \<Rightarrow> reader_task \<Rightarrow> bool" where
  "good_result s t \<longleftrightarrow> rt_connected t \<and> rt_new_host t = Some (rt_host t) \<and>
     (\<exists>c. rt_new_connection t = Some c \<and> live_to s (rt_host t) c)"

lemma rounds_result:
  assumes "get_connection_from_hosts hosts s res s'" "res = Inr (Some t)"
  shows "rt_host t \<in> set hosts \<and> good_result s' t"
  using assms
proof (induction rule: get_connection_from_hosts.induct)
  case (connected h rest s r t')
  from round_return [OF connected(1,2)] connected(3) show ?case
    by (auto simp: good_result_def second_host_def split: list.splits)
next
  case (next_pair h rest s r res s')
  then show ?case by (cases rest) auto
qed auto

lemma hosts_list_set:
  assumes "shuffles shuf"
  shows "set (build_hosts_list shuf hs t w) = set (readers t) \<union> (if w then set (writers t) else {})"
  using shuffles_set [OF assms] by (auto simp: build_hosts_list_def Let_def)

lemma reader_failover_found:
  assumes "shuffles shuf" "reader_failover shuf strict topo hs s rr s'" "rr = Inr (Some r)"
  shows "\<exists>t. topo = Some t \<and> good_result s' r \<and> rt_host r \<in> set (get_instances t) \<and> (strict \<longrightarrow> rt_host r \<in> set (readers t))"
  using assms(2,3)
proof (induction rule: reader_failover.induct)
  case (found t hs s r' s')
  from rounds_result [OF found(2)] hosts_list_set [OF assms(1)] found(3) show ?case
    by (auto simp: get_instances_def split: if_splits)
qed auto

text \<open>Connections are only added, and only connections the failover opened itself are deleted.\<close>

lemma round_own: "round_reachable h1 h2 s0 r \<Longrightarrow>
    own_frame s0 (sh r) \<and> held (task1 r) \<subseteq> {length (conns s0)..} \<and> held2 (task2 r) \<subseteq> {length (conns s0)..}"
proof (induction rule: reachable.induct)
  case (start r)
  then show ?case
    by (auto simp: round_starts_def start_round_def increment_task_def frame_def new_reader_task_def held2_def split: option.splits)
next
  case (step r r')
  have inv: "round_inv h1 h2 s0 r" by (rule rround.reachable_inv [OF step(1)])
  then have base: "closed (sh r) \<subseteq> {..<length (conns (sh r))}" by (simp add: round_inv_def)
  have task: "own_frame s0 s' \<and> held t' \<subseteq> {length (conns s0)..}"
    if "task_inv (sh r) t" "reader_task_step res (sh r) t = (s', t')" "held t \<subseteq> {length (conns s0)..}" for t res s' t'
    using own_frame_step [of s0 "sh r" "held t" s' "held t'"] task_step_effect [OF that(1) base that(2)] step(3) that(3)
    by (simp add: task_effect_def)
  from step(2) show ?case
  proof (cases rule: round_step.cases)
    case (caller expired)
    then show ?thesis using step(3)
      by (auto simp: main_step_def Let_def frame_def split: main_pc.splits if_splits option.splits)
  next
    case (run1 res s' t')
    then show ?thesis using inv task [of "task1 r" res s' t'] step(3) by (simp add: round_inv_def)
  next
    case (run2 t res s' t')
    then show ?thesis using inv task [of t res s' t'] step(3) by (simp add: round_inv_def held2_def)
  qed
qed

lemma round_return_new:
  assumes "round_reachable h1 h2 s0 r" "main r = M_Return t"
  shows "set_option (rt_new_connection t) \<subseteq> {length (conns s0)..}"
proof -
  have inv: "round_inv h1 h2 s0 r" by (rule rround.reachable_inv [OF assms(1)])
  then have t: "rt_connected t" "t = task1 r \<or> task2 r = Some t" "task_inv (sh r) t" using assms(2) by (auto simp: round_inv_def)
  then have "set_option (rt_new_connection t) \<subseteq> held t" by (auto simp: task_inv_def)
  with round_own [OF assms(1)] t(2) show ?thesis by (auto simp: held2_def)
qed

definition own_result :: "shared \<Rightarrow> reader_task option res \<Rightarrow> shared \<Rightarrow> bool" where
  "own_result s res s' \<longleftrightarrow> own_frame s s' \<and>
     (\<forall>t. res = Inr (Some t) \<longrightarrow> set_option (rt_new_connection t) \<subseteq> {length (conns s)..})"

lemma own_result_trans:
  assumes "own_frame s s1" "own_result s1 res s'"
  shows "own_result s res s'"
proof -
  have "own_frame s1 s'" using assms(2) by (simp add: own_result_def)
  moreover have "length (conns s) \<le> length (conns s1)" using assms(1) by (auto simp: frame_def)
  ultimately show ?thesis using own_frame_trans [OF assms(1)] assms(2) by (fastforce simp: own_result_def)
qed

lemma rounds_frame:
  "get_connection_from_hosts hosts s res s' \<Longrightarrow>
     own_result s res s'"
proof (induction rule: get_connection_from_hosts.induct)
  case (connected h rest s r t')
  then show ?case using round_own [OF connected(1)] round_return_new [OF connected(1,2)] by (simp add: own_result_def)
next
  case (next_pair h rest s r res s')
  have o: "own_frame s (sh r)" using round_own [OF next_pair(1)] by simp
  then show ?case using own_result_trans [OF o] next_pair by blast
qed (auto simp: own_result_def dest: round_own)

lemma reader_failover_frame:
  "reader_failover shuf strict topo hs s res s' \<Longrightarrow>
     own_result s res s'"
proof (induction rule: reader_failover.induct)
  case (again t hs s s1 hs' res s')
  have o: "own_frame s s1" using rounds_frame [OF again(2)] by (simp add: own_result_def)
  then show ?case using own_result_trans [OF o] again by blast
qed (auto simp: own_result_def dest: rounds_frame)

text \<open>With one candidate that can be reached, its connection can be the answer.\<close>

lemma single_reader_found:
  assumes "build_hosts_list shuf hs t (\<not> strict) = [h]" "total_hosts t \<noteq> 0"
  shows "\<exists>r s'. reader_failover shuf strict (Some t) hs empty_shared (Inr (Some r)) s'"
proof -
  define q where "q = fold sched_step (replicate 6 (T1 Conn_live) @ [Caller False, Caller False]) (start_round h None empty_shared)"
  have "round_reachable h (second_host []) empty_shared q"
    unfolding q_def second_host_def by (simp only: list.case) (rule sched_from_start, simp)
  moreover have "\<exists>r. main q = M_Return r" unfolding q_def by (simp add: round_eval numeral_eq_Suc)
  then obtain r where "main q = M_Return r" by blast
  ultimately have "get_connection_from_hosts [h] empty_shared (Inr (Some r)) (sh q)"
    by (rule get_connection_from_hosts.connected)
  then have "reader_failover shuf strict (Some t) hs empty_shared (Inr (Some r)) (sh q)"
    by (intro reader_failover.found) (simp_all add: assms del: not_not)
  then show ?thesis by blast
qed



end
