(* ===== verification/Failover_Writer.thy ===== *)
theory Failover_Writer
  imports Failover_Reader
begin

text \<open>
  Writer failover (\<^verbatim>\<open>driver/failover_writer_handler.cc\<close>): two threads race, one reconnecting to
  the original writer (task A), one waiting for a new writer to appear in the topology (task B),
  while the caller waits and polls. The three are a step system over the shared state of
  \<^verbatim>\<open>FAILOVER_SYNC\<close>.

  \<open>nm\<close> gives the instance name of a host object. What the environment answers (connecting, the
  topology service's \<^verbatim>\<open>get_topology\<close>, the reader handler) is an argument of each step, free
  within the limits that a step system's parameter \<open>env_ok\<close> sets.
\<close>

section \<open>The threads\<close>

record writer_result =
  w_connected :: bool
  w_is_new_host :: bool
  w_new_topology :: "topology option"
  w_new_connection :: "conn option"

definition no_result :: writer_result where
  "no_result = \<lparr>w_connected = False, w_is_new_host = False, w_new_topology = None, w_new_connection = None\<rparr>"

text \<open>
  What \<^verbatim>\<open>get_reader_connection\<close> yields: nothing because it was cancelled, a live connection to a
  reader (the only kind of connected result it has), or an exception.
\<close>

datatype reader_answer = RA_none | RA_conn ref | RA_threw

record env =
  e_connect :: outcome
  e_topology :: "topology option"
  e_reader :: reader_answer

subsection \<open>Task A: \<^verbatim>\<open>RECONNECT_TO_WRITER_HANDLER\<close>\<close>

datatype a_pc =
    A_Loop | A_Connect | A_Topology | A_Drop | A_MarkUp | A_Check | A_Publish | A_MarkTrue
  | A_Sleep | A_Release | A_Done | A_Threw exc

record taskA =
  a_pc :: a_pc
  a_conn :: "conn option"
  a_topology :: "topology option"
  a_result :: writer_result

definition new_taskA :: taskA where
  "new_taskA = \<lparr>a_pc = A_Loop, a_conn = None, a_topology = None, a_result = no_result\<rparr>"

definition is_current_host_writer :: "(ref \<Rightarrow> string) \<Rightarrow> ref \<Rightarrow> topology \<Rightarrow> bool res" where
  "is_current_host_writer nm original_writer latest_topology =
     (if nm original_writer = [] then Inr False
      else case get_writer latest_topology of
             Inl e \<Rightarrow> Inl e | Inr w \<Rightarrow> Inr (nm w = nm original_writer))"

definition taskA_step :: "(ref \<Rightarrow> string) \<Rightarrow> ref \<Rightarrow> env \<Rightarrow> shared \<Rightarrow> taskA \<Rightarrow> shared \<times> taskA" where
  "taskA_step nm orig e s a =
     (case a_pc a of
        A_Loop \<Rightarrow> (s, a\<lparr>a_pc := if \<not> is_completed s then A_Connect else A_Release\<rparr>)
      | A_Connect \<Rightarrow>
          (case fo_connect (e_connect e) orig s of
             (ok, nc, s') \<Rightarrow> (s', a\<lparr>a_conn := nc, a_pc := if ok then A_Topology else A_Sleep\<rparr>))
      | A_Topology \<Rightarrow>
          (case e_topology e of
             None \<Rightarrow> (s, a\<lparr>a_pc := A_Threw Null_deref\<rparr>)
           | Some t \<Rightarrow>
               if total_hosts t > 0
               then (case is_current_host_writer nm orig t of
                       Inl ex \<Rightarrow> (s, a\<lparr>a_pc := A_Threw ex\<rparr>)
                     | Inr yes \<Rightarrow> (s, a\<lparr>a_topology := Some t, a_pc := if yes then A_MarkUp else A_Drop\<rparr>))
               else (s, a\<lparr>a_topology := Some t, a_pc := A_Drop\<rparr>))
      | A_Drop \<Rightarrow> (release_new_connection (a_conn a) s, a\<lparr>a_conn := None, a_pc := A_Sleep\<rparr>)
      | A_MarkUp \<Rightarrow> (mark_host True orig s, a\<lparr>a_pc := A_Check\<rparr>)
      | A_Check \<Rightarrow> (s, a\<lparr>a_pc := if is_completed s then A_Release else A_Publish\<rparr>)
      | A_Publish \<Rightarrow>
          (s, a\<lparr>a_result := \<lparr>w_connected = True, w_is_new_host = False, w_new_topology = a_topology a,
                             w_new_connection = a_conn a\<rparr>, a_pc := A_MarkTrue\<rparr>)
      | A_MarkTrue \<Rightarrow>
          (case mark_as_complete True s of
             Inr s' \<Rightarrow> (s', a\<lparr>a_pc := A_Done\<rparr>) | Inl ex \<Rightarrow> (s, a\<lparr>a_pc := A_Threw ex\<rparr>))
      | A_Sleep \<Rightarrow> (s, a\<lparr>a_pc := A_Loop\<rparr>)
      | A_Release \<Rightarrow> (release_new_connection (a_conn a) s, a\<lparr>a_conn := None, a_pc := A_Done\<rparr>)
      | _ \<Rightarrow> (s, a))"

definition a_finished :: "taskA \<Rightarrow> bool" where
  "a_finished a \<longleftrightarrow> (case a_pc a of A_Done \<Rightarrow> True | A_Threw _ \<Rightarrow> True | _ \<Rightarrow> False)"

subsection \<open>Task B: \<^verbatim>\<open>WAIT_NEW_WRITER_HANDLER\<close>\<close>

datatype b_pc =
    B_Loop | B_ReaderLoop | B_GetReader | B_RefreshLoop | B_Topology | B_Try | B_Connect
  | B_MarkUp | B_MarkDown | B_Sleep | B_Clean | B_Publish | B_MarkTrue | B_CleanCancel | B_Release
  | B_Done | B_Threw exc

record taskB =
  b_pc :: b_pc
  b_conn :: "conn option"
  b_reader :: "conn option"
  b_reader_host :: "ref option"
  b_topology :: topology
  b_candidate :: ref
  b_result :: writer_result

definition new_taskB :: "topology \<Rightarrow> taskB" where
  "new_taskB t = \<lparr>b_pc = B_Loop, b_conn = None, b_reader = None, b_reader_host = None, b_topology = t,
     b_candidate = 0, b_result = no_result\<rparr>"

definition clean_up_reader_connection :: "shared \<Rightarrow> taskB \<Rightarrow> shared \<times> taskB" where
  "clean_up_reader_connection s b =
     (case b_reader b of
        Some c \<Rightarrow> if b_conn b \<noteq> Some c then (delete_connection c s, b\<lparr>b_reader := None\<rparr>) else (s, b)
      | None \<Rightarrow> (s, b))"

text \<open>
  The steps of \<open>connect_to_reader\<close>, \<open>refresh_topology_and_connect_to_new_writer\<close> and
  \<open>connect_to_writer\<close>.
\<close>

definition connect_to_reader_step :: "env \<Rightarrow> shared \<Rightarrow> taskB \<Rightarrow> shared \<times> taskB" where
  "connect_to_reader_step e s b =
     (case e_reader e of
        RA_none \<Rightarrow> (s, b\<lparr>b_pc := B_ReaderLoop\<rparr>)
      | RA_threw \<Rightarrow>
          (s, b\<lparr>b_pc := B_Threw (Runtime_error ''Trying to cancel a failover process that is already done.'')\<rparr>)
      | RA_conn h \<Rightarrow>
          (case open_connection Conn_live h s of
             (nc, s') \<Rightarrow> (s', b\<lparr>b_reader := nc, b_reader_host := Some h, b_pc := B_RefreshLoop\<rparr>)))"

definition refresh_topology_step :: "(ref \<Rightarrow> string) \<Rightarrow> ref \<Rightarrow> env \<Rightarrow> shared \<Rightarrow> taskB \<Rightarrow> shared \<times> taskB" where
  "refresh_topology_step nm orig e s b =
     (case e_topology e of
        None \<Rightarrow> (s, b\<lparr>b_pc := B_Threw Null_deref\<rparr>)
      | Some t \<Rightarrow>
          if total_hosts t > 0
          then (case get_writer t of
                  Inl ex \<Rightarrow> (s, b\<lparr>b_topology := t, b_pc := B_Threw ex\<rparr>)
                | Inr w \<Rightarrow> (s, b\<lparr>b_topology := t, b_candidate := w,
                                b_pc := if nm w = nm orig then B_Sleep else B_Try\<rparr>))
          else (s, b\<lparr>b_pc := B_Sleep\<rparr>))"

definition connect_to_writer_step :: "(ref \<Rightarrow> string) \<Rightarrow> shared \<Rightarrow> taskB \<Rightarrow> shared \<times> taskB" where
  "connect_to_writer_step nm s b =
     (case b_reader_host b of
        None \<Rightarrow> (s, b\<lparr>b_pc := B_Threw Null_deref\<rparr>)
      | Some h \<Rightarrow> if nm (b_candidate b) = nm h then (s, b\<lparr>b_conn := b_reader b, b_pc := B_MarkUp\<rparr>)
                  else (s, b\<lparr>b_pc := B_Connect\<rparr>))"

definition taskB_step :: "(ref \<Rightarrow> string) \<Rightarrow> ref \<Rightarrow> env \<Rightarrow> shared \<Rightarrow> taskB \<Rightarrow> shared \<times> taskB" where
  "taskB_step nm orig e s b =
     (case b_pc b of
        B_Loop \<Rightarrow>
          (s, b\<lparr>b_pc := if is_completed s then B_CleanCancel
                         else if is_writer_connected s (b_conn b) then B_Publish else B_ReaderLoop\<rparr>)
      | B_ReaderLoop \<Rightarrow> (s, b\<lparr>b_pc := if is_completed s then B_RefreshLoop else B_GetReader\<rparr>)
      | B_GetReader \<Rightarrow> connect_to_reader_step e s b
      | B_RefreshLoop \<Rightarrow> (s, b\<lparr>b_pc := if is_completed s then B_Clean else B_Topology\<rparr>)
      | B_Topology \<Rightarrow> refresh_topology_step nm orig e s b
      | B_Try \<Rightarrow> connect_to_writer_step nm s b
      | B_Connect \<Rightarrow>
          (case fo_connect (e_connect e) (b_candidate b) s of
             (ok, nc, s') \<Rightarrow> (s', b\<lparr>b_conn := nc, b_pc := if ok then B_MarkUp else B_MarkDown\<rparr>))
      | B_MarkUp \<Rightarrow> (mark_host True (b_candidate b) s, b\<lparr>b_pc := B_Clean\<rparr>)
      | B_MarkDown \<Rightarrow> (mark_host False (b_candidate b) s, b\<lparr>b_pc := B_Sleep\<rparr>)
      | B_Sleep \<Rightarrow> (s, b\<lparr>b_pc := B_RefreshLoop\<rparr>)
      | B_Clean \<Rightarrow> (case clean_up_reader_connection s b of (s', b') \<Rightarrow> (s', b'\<lparr>b_pc := B_Loop\<rparr>))
      | B_Publish \<Rightarrow>
          (s, b\<lparr>b_result := \<lparr>w_connected = True, w_is_new_host = True, w_new_topology = Some (b_topology b),
                             w_new_connection = b_conn b\<rparr>, b_pc := B_MarkTrue\<rparr>)
      | B_MarkTrue \<Rightarrow>
          (case mark_as_complete True s of
             Inr s' \<Rightarrow> (s', b\<lparr>b_pc := B_Done\<rparr>) | Inl ex \<Rightarrow> (s, b\<lparr>b_pc := B_Threw ex\<rparr>))
      | B_CleanCancel \<Rightarrow> (case clean_up_reader_connection s b of (s', b') \<Rightarrow> (s', b'\<lparr>b_pc := B_Release\<rparr>))
      | B_Release \<Rightarrow> (release_new_connection (b_conn b) s, b\<lparr>b_conn := None, b_pc := B_Done\<rparr>)
      | _ \<Rightarrow> (s, b))"

definition b_finished :: "taskB \<Rightarrow> bool" where
  "b_finished b \<longleftrightarrow> (case b_pc b of B_Done \<Rightarrow> True | B_Threw _ \<Rightarrow> True | _ \<Rightarrow> False)"

subsection \<open>The caller: \<^verbatim>\<open>FAILOVER_WRITER_HANDLER::failover\<close>\<close>

datatype w_pc =
    W_Wait | W_PollA | W_PollB | W_Check | W_Return writer_result | W_Exc exc

record writer_failover =
  w_sh :: shared
  w_a :: taskA
  w_b :: taskB
  w_main :: w_pc
  w_validA :: bool
  w_validB :: bool

text \<open>
  Without a topology, or with an empty one, there is no failover; without a writer
  \<open>get_writer\<close> throws. Otherwise the original writer is marked down and both tasks start.
\<close>

definition start_failover :: "topology option \<Rightarrow> shared \<Rightarrow> (writer_result + ref \<times> writer_failover) res" where
  "start_failover current_topology s =
     (case current_topology of
        None \<Rightarrow> Inr (Inl no_result)
      | Some t \<Rightarrow>
          if total_hosts t = 0 then Inr (Inl no_result)
          else case get_writer t of
                 Inl e \<Rightarrow> Inl e
               | Inr orig \<Rightarrow>
                   Inr (Inr (orig, \<lparr>w_sh = mark_host False orig (s\<lparr>num_tasks := 2\<rparr>), w_a = new_taskA,
                      w_b = new_taskB t, w_main = W_Wait, w_validA = True, w_validB = True\<rparr>)))"

definition w_main_step :: "bool \<Rightarrow> writer_failover \<Rightarrow> writer_failover" where
  "w_main_step expired f =
     (case w_main f of
        W_Wait \<Rightarrow> f\<lparr>w_sh := wait_and_complete (w_sh f), w_main := W_PollA\<rparr>
      | W_PollA \<Rightarrow>
          if w_validA f \<and> a_finished (w_a f)
          then f\<lparr>w_validA := False,
                 w_main := (case a_pc (w_a f) of
                     A_Threw e \<Rightarrow> W_Exc e
                   | _ \<Rightarrow> if w_connected (a_result (w_a f)) then W_Return (a_result (w_a f)) else W_PollB)\<rparr>
          else f\<lparr>w_main := W_PollB\<rparr>
      | W_PollB \<Rightarrow>
          if w_validB f \<and> b_finished (w_b f)
          then f\<lparr>w_validB := False,
                 w_main := (case b_pc (w_b f) of
                     B_Threw e \<Rightarrow> W_Exc e
                   | _ \<Rightarrow> if w_connected (b_result (w_b f)) then W_Return (b_result (w_b f)) else W_Check)\<rparr>
          else f\<lparr>w_main := W_Check\<rparr>
      | W_Check \<Rightarrow>
          f\<lparr>w_main := (if \<not> w_validA f \<and> \<not> w_validB f then W_Return no_result
                       else if expired then W_Return no_result else W_PollA)\<rparr>
      | _ \<Rightarrow> f)"

inductive failover_step :: "(env \<Rightarrow> bool) \<Rightarrow> (ref \<Rightarrow> string) \<Rightarrow> ref \<Rightarrow> writer_failover \<Rightarrow> writer_failover \<Rightarrow> bool"
  for env_ok :: "env \<Rightarrow> bool" and nm :: "ref \<Rightarrow> string" and orig :: ref where
  stepA: "env_ok e \<Longrightarrow> \<not> a_finished (w_a f) \<Longrightarrow> taskA_step nm orig e (w_sh f) (w_a f) = (s', a') \<Longrightarrow>
    failover_step env_ok nm orig f (f\<lparr>w_sh := s', w_a := a'\<rparr>)"
| stepB: "env_ok e \<Longrightarrow> \<not> b_finished (w_b f) \<Longrightarrow> taskB_step nm orig e (w_sh f) (w_b f) = (s', b') \<Longrightarrow>
    failover_step env_ok nm orig f (f\<lparr>w_sh := s', w_b := b'\<rparr>)"
| stepMain: "w_main_step expired f = f' \<Longrightarrow> failover_step env_ok nm orig f f'"

definition failover_starts :: "topology \<Rightarrow> shared \<Rightarrow> ref \<Rightarrow> writer_failover \<Rightarrow> bool" where
  "failover_starts t s0 orig f \<longleftrightarrow> conns_ok s0 \<and> start_failover (Some t) s0 = Inr (Inr (orig, f))"

abbreviation failover_reachable ::
  "(env \<Rightarrow> bool) \<Rightarrow> (ref \<Rightarrow> string) \<Rightarrow> topology \<Rightarrow> shared \<Rightarrow> ref \<Rightarrow> writer_failover \<Rightarrow> bool" where
  "failover_reachable env_ok nm t s0 orig \<equiv> reachable (failover_starts t s0 orig) (failover_step env_ok nm orig)"

text \<open>A scheduler: which thread makes the next step, and what its environment answers.\<close>

datatype wsched = SA env | SB env | SM bool

definition wsched_step :: "(ref \<Rightarrow> string) \<Rightarrow> ref \<Rightarrow> wsched \<Rightarrow> writer_failover \<Rightarrow> writer_failover" where
  "wsched_step nm orig x f =
     (case x of
        SA e \<Rightarrow> if a_finished (w_a f) then f
                else (case taskA_step nm orig e (w_sh f) (w_a f) of (s', a') \<Rightarrow> f\<lparr>w_sh := s', w_a := a'\<rparr>)
      | SB e \<Rightarrow> if b_finished (w_b f) then f
                else (case taskB_step nm orig e (w_sh f) (w_b f) of (s', b') \<Rightarrow> f\<lparr>w_sh := s', w_b := b'\<rparr>)
      | SM expired \<Rightarrow> w_main_step expired f)"

section \<open>The invariant of task A\<close>

text \<open>The result of either task: a live connection to the instance its topology names as the writer.\<close>

definition writer_result_ok :: "(ref \<Rightarrow> string) \<Rightarrow> ref \<Rightarrow> shared \<Rightarrow> writer_result \<Rightarrow> bool" where
  "writer_result_ok nm orig s r \<longleftrightarrow>
     (\<exists>t w h c. w_new_topology r = Some t \<and> get_writer t = Inr w \<and> w_new_connection r = Some c \<and>
        live_to s h c \<and> nm h = nm w \<and> (w_is_new_host r \<longleftrightarrow> nm w \<noteq> nm orig))"

definition a_inv :: "(ref \<Rightarrow> string) \<Rightarrow> ref \<Rightarrow> shared \<Rightarrow> taskA \<Rightarrow> bool" where
  "a_inv nm orig s a \<longleftrightarrow>
     (\<forall>c. a_conn a = Some c \<longrightarrow> conn_to s orig c) \<and>
     (a_pc a \<in> {A_Loop, A_Connect, A_Sleep} \<longrightarrow> \<not> is_writer_connected s (a_conn a)) \<and>
     (a_pc a \<in> {A_Topology, A_MarkUp, A_Check, A_Publish, A_MarkTrue} \<longrightarrow>
        (\<exists>c. a_conn a = Some c \<and> live_to s orig c)) \<and>
     (a_pc a \<in> {A_MarkUp, A_Check, A_Publish, A_MarkTrue} \<longrightarrow>
        (\<exists>t w. a_topology a = Some t \<and> get_writer t = Inr w \<and> nm w = nm orig)) \<and>
     (w_connected (a_result a) \<longrightarrow> a_pc a \<in> {A_MarkTrue, A_Done} \<and> \<not> w_is_new_host (a_result a) \<and>
        w_new_connection (a_result a) = a_conn a \<and> writer_result_ok nm orig s (a_result a)) \<and>
     (a_pc a = A_MarkTrue \<longrightarrow> w_connected (a_result a)) \<and>
     (a_pc a = A_Done \<and> \<not> w_connected (a_result a) \<longrightarrow> a_conn a = None)"

abbreviation heldA :: "taskA \<Rightarrow> conn set" where
  "heldA a \<equiv> set_option (a_conn a)"

lemma writer_result_frame:
  assumes "writer_result_ok nm orig s r" "frame D s s'" "set_option (w_new_connection r) \<inter> D = {}"
  shows "writer_result_ok nm orig s' r"
proof -
  from assms(1) obtain t w h c where "w_new_topology r = Some t" "get_writer t = Inr w" "w_new_connection r = Some c"
    "live_to s h c" "nm h = nm w" "w_is_new_host r \<longleftrightarrow> nm w \<noteq> nm orig"
    unfolding writer_result_ok_def by blast
  moreover from this have "live_to s' h c" using frame_live_to [OF assms(2)] assms(3) by auto
  ultimately show ?thesis unfolding writer_result_ok_def by blast
qed

lemma connected_frame:
  assumes "frame D s s'" "set_option nc \<subseteq> {..<length (conns s)}"
  shows "is_writer_connected s' nc = is_writer_connected s nc"
  using assms by (auto simp: frame_def is_writer_connected_def nth_append split: option.splits)

lemma heldA_bound: "a_inv nm orig s a \<Longrightarrow> heldA a \<subseteq> {..<length (conns s)}"
  by (cases "a_conn a") (simp_all add: a_inv_def conn_to_def)

lemma a_inv_frame:
  assumes "a_inv nm orig s a" "frame D s s'" "D \<inter> heldA a = {}"
  shows "a_inv nm orig s' a"
proof -
  have "conn_to s' orig c" if "a_conn a = Some c" for c
    using assms that frame_conn_to [OF assms(2)] by (auto simp: a_inv_def)
  moreover have "live_to s' orig c" if "a_conn a = Some c" "live_to s orig c" for c
    using assms that frame_live_to [OF assms(2)] by auto
  moreover have "is_writer_connected s' (a_conn a) = is_writer_connected s (a_conn a)"
    by (rule connected_frame [OF assms(2) heldA_bound [OF assms(1)]])
  moreover have "writer_result_ok nm orig s' (a_result a)" if "w_connected (a_result a)"
  proof (rule writer_result_frame [OF _ assms(2)])
    show "writer_result_ok nm orig s (a_result a)" using assms(1) that by (simp add: a_inv_def)
    have "w_new_connection (a_result a) = a_conn a" using assms(1) that by (simp add: a_inv_def)
    then show "set_option (w_new_connection (a_result a)) \<inter> D = {}" using assms(3) by auto
  qed
  ultimately have step:
    "\<And>c. a_conn a = Some c \<Longrightarrow> conn_to s' orig c"
    "\<And>c. a_conn a = Some c \<Longrightarrow> live_to s orig c \<Longrightarrow> live_to s' orig c"
    "is_writer_connected s' (a_conn a) = is_writer_connected s (a_conn a)"
    "w_connected (a_result a) \<Longrightarrow> writer_result_ok nm orig s' (a_result a)" by blast+
  show ?thesis
    using assms(1) unfolding a_inv_def step(3) by (elim conjE, intro conjI) (use step in blast)+
qed

text \<open>
  What one step of a thread does: its invariant holds again; it deletes only connections it
  held; live connections it opened or held it holds or has deleted.
\<close>

definition effect :: "conn set \<Rightarrow> shared \<Rightarrow> conn set \<Rightarrow> shared \<Rightarrow> bool" where
  "effect H s H' s' \<longleftrightarrow> frame H s s' \<and> closed s' \<subseteq> {..<length (conns s')} \<and>
     (\<forall>c. c < length (conns s') \<longrightarrow> length (conns s) \<le> c \<longrightarrow> snd (conns s' ! c) \<longrightarrow> c \<in> H') \<and>
     (\<forall>c \<in> H. snd (conns s' ! c) \<longrightarrow> c \<in> H' \<union> closed s') \<and> H' \<subseteq> H \<union> {length (conns s)..} \<and>
     (is_completed s \<longrightarrow> is_completed s')"

lemma effect_same:
  assumes "closed s \<subseteq> {..<length (conns s)}" "conns s' = conns s" "closed s' = closed s" "is_completed s \<longrightarrow> is_completed s'"
  shows "effect H s H s'"
  using assms by (auto simp: effect_def frame_def)

lemma effect_release:
  assumes "closed s \<subseteq> {..<length (conns s)}" "set_option nc \<subseteq> {..<length (conns s)}" "set_option nc \<subseteq> H" "H - set_option nc \<subseteq> H'" "H' \<subseteq> H"
  shows "effect H s H' (release_new_connection nc s)"
  using assms by (auto simp: effect_def is_completed_def)

lemma effect_open:
  assumes "closed s \<subseteq> {..<length (conns s)}" "open_connection r h s = (nc, s')"
    and "\<And>c. c \<in> H \<Longrightarrow> c < length (conns s) \<and> (snd (conns s ! c) \<longrightarrow> c \<in> H')" "set_option nc \<subseteq> H'" "H' \<subseteq> H \<union> set_option nc"
  shows "effect H s H' s'"
  using assms
  by (auto simp: effect_def open_connection_def frame_def is_completed_def nth_append less_Suc_eq split: outcome.splits)

lemma connected_SomeD: "is_writer_connected s nc \<Longrightarrow> \<exists>c. nc = Some c \<and> snd (conns s ! c)"
  by (auto simp: is_writer_connected_def split: option.splits)

lemma writer_check:
  assumes "is_current_host_writer nm orig t = Inr True"
  shows "\<exists>w. get_writer t = Inr w \<and> nm w = nm orig"
  using assms by (auto simp: is_current_host_writer_def split: if_splits sum.splits)

lemma a_inv_unpublished:
  assumes "a_inv nm orig s a" "a_pc a \<notin> {A_MarkTrue, A_Done}"
  shows "\<not> w_connected (a_result a)"
  using assms unfolding a_inv_def by blast

text \<open>One step of task A, pc by pc.\<close>

lemma a_step_connect:
  assumes "a_inv nm orig s a" "closed s \<subseteq> {..<length (conns s)}" "a_pc a = A_Connect" "taskA_step nm orig e s a = (s', a')"
  shows "a_inv nm orig s' a' \<and> effect (heldA a) s (heldA a') s'"
proof -
  obtain nc s1 where o: "open_connection (e_connect e) orig s = (nc, s1)" by fastforce
  have eq: "s' = s1" "a' = a\<lparr>a_conn := nc, a_pc := if is_writer_connected s1 nc then A_Topology else A_Sleep\<rparr>"
    using assms(3,4) o by (auto simp: taskA_step_def fo_connect_def)
  have a: "\<not> is_writer_connected s (a_conn a)" "\<not> w_connected (a_result a)"
    using assms(1,3) a_inv_unpublished [OF assms(1)] by (simp_all add: a_inv_def)
  have held: "c < length (conns s) \<and> (snd (conns s ! c) \<longrightarrow> c \<in> set_option nc)" if "c \<in> heldA a" for c
    using heldA_bound [OF assms(1)] a(1) that by (auto simp: is_writer_connected_def)
  have eff: "effect (heldA a) s (heldA a') s'"
    using effect_open [OF assms(2) o, of "heldA a" "set_option nc"] held eq by simp
  have to: "conn_to s1 orig c" if "nc = Some c" for c
    using open_connection_new [OF o assms(2)] that by auto
  have live: "live_to s1 orig c" if "nc = Some c" "is_writer_connected s1 nc" for c
    using to [OF that(1)] that by (simp add: live_to_def is_writer_connected_def)
  have "a_inv nm orig s' a'"
  proof (cases "is_writer_connected s1 nc")
    case True
    then obtain c where c: "nc = Some c" using connected_SomeD by blast
    with True to live a(2) eq show ?thesis by (simp add: a_inv_def)
  next
    case False
    with to a(2) eq show ?thesis by (simp add: a_inv_def)
  qed
  with eff show ?thesis by blast
qed

lemma a_step_release:
  assumes "a_inv nm orig s a" "closed s \<subseteq> {..<length (conns s)}" "a_pc a \<in> {A_Release, A_Drop}" "taskA_step nm orig e s a = (s', a')"
  shows "a_inv nm orig s' a' \<and> effect (heldA a) s (heldA a') s'"
proof -
  have eq: "s' = release_new_connection (a_conn a) s" "a_conn a' = None" "a_pc a' \<in> {A_Done, A_Sleep}"
    "a_result a' = a_result a" using assms(3,4) by (auto simp: taskA_step_def)
  have "\<not> w_connected (a_result a)" using a_inv_unpublished [OF assms(1)] assms(3) by auto
  then have "a_inv nm orig s' a'" using eq by (auto simp: a_inv_def is_writer_connected_def)
  moreover have "effect (heldA a) s (heldA a') s'"
    unfolding eq by (rule effect_release) (use assms(2) heldA_bound [OF assms(1)] in auto)
  ultimately show ?thesis by blast
qed

lemma a_step_topology:
  assumes "a_inv nm orig s a" "closed s \<subseteq> {..<length (conns s)}" "a_pc a = A_Topology" "taskA_step nm orig e s a = (s', a')"
  shows "a_inv nm orig s' a' \<and> effect (heldA a) s (heldA a') s'"
proof -
  have "\<not> w_connected (a_result a)" "\<exists>c. a_conn a = Some c \<and> live_to s orig c" "\<forall>c. a_conn a = Some c \<longrightarrow> conn_to s orig c"
    using assms(1,3) a_inv_unpublished [OF assms(1)] by (simp_all add: a_inv_def)
  moreover have "s' = s" "a_conn a' = a_conn a" "a_result a' = a_result a"
    and "(\<exists>ex. a_pc a' = A_Threw ex) \<or> a_pc a' = A_Drop \<or>
      a_pc a' = A_MarkUp \<and> (\<exists>t w. a_topology a' = Some t \<and> get_writer t = Inr w \<and> nm w = nm orig)"
    using assms(3,4) writer_check by (auto simp: taskA_step_def split: option.splits if_splits sum.splits)
  ultimately have "a_inv nm orig s' a'" by (auto simp: a_inv_def)
  moreover have "effect (heldA a) s (heldA a') s'"
    using effect_same [OF assms(2)] \<open>s' = s\<close> \<open>a_conn a' = a_conn a\<close> by simp
  ultimately show ?thesis by blast
qed

lemma a_step_effect:
  assumes "a_inv nm orig s a" "closed s \<subseteq> {..<length (conns s)}" "taskA_step nm orig e s a = (s', a')"
  shows "a_inv nm orig s' a' \<and> effect (heldA a) s (heldA a') s'"
proof (cases "a_pc a")
  case A_Connect
  then show ?thesis by (rule a_step_connect [OF assms(1,2) _ assms(3)])
next
  case A_Topology
  then show ?thesis by (rule a_step_topology [OF assms(1,2) _ assms(3)])
next
  case A_Drop
  then show ?thesis using a_step_release [OF assms(1,2) _ assms(3)] by simp
next
  case A_Release
  then show ?thesis using a_step_release [OF assms(1,2) _ assms(3)] by simp
next
  case A_MarkUp
  have "a_inv nm orig (mark_host True orig s) a" by (rule a_inv_frame [OF assms(1), of "{}"]) simp_all
  with A_MarkUp assms(2,3) show ?thesis
    by (auto simp: taskA_step_def a_inv_def is_completed_def intro!: effect_same)
next
  case A_MarkTrue
  have "a_inv nm orig (wait_and_complete s) a" by (rule a_inv_frame [OF assms(1), of "{}"]) simp_all
  with A_MarkTrue assms(2,3) show ?thesis
    by (auto simp: taskA_step_def a_inv_def intro!: effect_same)
next
  case A_Publish
  then obtain c t w where "a_conn a = Some c" "live_to s orig c" "a_topology a = Some t" "get_writer t = Inr w" "nm w = nm orig"
    using assms(1) by (auto simp: a_inv_def)
  then have "writer_result_ok nm orig s \<lparr>w_connected = True, w_is_new_host = False, w_new_topology = a_topology a,
      w_new_connection = a_conn a\<rparr>" by (auto simp: writer_result_ok_def)
  with A_Publish assms show ?thesis
    by (auto simp: taskA_step_def a_inv_def intro!: effect_same)
qed (use assms in \<open>auto simp: taskA_step_def a_inv_def split: if_splits intro!: effect_same\<close>)

section \<open>The invariant of task B\<close>

text \<open>
  What holds at each point of the program, over whether the new connection is connected
  (\<open>live\<close>), whether it leads to the candidate (\<open>right\<close>) and whether the failover is completed.
\<close>

definition b_control :: "(ref \<Rightarrow> string) \<Rightarrow> ref \<Rightarrow> bool \<Rightarrow> bool \<Rightarrow> bool \<Rightarrow> taskB \<Rightarrow> bool" where
  "b_control nm orig live right completed b \<longleftrightarrow>
     (live \<longrightarrow> right \<and> get_writer (b_topology b) = Inr (b_candidate b) \<and> nm (b_candidate b) \<noteq> nm orig \<and>
        b_pc b \<in> {B_MarkUp, B_Clean, B_Loop, B_Publish, B_MarkTrue, B_Done, B_CleanCancel, B_Release}) \<and>
     (b_pc b \<in> {B_MarkUp, B_Publish, B_MarkTrue} \<longrightarrow> live) \<and>
     (b_pc b \<in> {B_Try, B_Connect} \<longrightarrow> get_writer (b_topology b) = Inr (b_candidate b) \<and> nm (b_candidate b) \<noteq> nm orig) \<and>
     (b_pc b \<in> {B_Topology, B_Try, B_Connect, B_MarkDown, B_Sleep} \<longrightarrow> b_reader b \<noteq> None) \<and>
     (b_pc b = B_RefreshLoop \<longrightarrow> b_reader b \<noteq> None \<or> completed) \<and>
     (b_pc b \<in> {B_ReaderLoop, B_GetReader} \<longrightarrow> b_reader b = None) \<and>
     (b_pc b \<in> {B_Loop, B_Publish, B_MarkTrue, B_Release} \<longrightarrow> b_reader b = None \<or> b_reader b = b_conn b) \<and>
     (w_connected (b_result b) \<longrightarrow> b_pc b \<in> {B_MarkTrue, B_Done} \<and> w_is_new_host (b_result b) \<and>
        w_new_connection (b_result b) = b_conn b) \<and>
     (b_pc b = B_MarkTrue \<longrightarrow> w_connected (b_result b)) \<and>
     (b_pc b = B_Done \<and> \<not> w_connected (b_result b) \<longrightarrow> b_conn b = None)"

definition to_candidate :: "(ref \<Rightarrow> string) \<Rightarrow> shared \<Rightarrow> taskB \<Rightarrow> bool" where
  "to_candidate nm s b \<longleftrightarrow> (case b_conn b of Some c \<Rightarrow> nm (fst (conns s ! c)) = nm (b_candidate b) | None \<Rightarrow> False)"

lemma to_candidate_simps [simp]:
  "to_candidate nm s (b\<lparr>b_pc := p\<rparr>) = to_candidate nm s b"
  "to_candidate nm s (b\<lparr>b_result := r\<rparr>) = to_candidate nm s b"
  "to_candidate nm s (b\<lparr>b_result := r, b_pc := p\<rparr>) = to_candidate nm s b"
  by (simp_all add: to_candidate_def split: option.split)

definition conn_clause :: "shared \<Rightarrow> taskB \<Rightarrow> bool" where
  "conn_clause s b \<longleftrightarrow> (\<forall>c. b_conn b = Some c \<longrightarrow> c < length (conns s) \<and> c \<notin> closed s)"

definition reader_clause :: "shared \<Rightarrow> taskB \<Rightarrow> bool" where
  "reader_clause s b \<longleftrightarrow>
     (b_pc b \<noteq> B_Done \<longrightarrow> (\<forall>c. b_reader b = Some c \<longrightarrow> (\<exists>h. b_reader_host b = Some h \<and> live_to s h c)))"

definition b_inv :: "(ref \<Rightarrow> string) \<Rightarrow> ref \<Rightarrow> shared \<Rightarrow> taskB \<Rightarrow> bool" where
  "b_inv nm orig s b \<longleftrightarrow> conn_clause s b \<and> reader_clause s b \<and>
     b_control nm orig (is_writer_connected s (b_conn b)) (to_candidate nm s b) (is_completed s) b \<and>
     (w_connected (b_result b) \<longrightarrow> writer_result_ok nm orig s (b_result b))"

definition heldB :: "taskB \<Rightarrow> conn set" where
  "heldB b = set_option (b_conn b) \<union> (if b_pc b = B_Done then {} else set_option (b_reader b))"

lemma b_control_mono: "b_control nm orig l r c b \<Longrightarrow> c \<longrightarrow> c' \<Longrightarrow> b_control nm orig l r c' b"
  by (cases c; cases c') (simp_all add: b_control_def)

lemma heldB_bound:
  assumes "b_inv nm orig s b"
  shows "heldB b \<subseteq> {..<length (conns s)}"
proof
  fix c
  assume "c \<in> heldB b"
  then consider "b_conn b = Some c" | "b_pc b \<noteq> B_Done" "b_reader b = Some c"
    by (auto simp: heldB_def split: if_splits)
  then show "c \<in> {..<length (conns s)}"
    using assms by cases (auto simp: b_inv_def conn_clause_def reader_clause_def live_to_def conn_to_def)
qed

lemma b_inv_frame:
  assumes "b_inv nm orig s b" "frame D s s'" "D \<inter> heldB b = {}" "is_completed s \<longrightarrow> is_completed s'"
  shows "b_inv nm orig s' b"
proof -
  have conn: "conn_clause s' b"
    unfolding conn_clause_def
  proof (intro allI impI)
    fix c
    assume c: "b_conn b = Some c"
    then have "c < length (conns s)" "c \<notin> closed s" "c \<notin> D"
      using assms(1,3) by (auto simp: b_inv_def conn_clause_def heldB_def)
    then show "c < length (conns s') \<and> c \<notin> closed s'" using assms(2) by (auto simp: frame_def)
  qed
  have reader: "reader_clause s' b"
    unfolding reader_clause_def
  proof (intro allI impI)
    fix c
    assume c: "b_pc b \<noteq> B_Done" "b_reader b = Some c"
    then have "c \<notin> D" using assms(3) by (auto simp: heldB_def)
    moreover obtain h where "b_reader_host b = Some h" "live_to s h c"
      using assms(1) c by (auto simp: b_inv_def reader_clause_def)
    ultimately show "\<exists>h. b_reader_host b = Some h \<and> live_to s' h c" using frame_live_to [OF assms(2)] by blast
  qed
  have bound: "set_option (b_conn b) \<subseteq> {..<length (conns s)}" using heldB_bound [OF assms(1)] by (auto simp: heldB_def)
  have same: "is_writer_connected s' (b_conn b) = is_writer_connected s (b_conn b)"
    by (rule connected_frame [OF assms(2) bound])
  have cand: "to_candidate nm s' b = to_candidate nm s b"
    using bound assms(2) by (auto simp: to_candidate_def frame_def nth_append split: option.splits)
  have ctl: "b_control nm orig (is_writer_connected s' (b_conn b)) (to_candidate nm s' b) (is_completed s') b"
    unfolding same cand by (rule b_control_mono [OF _ assms(4)]) (use assms(1) in \<open>simp add: b_inv_def\<close>)
  have res: "writer_result_ok nm orig s' (b_result b)" if "w_connected (b_result b)"
  proof (rule writer_result_frame [OF _ assms(2)])
    show "writer_result_ok nm orig s (b_result b)" using assms(1) that by (simp add: b_inv_def)
    have "w_new_connection (b_result b) = b_conn b" using assms(1) that by (simp add: b_inv_def b_control_def)
    then show "set_option (w_new_connection (b_result b)) \<inter> D = {}" using assms(3) by (auto simp: heldB_def)
  qed
  show ?thesis unfolding b_inv_def using conn reader ctl res by blast
qed

text \<open>A step that changes neither the connections nor what the task holds.\<close>

lemma b_effect_same:
  assumes "closed s \<subseteq> {..<length (conns s)}" "conns s' = conns s" "closed s' = closed s"
    and "is_completed s \<longrightarrow> is_completed s'" "heldB b' = heldB b"
  shows "effect (heldB b) s (heldB b') s'"
  using effect_same [OF assms(1-4), of "heldB b"] assms(5) by simp

lemma b_step_local:
  assumes "b_inv nm orig s b" "closed s \<subseteq> {..<length (conns s)}"
    and "b_pc b \<in> {B_Loop, B_ReaderLoop, B_RefreshLoop, B_Sleep}" "taskB_step nm orig e s b = (s', b')"
  shows "b_inv nm orig s' b' \<and> effect (heldB b) s (heldB b') s'"
proof -
  have eq: "s' = s" "b_conn b' = b_conn b" "b_reader b' = b_reader b" "b_reader_host b' = b_reader_host b"
    "b_topology b' = b_topology b" "b_candidate b' = b_candidate b" "b_result b' = b_result b"
    using assms(3,4) by (auto simp: taskB_step_def)
  have pcs: "b_pc b \<noteq> B_Done" "b_pc b' \<noteq> B_Done"
    using assms(3,4) by (auto simp: taskB_step_def split: if_splits)
  have ctl: "b_control nm orig (is_writer_connected s (b_conn b)) (to_candidate nm s b) (is_completed s) b"
    and rd: "reader_clause s b" using assms(1) by (simp_all add: b_inv_def)
  have conn: "is_writer_connected s (b_conn b)" if "b_reader b = b_conn b" "b_reader b \<noteq> None"
    using rd pcs(1) that by (auto simp: reader_clause_def is_writer_connected_def live_to_def)
  have cand: "to_candidate nm s b' = to_candidate nm s b" by (simp add: to_candidate_def eq split: option.split)
  have "b_control nm orig (is_writer_connected s (b_conn b)) (to_candidate nm s b) (is_completed s) b'"
  proof (cases "b_pc b")
    case B_Loop
    then have pc: "b_pc b' = (if is_completed s then B_CleanCancel
        else if is_writer_connected s (b_conn b) then B_Publish else B_ReaderLoop)"
      using assms(4) by (auto simp: taskB_step_def)
    have "b_reader b = None" if dead: "\<not> is_writer_connected s (b_conn b)"
    proof (rule ccontr)
      assume r: "b_reader b \<noteq> None"
      have "b_reader b = None \<or> b_reader b = b_conn b" using ctl B_Loop by (simp add: b_control_def)
      with conn r dead show False by metis
    qed
    with ctl B_Loop show ?thesis
      by (cases "is_completed s"; cases "is_writer_connected s (b_conn b)") (simp_all add: b_control_def eq pc)
  next
    case B_ReaderLoop
    then have "b_pc b' = (if is_completed s then B_RefreshLoop else B_GetReader)"
      using assms(4) by (auto simp: taskB_step_def)
    with ctl B_ReaderLoop show ?thesis by (cases "is_completed s") (simp_all add: b_control_def eq)
  next
    case B_RefreshLoop
    then have "b_pc b' = (if is_completed s then B_Clean else B_Topology)"
      using assms(4) by (auto simp: taskB_step_def)
    with ctl B_RefreshLoop show ?thesis by (cases "is_completed s") (simp_all add: b_control_def eq)
  next
    case B_Sleep
    then have "b_pc b' = B_RefreshLoop" using assms(4) by (auto simp: taskB_step_def)
    with ctl B_Sleep show ?thesis by (simp add: b_control_def eq)
  qed (use assms(3) in simp_all)
  then have "b_control nm orig (is_writer_connected s (b_conn b')) (to_candidate nm s b') (is_completed s) b'"
    by (simp add: eq cand)
  then have "b_inv nm orig s' b'"
    using assms(1) eq pcs by (simp add: b_inv_def conn_clause_def reader_clause_def)
  moreover have "heldB b' = heldB b" using eq pcs by (simp add: heldB_def)
  ultimately show ?thesis using b_effect_same [OF assms(2)] eq(1) by simp
qed

lemma b_step_get_reader:
  assumes "b_inv nm orig s b" "closed s \<subseteq> {..<length (conns s)}" "b_pc b = B_GetReader" "taskB_step nm orig e s b = (s', b')"
  shows "b_inv nm orig s' b' \<and> effect (heldB b) s (heldB b') s'"
proof -
  note inv = assms(1) [unfolded b_inv_def]
  have dead: "\<not> is_writer_connected s (b_conn b)" "\<not> w_connected (b_result b)" "b_reader b = None"
    using inv assms(3) by (auto simp: b_control_def)
  show ?thesis
  proof (cases "e_reader e")
    case (RA_conn h)
    obtain nc s1 where o: "open_connection Conn_live h s = (nc, s1)" by fastforce
    have eq: "s' = s1" "b' = b\<lparr>b_reader := nc, b_reader_host := Some h, b_pc := B_RefreshLoop\<rparr>"
      using assms(3,4) RA_conn o by (auto simp: taskB_step_def connect_to_reader_step_def)
    have "length (conns s) \<notin> closed s" using assms(2) by auto
    then obtain c where c: "nc = Some c" "c = length (conns s)" "live_to s1 h c" "closed s1 = closed s"
      using o by (auto simp: open_connection_def live_to_def conn_to_def)
    have fr: "frame {} s s1" by (rule frame_open [OF o])
    have "set_option (b_conn b) \<subseteq> {..<length (conns s)}" using heldB_bound [OF assms(1)] by (auto simp: heldB_def)
    then have dead1: "\<not> is_writer_connected s1 (b_conn b)" using connected_frame [OF fr] dead(1) by blast
    have "conn_clause s1 b" using inv fr by (fastforce simp: conn_clause_def frame_def)
    then have "b_inv nm orig s' b'"
      using dead dead1 c by (simp add: eq b_inv_def conn_clause_def reader_clause_def b_control_def)
    moreover have "effect (heldB b) s (heldB b') s'"
      unfolding eq(1)
      by (rule effect_open [OF assms(2) o]) (use heldB_bound [OF assms(1)] dead assms(3) in \<open>auto simp: heldB_def eq\<close>)
    ultimately show ?thesis by blast
  next
    case RA_none
    then have eq: "s' = s" "b' = b\<lparr>b_pc := B_ReaderLoop\<rparr>"
      using assms(3,4) by (auto simp: taskB_step_def connect_to_reader_step_def)
    have "b_inv nm orig s' b'" using inv dead assms(3) by (simp add: eq b_inv_def conn_clause_def reader_clause_def b_control_def)
    moreover have "heldB b' = heldB b" using assms(3) by (simp add: eq heldB_def)
    ultimately show ?thesis using b_effect_same [OF assms(2)] eq(1) by simp
  next
    case RA_threw
    then obtain x where eq: "s' = s" "b' = b\<lparr>b_pc := B_Threw x\<rparr>"
      using assms(3,4) by (auto simp: taskB_step_def connect_to_reader_step_def)
    have "b_inv nm orig s' b'" using inv dead assms(3) by (simp add: eq b_inv_def conn_clause_def reader_clause_def b_control_def)
    moreover have "heldB b' = heldB b" using assms(3) by (simp add: eq heldB_def)
    ultimately show ?thesis using b_effect_same [OF assms(2)] eq(1) by simp
  qed
qed

lemma b_step_topology:
  assumes "b_inv nm orig s b" "closed s \<subseteq> {..<length (conns s)}" "b_pc b = B_Topology" "taskB_step nm orig e s b = (s', b')"
  shows "b_inv nm orig s' b' \<and> effect (heldB b) s (heldB b') s'"
proof -
  note inv = assms(1) [unfolded b_inv_def]
  have dead: "\<not> is_writer_connected s (b_conn b)" "\<not> w_connected (b_result b)" "b_reader b \<noteq> None"
    using inv assms(3) by (auto simp: b_control_def)
  have eq: "s' = s" "b_conn b' = b_conn b" "b_reader b' = b_reader b" "b_reader_host b' = b_reader_host b" "b_result b' = b_result b"
    and pc: "(\<exists>x. b_pc b' = B_Threw x) \<or> b_pc b' = B_Sleep \<or>
      b_pc b' = B_Try \<and> get_writer (b_topology b') = Inr (b_candidate b') \<and> nm (b_candidate b') \<noteq> nm orig"
    using assms(3,4) by (auto simp: taskB_step_def refresh_topology_step_def split: option.splits if_splits sum.splits)
  from pc have "b_inv nm orig s' b'"
  proof (elim disjE exE)
    fix x
    assume "b_pc b' = B_Threw x"
    then show ?thesis using inv dead assms(3) eq by (simp add: b_inv_def conn_clause_def reader_clause_def b_control_def)
  qed (use inv dead assms(3) eq in \<open>simp_all add: b_inv_def conn_clause_def reader_clause_def b_control_def\<close>)
  moreover have "heldB b' = heldB b" using pc eq assms(3) by (auto simp: heldB_def)
  ultimately show ?thesis using b_effect_same [OF assms(2)] eq(1) by simp
qed

lemma b_step_try:
  assumes "b_inv nm orig s b" "closed s \<subseteq> {..<length (conns s)}" "b_pc b = B_Try" "taskB_step nm orig e s b = (s', b')"
  shows "b_inv nm orig s' b' \<and> effect (heldB b) s (heldB b') s'"
proof -
  note inv = assms(1) [unfolded b_inv_def]
  have dead: "\<not> is_writer_connected s (b_conn b)" "\<not> w_connected (b_result b)"
    and cand: "get_writer (b_topology b) = Inr (b_candidate b)" "nm (b_candidate b) \<noteq> nm orig"
    using inv assms(3) by (auto simp: b_control_def)
  obtain c h where c: "b_reader b = Some c" "b_reader_host b = Some h" "live_to s h c"
    using inv assms(3) by (auto simp: b_control_def reader_clause_def)
  show ?thesis
  proof (cases "nm (b_candidate b) = nm h")
    case True
    have eq: "s' = s" "b' = b\<lparr>b_conn := b_reader b, b_pc := B_MarkUp\<rparr>"
      using assms(3,4) c True by (auto simp: taskB_step_def connect_to_writer_step_def)
    have "is_writer_connected s (b_reader b)" using c by (simp add: is_writer_connected_def live_to_def)
    moreover have "to_candidate nm s b'" using c True by (simp add: eq to_candidate_def live_to_def conn_to_def)
    ultimately have "b_inv nm orig s' b'"
      using dead cand c by (simp add: eq b_inv_def conn_clause_def reader_clause_def b_control_def live_to_def conn_to_def)
    moreover have "effect (heldB b) s (heldB b') s'"
      using assms(2) dead assms(3) c
      by (auto simp: eq effect_def heldB_def is_writer_connected_def split: option.splits)
    ultimately show ?thesis by blast
  next
    case False
    have eq: "s' = s" "b' = b\<lparr>b_pc := B_Connect\<rparr>"
      using assms(3,4) c False by (auto simp: taskB_step_def connect_to_writer_step_def)
    have "b_inv nm orig s' b'"
      using inv dead cand c by (simp add: eq b_inv_def conn_clause_def reader_clause_def b_control_def)
    moreover have "heldB b' = heldB b" using assms(3) by (simp add: eq heldB_def)
    ultimately show ?thesis using b_effect_same [OF assms(2)] eq(1) by simp
  qed
qed

lemma b_step_connect:
  assumes "b_inv nm orig s b" "closed s \<subseteq> {..<length (conns s)}" "b_pc b = B_Connect" "taskB_step nm orig e s b = (s', b')"
  shows "b_inv nm orig s' b' \<and> effect (heldB b) s (heldB b') s'"
proof -
  note inv = assms(1) [unfolded b_inv_def]
  have dead: "\<not> is_writer_connected s (b_conn b)" "\<not> w_connected (b_result b)" "b_reader b \<noteq> None"
    and cand: "get_writer (b_topology b) = Inr (b_candidate b)" "nm (b_candidate b) \<noteq> nm orig"
    using inv assms(3) by (auto simp: b_control_def)
  obtain nc s1 where o: "open_connection (e_connect e) (b_candidate b) s = (nc, s1)" by fastforce
  have eq: "s' = s1" "b' = b\<lparr>b_conn := nc, b_pc := if is_writer_connected s1 nc then B_MarkUp else B_MarkDown\<rparr>"
    using assms(3,4) o by (auto simp: taskB_step_def fo_connect_def)
  have fr: "frame {} s s1" by (rule frame_open [OF o])
  have to: "conn_to s1 (b_candidate b) c" if "nc = Some c" for c
    using open_connection_new [OF o assms(2)] that by auto
  have rd: "reader_clause s1 b'"
    using inv assms(3) frame_live_to [OF fr] unfolding reader_clause_def by (auto simp: eq)
  have cc: "conn_clause s1 b'" using to by (simp add: conn_clause_def eq conn_to_def)
  have "b_inv nm orig s' b'"
  proof (cases "is_writer_connected s1 nc")
    case True
    then obtain c where "nc = Some c" using connected_SomeD by blast
    with to have "to_candidate nm s1 b'" by (simp add: to_candidate_def eq conn_to_def)
    with True rd cc dead cand show ?thesis by (simp add: b_inv_def eq b_control_def)
  next
    case False
    with rd cc dead show ?thesis by (simp add: b_inv_def eq b_control_def)
  qed
  moreover have "effect (heldB b) s (heldB b') s'"
    unfolding eq(1)
  proof (rule effect_open [OF assms(2) o])
    fix c
    assume c: "c \<in> heldB b"
    then show "c < length (conns s) \<and> (snd (conns s ! c) \<longrightarrow> c \<in> heldB b')"
      using heldB_bound [OF assms(1)] dead(1) assms(3) by (auto simp: heldB_def eq is_writer_connected_def)
  qed (use assms(3) in \<open>auto simp: heldB_def eq\<close>)
  ultimately show ?thesis by blast
qed

lemma b_step_clean:
  assumes "b_inv nm orig s b" "closed s \<subseteq> {..<length (conns s)}" "b_pc b \<in> {B_Clean, B_CleanCancel}"
    and "taskB_step nm orig e s b = (s', b')"
  shows "b_inv nm orig s' b' \<and> effect (heldB b) s (heldB b') s'"
proof -
  note inv = assms(1) [unfolded b_inv_def]
  have unpub: "\<not> w_connected (b_result b)" using inv assms(3) by (elim insertE) (simp_all add: b_control_def)
  obtain s1 b1 where cu: "clean_up_reader_connection s b = (s1, b1)" by fastforce
  have eq: "s' = s1" "b' = b1\<lparr>b_pc := b_pc b'\<rparr>" "b_pc b' \<in> {B_Loop, B_Release}"
    using assms(3,4) cu by (auto simp: taskB_step_def)
  define nc where "nc = (if b_reader b = b_conn b then None else b_reader b)"
  have s1: "s1 = release_new_connection nc s" "b1 = b\<lparr>b_reader := (if b_reader b = b_conn b then b_reader b else None)\<rparr>"
    using cu by (auto simp: clean_up_reader_connection_def nc_def release_new_connection_def split: option.splits if_splits)
  have b': "b_conn b' = b_conn b" "b_reader b' = (if b_reader b = b_conn b then b_reader b else None)"
    "b_reader_host b' = b_reader_host b" "b_topology b' = b_topology b" "b_candidate b' = b_candidate b" "b_result b' = b_result b"
    by (subst eq(2), simp add: s1(2))+
  have same: "is_writer_connected s' (b_conn b) = is_writer_connected s (b_conn b)" "to_candidate nm s' b' = to_candidate nm s b"
    by (simp_all add: eq(1) s1 is_writer_connected_def to_candidate_def b' split: option.split)
  have "conn_clause s' b'" using inv by (auto simp: conn_clause_def eq(1) s1 b' nc_def)
  moreover have "reader_clause s' b'"
    using inv assms(3) by (auto simp: reader_clause_def eq(1) s1 b' nc_def live_to_def conn_to_def)
  moreover have "b_control nm orig (is_writer_connected s' (b_conn b')) (to_candidate nm s' b') (is_completed s') b'"
  proof -
    have "is_writer_connected s (b_conn b) \<longrightarrow> to_candidate nm s b \<and>
        get_writer (b_topology b) = Inr (b_candidate b) \<and> nm (b_candidate b) \<noteq> nm orig"
      using inv by (simp add: b_control_def)
    with eq(3) unpub show ?thesis unfolding same(2) b'(1) same(1)
      by (elim insertE) (simp_all add: b_control_def b')
  qed
  ultimately have "b_inv nm orig s' b'" using unpub by (simp add: b_inv_def b')
  moreover have "effect (heldB b) s (heldB b') s'"
    unfolding eq(1) s1(1)
    by (rule effect_release)
      (use assms(2,3) heldB_bound [OF assms(1)] eq(3) in \<open>auto simp: heldB_def nc_def b' split: if_splits\<close>)
  ultimately show ?thesis by blast
qed

lemma b_step_release:
  assumes "b_inv nm orig s b" "closed s \<subseteq> {..<length (conns s)}" "b_pc b = B_Release" "taskB_step nm orig e s b = (s', b')"
  shows "b_inv nm orig s' b' \<and> effect (heldB b) s (heldB b') s'"
proof -
  note inv = assms(1) [unfolded b_inv_def]
  have unpub: "\<not> w_connected (b_result b)" and rd: "b_reader b = None \<or> b_reader b = b_conn b"
    using inv assms(3) by (simp_all add: b_control_def)
  have eq: "s' = release_new_connection (b_conn b) s" "b' = b\<lparr>b_conn := None, b_pc := B_Done\<rparr>"
    using assms(3,4) by (auto simp: taskB_step_def)
  have "b_inv nm orig s' b'"
    using unpub by (simp add: eq(2) b_inv_def conn_clause_def reader_clause_def b_control_def is_writer_connected_def)
  moreover have "effect (heldB b) s (heldB b') s'"
    unfolding eq(1)
    by (rule effect_release) (use assms(2) heldB_bound [OF assms(1)] rd assms(3) in \<open>auto simp: heldB_def eq(2)\<close>)
  ultimately show ?thesis by blast
qed

lemma b_step_mark:
  assumes "b_inv nm orig s b" "closed s \<subseteq> {..<length (conns s)}"
    and "b_pc b = B_MarkUp \<and> s' = mark_host True (b_candidate b) s \<and> b' = b\<lparr>b_pc := B_Clean\<rparr> \<or>
         b_pc b = B_MarkDown \<and> s' = mark_host False (b_candidate b) s \<and> b' = b\<lparr>b_pc := B_Sleep\<rparr> \<or>
         b_pc b = B_MarkTrue \<and> s' = wait_and_complete s \<and> b' = b\<lparr>b_pc := B_Done\<rparr>"
  shows "b_inv nm orig s' b' \<and> effect (heldB b) s (heldB b') s'"
proof -
  have s': "frame {} s s'" "is_completed s \<longrightarrow> is_completed s'" "conns s' = conns s" "closed s' = closed s"
    using assms(3) by (auto simp: is_completed_def wait_and_complete_def frame_def)
  have inv: "b_inv nm orig s' b" by (rule b_inv_frame [OF assms(1) s'(1) _ s'(2)]) simp
  from assms(3) show ?thesis
  proof (elim disjE conjE)
    assume pc: "b_pc b = B_MarkUp" "b' = b\<lparr>b_pc := B_Clean\<rparr>"
    then have "b_inv nm orig s' b'"
      using inv by (simp add: b_inv_def conn_clause_def reader_clause_def b_control_def)
    moreover have "heldB b' = heldB b" using pc by (simp add: heldB_def)
    ultimately show ?thesis using b_effect_same [OF assms(2) s'(3,4,2)] by simp
  next
    assume pc: "b_pc b = B_MarkDown" "b' = b\<lparr>b_pc := B_Sleep\<rparr>"
    then have "b_inv nm orig s' b'"
      using inv by (simp add: b_inv_def conn_clause_def reader_clause_def b_control_def)
    moreover have "heldB b' = heldB b" using pc by (simp add: heldB_def)
    ultimately show ?thesis using b_effect_same [OF assms(2) s'(3,4,2)] by simp
  next
    assume pc: "b_pc b = B_MarkTrue" "b' = b\<lparr>b_pc := B_Done\<rparr>"
    then have rd: "b_reader b = None \<or> b_reader b = b_conn b" using inv by (simp add: b_inv_def b_control_def)
    have "b_inv nm orig s' b'"
      using inv pc by (simp add: b_inv_def conn_clause_def reader_clause_def b_control_def)
    moreover have "heldB b' = heldB b" using pc rd by (auto simp: heldB_def)
    ultimately show ?thesis using b_effect_same [OF assms(2) s'(3,4,2)] by simp
  qed
qed

lemma b_step_publish:
  assumes "b_inv nm orig s b" "closed s \<subseteq> {..<length (conns s)}" "b_pc b = B_Publish" "taskB_step nm orig e s b = (s', b')"
  shows "b_inv nm orig s' b' \<and> effect (heldB b) s (heldB b') s'"
proof -
  note inv = assms(1) [unfolded b_inv_def]
  have live: "is_writer_connected s (b_conn b)" "to_candidate nm s b"
    "get_writer (b_topology b) = Inr (b_candidate b)" "nm (b_candidate b) \<noteq> nm orig"
    and rd: "b_reader b = None \<or> b_reader b = b_conn b"
    using inv assms(3) by (simp_all add: b_control_def)
  obtain c where c: "b_conn b = Some c" "snd (conns s ! c)" using connected_SomeD [OF live(1)] by blast
  have "live_to s (fst (conns s ! c)) c" using inv c by (simp add: live_to_def conn_to_def conn_clause_def)
  moreover have "nm (fst (conns s ! c)) = nm (b_candidate b)" using live(2) c by (simp add: to_candidate_def)
  ultimately have ok: "writer_result_ok nm orig s \<lparr>w_connected = True, w_is_new_host = True,
      w_new_topology = Some (b_topology b), w_new_connection = b_conn b\<rparr>"
    using live(3,4) c(1) by (auto simp: writer_result_ok_def)
  have eq: "s' = s" "b' = b\<lparr>b_result := \<lparr>w_connected = True, w_is_new_host = True,
      w_new_topology = Some (b_topology b), w_new_connection = b_conn b\<rparr>, b_pc := B_MarkTrue\<rparr>"
    using assms(3,4) by (auto simp: taskB_step_def)
  have "b_inv nm orig s' b'"
    using inv assms(3) live rd ok
    by (simp add: eq b_inv_def conn_clause_def reader_clause_def b_control_def)
  moreover have "heldB b' = heldB b" using assms(3) by (simp add: eq heldB_def)
  ultimately show ?thesis using b_effect_same [OF assms(2)] eq(1) by simp
qed

lemma b_step_effect:
  assumes "b_inv nm orig s b" "closed s \<subseteq> {..<length (conns s)}" "taskB_step nm orig e s b = (s', b')"
  shows "b_inv nm orig s' b' \<and> effect (heldB b) s (heldB b') s'"
proof (cases "b_pc b")
  case B_MarkUp
  with assms(3) show ?thesis by (intro b_step_mark [OF assms(1,2)]) (simp add: taskB_step_def)
next
  case B_MarkDown
  with assms(3) show ?thesis by (intro b_step_mark [OF assms(1,2)]) (simp add: taskB_step_def)
next
  case B_MarkTrue
  with assms(3) show ?thesis by (intro b_step_mark [OF assms(1,2)]) (simp add: taskB_step_def)
next
  case B_Done
  with assms show ?thesis using b_effect_same [OF assms(2)] by (simp add: taskB_step_def)
next
  case (B_Threw x)
  with assms show ?thesis using b_effect_same [OF assms(2)] by (simp add: taskB_step_def)
qed (use b_step_local [OF assms(1,2) _ assms(3)] b_step_get_reader [OF assms(1,2) _ assms(3)]
    b_step_topology [OF assms(1,2) _ assms(3)] b_step_try [OF assms(1,2) _ assms(3)]
    b_step_connect [OF assms(1,2) _ assms(3)] b_step_clean [OF assms(1,2) _ assms(3)]
    b_step_release [OF assms(1,2) _ assms(3)] b_step_publish [OF assms(1,2) _ assms(3)] in simp_all)

section \<open>The invariant of the failover\<close>

definition owned_live :: "shared \<Rightarrow> shared \<Rightarrow> conn set \<Rightarrow> bool" where
  "owned_live s0 s H \<longleftrightarrow>
     (\<forall>c. c < length (conns s) \<longrightarrow> length (conns s0) \<le> c \<longrightarrow> snd (conns s ! c) \<longrightarrow> c \<in> closed s \<union> H)"

definition returned_ok :: "writer_failover \<Rightarrow> bool" where
  "returned_ok f \<longleftrightarrow> (\<forall>r. w_main f = W_Return r \<longrightarrow> r = no_result \<or> w_connected r \<and>
     (r = a_result (w_a f) \<and> a_pc (w_a f) = A_Done \<or> r = b_result (w_b f) \<and> b_pc (w_b f) = B_Done))"

definition failover_inv :: "(ref \<Rightarrow> string) \<Rightarrow> ref \<Rightarrow> shared \<Rightarrow> writer_failover \<Rightarrow> bool" where
  "failover_inv nm orig s0 f \<longleftrightarrow>
     closed (w_sh f) \<subseteq> {..<length (conns (w_sh f))} \<and> a_inv nm orig (w_sh f) (w_a f) \<and> b_inv nm orig (w_sh f) (w_b f) \<and>
     heldA (w_a f) \<inter> heldB (w_b f) = {} \<and> owned_live s0 (w_sh f) (heldA (w_a f) \<union> heldB (w_b f)) \<and>
     (w_main f \<noteq> W_Wait \<longrightarrow> is_completed (w_sh f)) \<and> returned_ok f"

lemma effect_owned:
  assumes "effect H s H' s'" "owned_live s0 s (H \<union> K)"
  shows "owned_live s0 s' (H' \<union> K)"
  unfolding owned_live_def
proof (intro allI impI)
  fix c
  assume c: "c < length (conns s')" "length (conns s0) \<le> c" "snd (conns s' ! c)"
  show "c \<in> closed s' \<union> (H' \<union> K)"
  proof (cases "c < length (conns s)")
    case True
    moreover have "conns s' ! c = conns s ! c" "closed s \<subseteq> closed s'"
      using assms(1) True by (auto simp: effect_def frame_def nth_append)
    ultimately have "c \<in> closed s \<union> (H \<union> K)" using assms(2) c by (simp add: owned_live_def)
    then show ?thesis using assms(1) c(3) \<open>closed s \<subseteq> closed s'\<close> by (auto simp: effect_def)
  qed (use assms(1) c in \<open>simp add: effect_def\<close>)
qed

lemma effect_disjoint:
  assumes "effect H s H' s'" "H \<inter> K = {}" "K \<subseteq> {..<length (conns s)}"
  shows "H' \<inter> K = {}"
proof -
  have "H' \<subseteq> H \<union> {length (conns s)..}" using assms(1) by (simp add: effect_def)
  with assms(2,3) show ?thesis by force
qed

lemma start_failover_inv:
  assumes "failover_starts t s0 orig f"
  shows "failover_inv nm orig s0 f"
proof -
  have f: "f = \<lparr>w_sh = mark_host False orig (s0\<lparr>num_tasks := 2\<rparr>), w_a = new_taskA, w_b = new_taskB t, w_main = W_Wait,
      w_validA = True, w_validB = True\<rparr>" and ok: "closed s0 \<subseteq> {..<length (conns s0)}"
    using assms by (auto simp: failover_starts_def start_failover_def conns_ok_def split: if_splits sum.splits)
  have "a_inv nm orig s new_taskA" "b_inv nm orig s (new_taskB t)" for s
    by (simp_all add: a_inv_def b_inv_def new_taskA_def new_taskB_def no_result_def is_writer_connected_def
        conn_clause_def reader_clause_def b_control_def)
  then show ?thesis
    using ok by (simp add: f failover_inv_def owned_live_def returned_ok_def new_taskA_def new_taskB_def heldB_def)
qed

lemma failover_step_A:
  assumes "failover_inv nm orig s0 f" "\<not> a_finished (w_a f)" "taskA_step nm orig e (w_sh f) (w_a f) = (s', a')"
  shows "failover_inv nm orig s0 (f\<lparr>w_sh := s', w_a := a'\<rparr>)"
proof -
  note inv = assms(1) [unfolded failover_inv_def]
  have a: "a_inv nm orig s' a'" and eff: "effect (heldA (w_a f)) (w_sh f) (heldA a') s'"
    using a_step_effect [of nm orig "w_sh f" "w_a f"] inv assms(3) by blast+
  have fr: "frame (heldA (w_a f)) (w_sh f) s'" and comp: "is_completed (w_sh f) \<longrightarrow> is_completed s'"
    and cl: "closed s' \<subseteq> {..<length (conns s')}"
    using eff by (simp_all add: effect_def)
  have b: "b_inv nm orig s' (w_b f)" by (rule b_inv_frame [OF _ fr _ comp]) (use inv in blast)+
  have dis: "heldA a' \<inter> heldB (w_b f) = {}"
    by (rule effect_disjoint [OF eff]) (use inv heldB_bound in blast)+
  have own: "owned_live s0 s' (heldA a' \<union> heldB (w_b f))" by (rule effect_owned [OF eff]) (use inv in blast)
  have "a_pc (w_a f) \<noteq> A_Done" using assms(2) by (auto simp: a_finished_def)
  then have "returned_ok (f\<lparr>w_sh := s', w_a := a'\<rparr>)" using inv unfolding returned_ok_def by auto
  with a b cl dis own comp inv show ?thesis by (simp add: failover_inv_def)
qed

lemma failover_step_B:
  assumes "failover_inv nm orig s0 f" "\<not> b_finished (w_b f)" "taskB_step nm orig e (w_sh f) (w_b f) = (s', b')"
  shows "failover_inv nm orig s0 (f\<lparr>w_sh := s', w_b := b'\<rparr>)"
proof -
  note inv = assms(1) [unfolded failover_inv_def]
  have b: "b_inv nm orig s' b'" and eff: "effect (heldB (w_b f)) (w_sh f) (heldB b') s'"
    using b_step_effect [of nm orig "w_sh f" "w_b f"] inv assms(3) by blast+
  have fr: "frame (heldB (w_b f)) (w_sh f) s'" and comp: "is_completed (w_sh f) \<longrightarrow> is_completed s'"
    and cl: "closed s' \<subseteq> {..<length (conns s')}"
    using eff by (simp_all add: effect_def)
  have a: "a_inv nm orig s' (w_a f)" by (rule a_inv_frame [OF _ fr]) (use inv in blast)+
  have dis: "heldB b' \<inter> heldA (w_a f) = {}"
    by (rule effect_disjoint [OF eff]) (use inv heldA_bound in blast)+
  have own: "owned_live s0 s' (heldB b' \<union> heldA (w_a f))"
    by (rule effect_owned [OF eff]) (use inv in \<open>simp add: Un_commute\<close>)
  have "b_pc (w_b f) \<noteq> B_Done" using assms(2) by (auto simp: b_finished_def)
  then have "returned_ok (f\<lparr>w_sh := s', w_b := b'\<rparr>)" using inv unfolding returned_ok_def by auto
  with a b cl dis own comp inv show ?thesis by (simp add: failover_inv_def Un_commute Int_commute)
qed

lemma failover_step_main:
  assumes "failover_inv nm orig s0 f"
  shows "failover_inv nm orig s0 (w_main_step expired f)"
proof (cases "w_main f = W_Wait")
  case True
  note inv = assms [unfolded failover_inv_def]
  have "a_inv nm orig (wait_and_complete (w_sh f)) (w_a f)" by (rule a_inv_frame [of _ _ _ _ "{}"]) (use inv in auto)
  moreover have "b_inv nm orig (wait_and_complete (w_sh f)) (w_b f)" by (rule b_inv_frame [of _ _ _ _ "{}"]) (use inv in auto)
  ultimately show ?thesis
    using inv True by (simp add: w_main_step_def failover_inv_def owned_live_def returned_ok_def)
next
  case False
  have same: "w_sh (w_main_step expired f) = w_sh f" "w_a (w_main_step expired f) = w_a f" "w_b (w_main_step expired f) = w_b f"
    using False by (auto simp: w_main_step_def split: w_pc.splits)
  have main: "w_main (w_main_step expired f) \<noteq> W_Wait"
    using False by (auto simp: w_main_step_def split: w_pc.splits a_pc.splits b_pc.splits)
  have "returned_ok (w_main_step expired f)"
    using assms False unfolding failover_inv_def returned_ok_def
    by (cases "w_main f") (auto simp: w_main_step_def a_finished_def b_finished_def split: a_pc.splits b_pc.splits if_splits)
  with assms same main False show ?thesis by (simp add: failover_inv_def)
qed

interpretation wfailover: step_system "failover_starts t s0 orig" "failover_step env_ok nm orig" "failover_inv nm orig s0"
  for t s0 orig env_ok nm
  by unfold_locales
    (auto elim!: failover_step.cases intro: start_failover_inv failover_step_A failover_step_B failover_step_main)

lemma returned_result:
  assumes "failover_reachable env_ok nm t s0 orig f" "w_main f = W_Return r"
  shows "r = no_result \<or> w_connected r \<and> writer_result_ok nm orig (w_sh f) r"
proof -
  have inv: "failover_inv nm orig s0 f" by (rule wfailover.reachable_inv [OF assms(1)])
  then have "r = no_result \<or> w_connected r \<and> (r = a_result (w_a f) \<or> r = b_result (w_b f))"
    using assms(2) by (auto simp: failover_inv_def returned_ok_def)
  moreover have "writer_result_ok nm orig (w_sh f) (a_result (w_a f))" if "w_connected (a_result (w_a f))"
    using inv that by (simp add: failover_inv_def a_inv_def)
  moreover have "writer_result_ok nm orig (w_sh f) (b_result (w_b f))" if "w_connected (b_result (w_b f))"
    using inv that by (simp add: failover_inv_def b_inv_def)
  ultimately show ?thesis by blast
qed

text \<open>Connections are only added, and only connections the failover opened itself are deleted.\<close>

lemma failover_own: "failover_reachable env_ok nm t s0 orig f \<Longrightarrow>
    own_frame s0 (w_sh f) \<and> heldA (w_a f) \<subseteq> {length (conns s0)..} \<and> heldB (w_b f) \<subseteq> {length (conns s0)..}"
proof (induction rule: reachable.induct)
  case (start f)
  then show ?case
    by (auto simp: failover_starts_def start_failover_def frame_def mark_host_def new_taskA_def new_taskB_def heldB_def
        split: if_splits sum.splits)
next
  case (step f f')
  have inv: "failover_inv nm orig s0 f" by (rule wfailover.reachable_inv [OF step(1)])
  note i = inv [unfolded failover_inv_def]
  have eff: "own_frame s0 s' \<and> H' \<subseteq> {length (conns s0)..}"
    if "effect H (w_sh f) H' s'" "H \<subseteq> {length (conns s0)..}" for H H' s'
    using own_frame_step [of s0 "w_sh f" H s' H'] step(3) that by (simp add: effect_def)
  from step(2) show ?case
  proof (cases rule: failover_step.cases)
    case (stepMain expired)
    then show ?thesis using step(3) by (auto simp: w_main_step_def frame_def split: w_pc.splits if_splits)
  next
    case (stepA e s' a')
    then show ?thesis using eff a_step_effect [of nm orig "w_sh f" "w_a f"] i step(3) by fastforce
  next
    case (stepB e s' b')
    then show ?thesis using eff b_step_effect [of nm orig "w_sh f" "w_b f"] i step(3) by fastforce
  qed
qed

lemma returned_new:
  assumes "failover_reachable env_ok nm t s0 orig f" "w_main f = W_Return r" "w_connected r"
  shows "set_option (w_new_connection r) \<subseteq> {length (conns s0)..}"
proof -
  have inv: "failover_inv nm orig s0 f" by (rule wfailover.reachable_inv [OF assms(1)])
  have "r \<noteq> no_result" using assms(3) by (auto simp: no_result_def)
  then have "r = a_result (w_a f) \<or> r = b_result (w_b f)" using inv assms(2) by (auto simp: failover_inv_def returned_ok_def)
  then have "w_new_connection r = a_conn (w_a f) \<or> w_new_connection r = b_conn (w_b f)"
    using inv assms(3) by (auto simp: failover_inv_def a_inv_def b_inv_def b_control_def)
  then show ?thesis using failover_own [OF assms(1)] by (auto simp: heldB_def)
qed

text \<open>What \<^verbatim>\<open>FAILOVER_WRITER_HANDLER::failover\<close> returns, or throws.\<close>

definition writer_failover_returns ::
  "(env \<Rightarrow> bool) \<Rightarrow> (ref \<Rightarrow> string) \<Rightarrow> topology option \<Rightarrow> shared \<Rightarrow> writer_result res \<Rightarrow> shared \<Rightarrow> bool" where
  "writer_failover_returns env_ok nm topo s res s' \<longleftrightarrow>
     (case start_failover topo s of
        Inl e \<Rightarrow> res = Inl e \<and> s' = s
      | Inr (Inl r) \<Rightarrow> res = Inr r \<and> s' = s
      | Inr (Inr (orig, f0)) \<Rightarrow>
          (\<exists>f. failover_reachable env_ok nm (the topo) s orig f \<and> s' = w_sh f \<and>
             (case res of Inl e \<Rightarrow> w_main f = W_Exc e | Inr r \<Rightarrow> w_main f = W_Return r)))"

lemma writer_failover_returnsE:
  assumes "writer_failover_returns env_ok nm topo s res s'"
  obtains (early) "s' = s" "\<And>r. res = Inr r \<Longrightarrow> r = no_result"
  | (run) orig f where "failover_reachable env_ok nm (the topo) s orig f" "s' = w_sh f"
      "\<And>r. res = Inr r \<Longrightarrow> w_main f = W_Return r"
proof (cases "start_failover topo s")
  case (Inl e)
  then show ?thesis using assms by (intro early) (auto simp: writer_failover_returns_def)
next
  case (Inr x)
  note st = Inr
  show ?thesis
  proof (cases x)
    case (Inl r)
    then have "r = no_result" using st by (auto simp: start_failover_def split: option.splits if_splits sum.splits)
    with st Inl show ?thesis using assms by (intro early) (auto simp: writer_failover_returns_def)
  next
    case (Inr y)
    obtain orig f0 where "y = (orig, f0)" by (cases y)
    then obtain f where "failover_reachable env_ok nm (the topo) s orig f" "s' = w_sh f"
      "case res of Inl e \<Rightarrow> w_main f = W_Exc e | Inr r \<Rightarrow> w_main f = W_Return r"
      using st Inr assms by (auto simp: writer_failover_returns_def)
    then show ?thesis by (intro run [of orig f]) auto
  qed
qed

lemma writer_failover_returned:
  assumes "writer_failover_returns env_ok nm topo s (Inr r) s'" "w_connected r"
  shows "\<exists>orig. writer_result_ok nm orig s' r"
  using assms(1)
proof (cases rule: writer_failover_returnsE)
  case early
  then show ?thesis using assms(2) by (simp add: no_result_def)
next
  case (run orig f)
  have "r \<noteq> no_result" using assms(2) by (auto simp: no_result_def)
  then show ?thesis using returned_result [OF run(1) run(3) [OF refl]] run(2) by blast
qed

lemma writer_failover_returns_frame:
  assumes "writer_failover_returns env_ok nm topo s res s'"
  shows "own_frame s s' \<and> (\<forall>r. res = Inr r \<longrightarrow> w_connected r \<longrightarrow> set_option (w_new_connection r) \<subseteq> {length (conns s)..})"
  using assms
proof (cases rule: writer_failover_returnsE)
  case early
  then show ?thesis by (auto simp: no_result_def)
next
  case (run orig f)
  then show ?thesis using failover_own [OF run(1)] returned_new [OF run(1)] by simp
qed

text \<open>
  C20. In every interleaving of writer failover, a result the caller returns is either the empty
  one or carries a live connection that nobody has deleted, and the instance it leads to is the
  one the result's topology names as the writer. It is the original writer exactly when the
  result says that the host is not new.
\<close>

theorem writer_failover_result:
  assumes "failover_reachable env_ok nm t s0 orig f" "w_main f = W_Return r"
  shows "r = no_result \<or> w_connected r \<and> writer_result_ok nm orig (w_sh f) r"
  using assms by (rule returned_result)

lemma wsched_reachable:
  assumes "failover_reachable env_ok nm t s0 orig f" "\<And>e. env_ok e"
  shows "failover_reachable env_ok nm t s0 orig (fold (wsched_step nm orig) xs f)"
  using assms
proof (induction xs arbitrary: f)
  case (Cons x xs)
  have "failover_step env_ok nm orig f (wsched_step nm orig x f) \<or> wsched_step nm orig x f = f"
    using Cons.prems(2) by (cases x) (auto simp: wsched_step_def intro: failover_step.intros split: prod.split)
  with Cons.IH [OF _ Cons.prems(2)] Cons.prems(1) show ?case by (auto intro: reachable.step)
qed simp

text \<open>An example: a cluster of two instances, \<open>a\<close> the writer before, \<open>b\<close> the writer after.\<close>

definition ex_name :: "ref \<Rightarrow> string" where
  "ex_name r = (if r = 0 then ''a'' else ''b'')"

definition ex_before :: topology where
  "ex_before = (CLUSTER_TOPOLOGY_INFO 0)\<lparr>writers := [0], readers := [1]\<rparr>"

definition ex_after :: topology where
  "ex_after = (CLUSTER_TOPOLOGY_INFO 0)\<lparr>writers := [1], readers := [0]\<rparr>"

definition ex_env :: "topology \<Rightarrow> env" where
  "ex_env t = \<lparr>e_connect = Conn_live, e_topology = Some t, e_reader = RA_conn 1\<rparr>"

definition ex_start :: writer_failover where
  "ex_start = \<lparr>w_sh = mark_host False 0 (empty_shared\<lparr>num_tasks := 2\<rparr>), w_a = new_taskA, w_b = new_taskB ex_before,
     w_main = W_Wait, w_validA = True, w_validB = True\<rparr>"

lemma ex_start_reachable: "failover_reachable (\<lambda>_. True) ex_name ex_before empty_shared 0 (fold (wsched_step ex_name 0) xs ex_start)"
  by (rule wsched_reachable)
    (simp_all add: reachable.start failover_starts_def start_failover_def ex_before_def ex_start_def total_hosts_def get_writer_def)

lemmas failover_eval = wsched_step_def taskA_step_def taskB_step_def w_main_step_def a_finished_def b_finished_def
  ex_start_def new_taskA_def new_taskB_def ex_env_def ex_name_def ex_before_def ex_after_def
  empty_shared_def fo_connect_def open_connection_def is_writer_connected_def mark_host_def is_completed_def
  wait_and_complete_def release_new_connection_def delete_connection_def clean_up_reader_connection_def
  connect_to_reader_step_def refresh_topology_step_def connect_to_writer_step_def is_current_host_writer_def
  get_writer_def total_hosts_def mark_as_complete_def no_result_def CLUSTER_TOPOLOGY_INFO_def

theorem writer_failover_result_witness:
  "let f = fold (wsched_step ex_name 0) (replicate 11 (SB (ex_env ex_after)) @
             [SA (ex_env ex_before), SA (ex_env ex_before), SM False, SM False, SM False]) ex_start
   in \<exists>r. w_main f = W_Return r \<and> w_is_new_host r \<and> writer_result_ok ex_name 0 (w_sh f) r"
proof -
  define f where "f = fold (wsched_step ex_name 0) (replicate 11 (SB (ex_env ex_after)) @
             [SA (ex_env ex_before), SA (ex_env ex_before), SM False, SM False, SM False]) ex_start"
  have reach: "failover_reachable (\<lambda>_. True) ex_name ex_before empty_shared 0 f"
    unfolding f_def by (rule ex_start_reachable)
  have "\<exists>r. w_main f = W_Return r \<and> w_is_new_host r"
    unfolding f_def by (simp add: failover_eval numeral_eq_Suc)
  then obtain r where r: "w_main f = W_Return r" "w_is_new_host r" by blast
  moreover have "r \<noteq> no_result" using r(2) by (auto simp: no_result_def)
  ultimately show ?thesis
    using writer_failover_result [OF reach r(1)] unfolding f_def [symmetric] Let_def by blast
qed



text \<open>
  The two tasks can both succeed: each passes its check for completion before the other marks
  the failover complete. The caller then returns the reconnection to the original writer, and
  the connection of the other result stays open.
\<close>

theorem writer_failover_race:
  "\<exists>f r c. failover_reachable (\<lambda>_. True) ex_name ex_before empty_shared 0 f \<and>
     w_main f = W_Return r \<and> r = a_result (w_a f) \<and> b_pc (w_b f) = B_Done \<and> w_connected (b_result (w_b f)) \<and>
     w_new_connection (b_result (w_b f)) = Some c \<and> c \<notin> closed (w_sh f) \<and> snd (conns (w_sh f) ! c)"
proof -
  let ?f = "fold (wsched_step ex_name 0) (replicate 9 (SB (ex_env ex_after)) @ replicate 7 (SA (ex_env ex_before)) @
      replicate 2 (SB (ex_env ex_after)) @ [SM False, SM False]) ex_start"
  have "\<exists>r c. w_main ?f = W_Return r \<and> r = a_result (w_a ?f) \<and> b_pc (w_b ?f) = B_Done \<and> w_connected (b_result (w_b ?f)) \<and>
     w_new_connection (b_result (w_b ?f)) = Some c \<and> c \<notin> closed (w_sh ?f) \<and> snd (conns (w_sh ?f) ! c)"
    by (simp add: failover_eval numeral_eq_Suc)
  with ex_start_reachable show ?thesis by blast
qed

section \<open>Exceptions and cancellation\<close>

text \<open>
  The environment the tasks count on: the topology service answers a topology, which has a
  writer when it has a host, and the reader handler does not throw.
\<close>

definition env_good :: "env \<Rightarrow> bool" where
  "env_good e \<longleftrightarrow> (\<exists>t. e_topology e = Some t \<and> (total_hosts t > 0 \<longrightarrow> writers t \<noteq> [])) \<and> e_reader e \<noteq> RA_threw"

definition no_throw :: "writer_failover \<Rightarrow> bool" where
  "no_throw f \<longleftrightarrow> (\<forall>x. a_pc (w_a f) \<noteq> A_Threw x) \<and> (\<forall>x. b_pc (w_b f) \<noteq> B_Threw x) \<and> (\<forall>x. w_main f \<noteq> W_Exc x)"

lemma get_writer_good: "writers t \<noteq> [] \<Longrightarrow> \<exists>w. get_writer t = Inr w"
  by (cases "writers t") (simp_all add: get_writer_def)

lemma a_step_no_throw:
  assumes "env_good e" "taskA_step nm orig e s a = (s', a')" "\<forall>x. a_pc a \<noteq> A_Threw x"
  shows "a_pc a' \<noteq> A_Threw x"
proof (cases "a_pc a")
  case A_Topology
  obtain t where t: "e_topology e = Some t" "total_hosts t > 0 \<longrightarrow> (\<exists>w. get_writer t = Inr w)"
    using assms(1) get_writer_good by (auto simp: env_good_def)
  with A_Topology assms(2) show ?thesis
    by (auto simp: taskA_step_def is_current_host_writer_def split: if_splits)
qed (use assms(2,3) in \<open>auto simp: taskA_step_def fo_connect_def split: prod.splits if_splits\<close>)

lemma b_step_no_throw:
  assumes "env_good e" "b_inv nm orig s b" "taskB_step nm orig e s b = (s', b')" "\<forall>x. b_pc b \<noteq> B_Threw x"
  shows "b_pc b' \<noteq> B_Threw x"
proof (cases "b_pc b")
  case B_Topology
  obtain t where t: "e_topology e = Some t" "total_hosts t > 0 \<longrightarrow> (\<exists>w. get_writer t = Inr w)"
    using assms(1) get_writer_good by (auto simp: env_good_def)
  with B_Topology assms(3) show ?thesis
    by (auto simp: taskB_step_def refresh_topology_step_def split: if_splits)
next
  case B_Try
  then obtain c h where "b_reader b = Some c" "b_reader_host b = Some h"
    using assms(2) by (auto simp: b_inv_def b_control_def reader_clause_def)
  with B_Try assms(3) show ?thesis by (auto simp: taskB_step_def connect_to_writer_step_def split: if_splits)
next
  case B_GetReader
  with assms(1,3) show ?thesis
    by (auto simp: taskB_step_def connect_to_reader_step_def env_good_def split: reader_answer.splits prod.splits)
next
  case B_Clean
  with assms(3) show ?thesis by (auto simp: taskB_step_def split: prod.splits)
next
  case B_CleanCancel
  with assms(3) show ?thesis by (auto simp: taskB_step_def split: prod.splits)
qed (use assms(3,4) in \<open>auto simp: taskB_step_def fo_connect_def split: prod.splits if_splits\<close>)

lemma main_step_no_throw: "no_throw f \<Longrightarrow> no_throw (w_main_step expired f)"
  by (auto simp: no_throw_def w_main_step_def split: w_pc.splits a_pc.splits b_pc.splits if_splits)

lemma failover_step_no_throw:
  assumes "failover_inv nm orig s0 f" "no_throw f" "failover_step env_good nm orig f f'"
  shows "no_throw f'"
  using assms(3)
proof cases
  case (stepA e s' a')
  with assms(2) a_step_no_throw [OF stepA(2,4)] show ?thesis by (auto simp: no_throw_def)
next
  case (stepB e s' b')
  moreover have "b_inv nm orig (w_sh f) (w_b f)" using assms(1) by (simp add: failover_inv_def)
  ultimately show ?thesis using assms(2) b_step_no_throw [OF stepB(2) _ stepB(4)] by (auto simp: no_throw_def)
next
  case (stepMain expired)
  then show ?thesis using main_step_no_throw [OF assms(2)] by blast
qed

lemma failover_start_no_throw: "failover_starts t s0 orig f \<Longrightarrow> no_throw f"
  by (auto simp: failover_starts_def start_failover_def no_throw_def new_taskA_def new_taskB_def split: if_splits sum.splits)

interpretation gfailover: step_system "failover_starts t s0 orig" "failover_step env_good nm orig"
    "\<lambda>f. failover_inv nm orig s0 f \<and> no_throw f"
  for t s0 orig nm
proof unfold_locales
  fix f f'
  assume "failover_starts t s0 orig f"
  then show "failover_inv nm orig s0 f \<and> no_throw f" using start_failover_inv failover_start_no_throw by blast
next
  fix f f'
  assume "failover_inv nm orig s0 f \<and> no_throw f" "failover_step env_good nm orig f f'"
  then show "failover_inv nm orig s0 f' \<and> no_throw f'"
    using wfailover.step_inv failover_step_no_throw by blast
qed



text \<open>The steps a cancelled task still makes, at most.\<close>

definition rankA :: "taskA \<Rightarrow> nat" where
  "rankA a = (case a_pc a of A_Connect \<Rightarrow> 6 | A_Topology \<Rightarrow> 5 | A_Drop \<Rightarrow> 4 | A_MarkUp \<Rightarrow> 4 | A_Sleep \<Rightarrow> 3 | A_Check \<Rightarrow> 3
     | A_Loop \<Rightarrow> 2 | A_Publish \<Rightarrow> 2 | A_Release \<Rightarrow> 1 | A_MarkTrue \<Rightarrow> 1 | A_Done \<Rightarrow> 0 | A_Threw _ \<Rightarrow> 0)"

definition rankB :: "taskB \<Rightarrow> nat" where
  "rankB b = (case b_pc b of B_Topology \<Rightarrow> 10 | B_Try \<Rightarrow> 9 | B_Connect \<Rightarrow> 8 | B_MarkDown \<Rightarrow> 7 | B_GetReader \<Rightarrow> 7
     | B_Sleep \<Rightarrow> 6 | B_ReaderLoop \<Rightarrow> 6 | B_RefreshLoop \<Rightarrow> 5 | B_MarkUp \<Rightarrow> 5 | B_Clean \<Rightarrow> 4 | B_Loop \<Rightarrow> 3
     | B_CleanCancel \<Rightarrow> 2 | B_Publish \<Rightarrow> 2 | B_Release \<Rightarrow> 1 | B_MarkTrue \<Rightarrow> 1 | B_Done \<Rightarrow> 0 | B_Threw _ \<Rightarrow> 0)"

lemma rankA_finished: "a_finished a \<longleftrightarrow> rankA a = 0"
  by (simp add: a_finished_def rankA_def split: a_pc.split)

lemma rankB_finished: "b_finished b \<longleftrightarrow> rankB b = 0"
  by (simp add: b_finished_def rankB_def split: b_pc.split)

lemma completed_open: "open_connection r h s = (nc, s') \<Longrightarrow> is_completed s' = is_completed s"
  by (auto simp: open_connection_def is_completed_def split: outcome.splits)

lemma completed_release [simp]:
  "is_completed (release_new_connection nc s) = is_completed s" "is_completed (mark_host b h s) = is_completed s"
  "is_completed (delete_connection c s) = is_completed s"
  by (simp_all add: is_completed_def)

lemma rankA_step:
  assumes "is_completed s" "taskA_step nm orig e s a = (s', a')"
  shows "is_completed s' \<and> rankA a' \<le> rankA a - 1"
  using assms
  by (cases "a_pc a") (auto simp: taskA_step_def rankA_def fo_connect_def completed_open
      split: prod.splits option.splits if_splits sum.splits)

lemma clean_up_pc: "clean_up_reader_connection s b = (s', b') \<Longrightarrow> is_completed s' = is_completed s"
  by (auto simp: clean_up_reader_connection_def split: option.splits if_splits)

lemma rankB_step:
  assumes "is_completed s" "taskB_step nm orig e s b = (s', b')"
  shows "is_completed s' \<and> rankB b' \<le> rankB b - 1"
  using assms
  by (cases "b_pc b") (auto simp: taskB_step_def rankB_def fo_connect_def completed_open clean_up_pc
      connect_to_reader_step_def refresh_topology_step_def connect_to_writer_step_def
      split: prod.splits option.splits if_splits sum.splits reader_answer.splits)

text \<open>
  C24. Once the failover is completed (a task finished or the caller's time is over), a task comes
  to its end within a bounded number of its own steps, whatever connecting and the topology
  service answer: six for the reconnecting task, ten for the waiting one.
\<close>

theorem cancelled_tasks_end:
  assumes "is_completed s"
  shows "(length es \<ge> 6 \<longrightarrow> a_finished (snd (fold (\<lambda>e (s, a). taskA_step nm orig e s a) es (s, a)))) \<and>
    (length es \<ge> 10 \<longrightarrow> b_finished (snd (fold (\<lambda>e (s, b). taskB_step nm orig e s b) es (s, b))))"
proof -
  have "rankA (snd (fold (\<lambda>e (s, a). taskA_step nm orig e s a) es (s, a))) \<le> rankA a - length es"
    using assms
  proof (induction es arbitrary: s a)
    case (Cons e es)
    obtain s' a' where st: "taskA_step nm orig e s a = (s', a')" by fastforce
    have "is_completed s'" "rankA a' \<le> rankA a - 1" using rankA_step [OF Cons.prems st] by blast+
    with Cons.IH [of s' a'] have "rankA (snd (fold (\<lambda>e (s, a). taskA_step nm orig e s a) es (s', a'))) \<le> rankA a - 1 - length es"
      by (meson diff_le_mono order_trans)
    then show ?case by (simp add: st)
  qed simp
  moreover have "rankB (snd (fold (\<lambda>e (s, b). taskB_step nm orig e s b) es (s, b))) \<le> rankB b - length es"
    using assms
  proof (induction es arbitrary: s b)
    case (Cons e es)
    obtain s' b' where st: "taskB_step nm orig e s b = (s', b')" by fastforce
    have "is_completed s'" "rankB b' \<le> rankB b - 1" using rankB_step [OF Cons.prems st] by blast+
    with Cons.IH [of s' b'] have "rankB (snd (fold (\<lambda>e (s, b). taskB_step nm orig e s b) es (s', b'))) \<le> rankB b - 1 - length es"
      by (meson diff_le_mono order_trans)
    then show ?case by (simp add: st)
  qed simp
  moreover have "rankA a \<le> 6" "rankB b \<le> 10"
    by (simp_all add: rankA_def rankB_def split: a_pc.split b_pc.split)
  ultimately show ?thesis unfolding rankA_finished rankB_finished by auto
qed

theorem cancelled_tasks_end_witness:
  "is_completed empty_shared \<and>
   b_finished (snd (fold (\<lambda>e (s, b). taskB_step ex_name 0 e s b) (replicate 10 (ex_env ex_after)) (empty_shared, new_taskB ex_before)))"
proof -
  have c: "is_completed empty_shared" by (simp add: is_completed_def empty_shared_def)
  show ?thesis
    using c cancelled_tasks_end [OF c, of "replicate 10 (ex_env ex_after)" ex_name 0 new_taskA "new_taskB ex_before"] by simp
qed

end
