(* ===== verification/Unicode_Transcode.thy ===== *)
theory Unicode_Transcode
  imports Driver_Prelude
begin

text \<open>
  The raw conversions between UTF-8, UTF-16 and UTF-32 of \<^verbatim>\<open>util/unicode_transcode.cc\<close>.

  A code unit or code point is a natural number; the width of \<^verbatim>\<open>UTF8\<close>, \<^verbatim>\<open>UTF16\<close> and
  \<^verbatim>\<open>UTF32\<close> appears as the \<open>mod\<close> of each assignment that can exceed it. A pointer into a
  string is the list of the units from there on; the strings are NUL-terminated, so a read at
  the end of the list yields the terminator. A conversion returns the number of units it consumed
  with the code point, or the units it produced.
\<close>

unbundle bit_operations_syntax

definition rd :: "nat list \<Rightarrow> nat \<Rightarrow> nat" where
  "rd s k = (if k < length s then s ! k else 0)"

lemma rd_simps [simp]: "rd (x # xs) 0 = x" "rd (x # xs) (Suc k) = rd xs k" "rd [] k = 0"
  by (simp_all add: rd_def)

lemma rd_numeral [simp]: "rd (x # xs) (numeral n) = rd xs (pred_numeral n)"
  by (simp add: rd_def)

section \<open>The conversions\<close>

definition utf16toutf32 :: "nat list \<Rightarrow> nat \<times> nat" where
  "utf16toutf32 i =
     (if rd i 0 \<ge> 0xd800 \<and> rd i 0 \<le> 0xdbff then
        (let u = 0x10000 OR push_bit 10 (rd i 0 AND 0x3ff)
         in if rd i 1 < 0xdc00 \<or> rd i 1 > 0xdfff then (0, u)
            else (2, u OR (rd i 1 AND 0x3ff)))
      else (1, rd i 0))"

definition utf32toutf16 :: "nat \<Rightarrow> nat list" where
  "utf32toutf16 i =
     (if i < 0xffff then [i AND 0xffff]
      else if i < 0x10ffff then
        (let i = (i + 2 ^ 32 - 0x10000) mod 2 ^ 32
         in [(0xd800 OR drop_bit 10 i) mod 2 ^ 16, (0xdc00 OR (i AND 0x3ff)) mod 2 ^ 16])
      else [])"

text \<open>The loop over the \<open>x\<close> continuation bytes; \<open>None\<close> is the return of 0 for an invalid one.\<close>

fun utf8_continue :: "nat \<Rightarrow> nat list \<Rightarrow> nat \<Rightarrow> nat option \<times> nat" where
  "utf8_continue 0 i u = (Some 0, u)"
| "utf8_continue (Suc x) i u =
     (let u = (push_bit 6 u mod 2 ^ 32) OR (rd i 0 AND 0x3f)
      in if drop_bit 6 (rd i 0) \<noteq> 2 then (None, u) else utf8_continue x (tl i) u)"

definition utf8toutf32 :: "nat list \<Rightarrow> nat \<times> nat" where
  "utf8toutf32 i =
     (if rd i 0 < 0x80 then (1, rd i 0)
      else
        (let (len, u) = (if rd i 0 < 0xe0 then (2, rd i 0 AND 0x1f)
                         else if rd i 0 < 0xf0 then (3, rd i 0 AND 0x0f)
                         else (4, rd i 0 AND 0x07))
         in case utf8_continue (len - 1) (tl i) u of
              (None, u) \<Rightarrow> (0, u)
            | (Some _, u) \<Rightarrow> (len, u)))"

fun utf8_trail :: "nat \<Rightarrow> nat \<Rightarrow> nat list" where
  "utf8_trail i 0 = []"
| "utf8_trail i (Suc x) = (push_bit 7 1 OR (drop_bit (6 * x) i AND 0x3f)) mod 2 ^ 8 # utf8_trail i x"

definition utf32toutf8 :: "nat \<Rightarrow> nat list" where
  "utf32toutf8 i =
     (if i < 0x80 then [i AND 0x7f]
      else if i < 0x800 then (push_bit 6 3 OR drop_bit 6 i) mod 2 ^ 8 # utf8_trail i 1
      else if i < 0x10000 then (push_bit 5 7 OR drop_bit 12 i) mod 2 ^ 8 # utf8_trail i 2
      else if i < 0x10ffff then (push_bit 4 0xf OR drop_bit 18 i) mod 2 ^ 8 # utf8_trail i 3
      else [])"

section \<open>Bit operations as arithmetic\<close>

lemma and_exp_minus_1: "(n::nat) AND (2 ^ k - 1) = n mod 2 ^ k"
  by (metis mask_eq_exp_minus_1 take_bit_eq_mask take_bit_eq_mod)

lemma and_masks:
  "(n::nat) AND 0x07 = n mod 8" "n AND 0x0f = n mod 16" "n AND 0x1f = n mod 32"
  "n AND 0x3f = n mod 64" "n AND 0x7f = n mod 128" "n AND 0x3ff = n mod 1024"
  "n AND 0xffff = n mod 65536"
  using and_exp_minus_1 [of n 3] and_exp_minus_1 [of n 4] and_exp_minus_1 [of n 5]
    and_exp_minus_1 [of n 6] and_exp_minus_1 [of n 7] and_exp_minus_1 [of n 10]
    and_exp_minus_1 [of n 16] by simp_all

lemma or_disjoint: "b < 2 ^ n \<Longrightarrow> (2 ^ n * a) OR b = 2 ^ n * a + (b::nat)"
proof -
  assume b: "b < 2 ^ n"
  have "(2 ^ n * a) AND b = 0"
  proof (rule bit_eqI)
    fix m
    have "\<not> (bit (2 ^ n * a) m \<and> bit b m)"
    proof (cases "m < n")
      case True
      then show ?thesis by (simp add: bit_push_bit_iff flip: push_bit_eq_mult [of n a, unfolded mult.commute [of a]])
    next
      case False
      have "b div 2 ^ m = 0" using b False by (meson div_less less_le_trans not_less one_le_numeral power_increasing)
      then show ?thesis by (simp add: bit_iff_odd)
    qed
    then show "bit ((2 ^ n * a) AND b) m = bit (0::nat) m" by (simp add: bit_and_iff)
  qed
  then show ?thesis by (simp add: disjunctive_add_eq_or)
qed


lemma or_arith:
  "b < 64 \<Longrightarrow> 0x80 OR b = 0x80 + (b::nat)" "b < 64 \<Longrightarrow> 0xc0 OR b = 0xc0 + b"
  "b < 32 \<Longrightarrow> 0xe0 OR b = 0xe0 + b" "b < 16 \<Longrightarrow> 0xf0 OR b = 0xf0 + b"
  "b < 1024 \<Longrightarrow> 0xd800 OR b = 0xd800 + b" "b < 1024 \<Longrightarrow> 0xdc00 OR b = 0xdc00 + b"
  "b < 64 \<Longrightarrow> (a * 64) OR b = a * 64 + b" "b < 1024 \<Longrightarrow> (a * 1024) OR b = a * 1024 + b"
  using or_disjoint [of b 6 2] or_disjoint [of b 6 3] or_disjoint [of b 5 7] or_disjoint [of b 4 15]
    or_disjoint [of b 10 54] or_disjoint [of b 10 55] or_disjoint [of b 6 a] or_disjoint [of b 10 a]
  by (simp_all add: mult.commute)

lemmas bits_arith = and_masks or_arith push_bit_eq_mult drop_bit_eq_div

section \<open>UTF-8\<close>

lemma utf8_trail_arith: "utf8_trail i (Suc x) = (128 + i div 64 ^ x mod 64) # utf8_trail i x"
proof -
  have p: "(2::nat) ^ (6 * x) = 64 ^ x" by (simp add: power_mult)
  have "(128 + i div 64 ^ x mod 64) mod 2 ^ 8 = 128 + i div 64 ^ x mod 64"
  proof (rule mod_less)
    have "i div 64 ^ x mod 64 < 64" by simp
    then show "128 + i div 64 ^ x mod 64 < 2 ^ 8" by simp
  qed
  then show ?thesis by (simp add: bits_arith p)
qed

lemma utf8_trail_numeral:
  "utf8_trail i 1 = [128 + i mod 64]"
  "utf8_trail i 2 = [128 + i div 64 mod 64, 128 + i mod 64]"
  "utf8_trail i 3 = [128 + i div 4096 mod 64, 128 + i div 64 mod 64, 128 + i mod 64]"
proof -
  have n: "(1::nat) = Suc 0" "(2::nat) = Suc (Suc 0)" "(3::nat) = Suc (Suc (Suc 0))" by simp_all
  show "utf8_trail i 1 = [128 + i mod 64]" by (simp only: n utf8_trail_arith) simp
  show "utf8_trail i 2 = [128 + i div 64 mod 64, 128 + i mod 64]" by (simp only: n utf8_trail_arith) simp
  show "utf8_trail i 3 = [128 + i div 4096 mod 64, 128 + i div 64 mod 64, 128 + i mod 64]"
    by (simp only: n utf8_trail_arith) simp
qed

lemma utf32toutf8_arith:
  "utf32toutf8 i =
     (if i < 0x80 then [i]
      else if i < 0x800 then [192 + i div 64, 128 + i mod 64]
      else if i < 0x10000 then [224 + i div 4096, 128 + i div 64 mod 64, 128 + i mod 64]
      else if i < 0x10ffff then [240 + i div 262144, 128 + i div 4096 mod 64, 128 + i div 64 mod 64, 128 + i mod 64]
      else [])"
proof -
  have a: "i div 64 < 32" if "i < 0x800" using that by (simp add: div_less_iff_less_mult)
  have b: "i div 4096 < 16" if "i < 0x10000" using that by (simp add: div_less_iff_less_mult)
  have c: "i div 262144 < 5" if "i < 0x10ffff" using that by (simp add: div_less_iff_less_mult)
  show ?thesis
    unfolding utf32toutf8_def utf8_trail_numeral using a b c by (simp add: bits_arith)
qed

lemma mod_64_less [simp]: "(n::nat) mod 64 < 128"
  by (rule less_trans [of _ 64]) simp_all

lemma mod_base: "b < m \<Longrightarrow> (m * k + b) mod m = (b::nat)" "b < m \<Longrightarrow> (m * k + b) div m = (k::nat)"
  by simp_all

lemma utf8_continue_byte:
  "b < 64 \<Longrightarrow> u < 67108864 \<Longrightarrow> utf8_continue (Suc x) ((128 + b) # i) u = utf8_continue x i (64 * u + b)"
proof -
  assume b: "b < 64" and u: "u < 67108864"
  have "(128 + b) mod 64 = b" "(128 + b) div 64 = 2" using mod_base [of b 64 2] b by simp_all
  moreover have "64 * u mod 2 ^ 32 = 64 * u" using u by simp
  ultimately show ?thesis using b by (simp add: bits_arith Let_def mult.commute)
qed

lemma utf8_continue_bytes:
  assumes "a < 64" "b < 64" "c < 64" "u < 256"
  shows "utf8_continue 1 ((128 + a) # i) u = (Some 0, 64 * u + a)"
    and "utf8_continue 2 ((128 + a) # (128 + b) # i) u = (Some 0, 64 * (64 * u + a) + b)"
    and "utf8_continue 3 ((128 + a) # (128 + b) # (128 + c) # i) u = (Some 0, 64 * (64 * (64 * u + a) + b) + c)"
proof -
  have n: "(1::nat) = Suc 0" "(2::nat) = Suc (Suc 0)" "(3::nat) = Suc (Suc (Suc 0))" by simp_all
  have u: "u < 67108864" "64 * u + a < 67108864" "64 * (64 * u + a) + b < 67108864" using assms by simp_all
  show "utf8_continue 1 ((128 + a) # i) u = (Some 0, 64 * u + a)"
    by (simp only: n(1) utf8_continue_byte assms u utf8_continue.simps(1))
  show "utf8_continue 2 ((128 + a) # (128 + b) # i) u = (Some 0, 64 * (64 * u + a) + b)"
    by (simp only: n(2) utf8_continue_byte assms u utf8_continue.simps(1))
  show "utf8_continue 3 ((128 + a) # (128 + b) # (128 + c) # i) u = (Some 0, 64 * (64 * (64 * u + a) + b) + c)"
    by (simp only: n(3) utf8_continue_byte assms u utf8_continue.simps(1))
qed

lemma utf8_decode:
  assumes "a < 64" "b < 64" "c < 64"
  shows "k < 32 \<Longrightarrow> utf8toutf32 ((192 + k) # (128 + a) # i) = (2, 64 * k + a)"
    and "k < 16 \<Longrightarrow> utf8toutf32 ((224 + k) # (128 + a) # (128 + b) # i) = (3, 64 * (64 * k + a) + b)"
    and "k < 8 \<Longrightarrow> utf8toutf32 ((240 + k) # (128 + a) # (128 + b) # (128 + c) # i) = (4, 64 * (64 * (64 * k + a) + b) + c)"
proof -
  have m: "k < 32 \<Longrightarrow> (192 + k) mod 32 = k" "k < 16 \<Longrightarrow> (224 + k) mod 16 = k" "k < 8 \<Longrightarrow> (240 + k) mod 8 = k"
    for k :: nat using mod_base(1) [of k 32 6] mod_base(1) [of k 16 14] mod_base(1) [of k 8 30] by simp_all
  show "k < 32 \<Longrightarrow> utf8toutf32 ((192 + k) # (128 + a) # i) = (2, 64 * k + a)"
    using utf8_continue_bytes(1) [OF assms, of k i] m(1) [of k]
    by (simp add: utf8toutf32_def and_masks del: utf8_continue.simps)
  show "k < 16 \<Longrightarrow> utf8toutf32 ((224 + k) # (128 + a) # (128 + b) # i) = (3, 64 * (64 * k + a) + b)"
    using utf8_continue_bytes(2) [OF assms, of k i] m(2) [of k]
    by (simp add: utf8toutf32_def and_masks del: utf8_continue.simps)
  show "k < 8 \<Longrightarrow> utf8toutf32 ((240 + k) # (128 + a) # (128 + b) # (128 + c) # i) = (4, 64 * (64 * (64 * k + a) + b) + c)"
    using utf8_continue_bytes(3) [OF assms, of k i] m(3) [of k]
    by (simp add: utf8toutf32_def and_masks del: utf8_continue.simps)
qed

lemma base64_digits:
  "64 * (i div 64) + i mod 64 = (i::nat)"
  "64 * (64 * (i div 4096) + i div 64 mod 64) + i mod 64 = i"
  "64 * (64 * (64 * (i div 262144) + i div 4096 mod 64) + i div 64 mod 64) + i mod 64 = i"
proof -
  have d: "i div 4096 = i div 64 div 64" "i div 262144 = i div 64 div 64 div 64" by (simp_all add: div_mult2_eq [symmetric])
  show "64 * (i div 64) + i mod 64 = i" by (rule mult_div_mod_eq)
  show "64 * (64 * (i div 4096) + i div 64 mod 64) + i mod 64 = i" by (simp only: d mult_div_mod_eq)
  show "64 * (64 * (64 * (i div 262144) + i div 4096 mod 64) + i div 64 mod 64) + i mod 64 = i"
    by (simp only: d mult_div_mod_eq)
qed

lemma utf8_decode_encode:
  assumes "i < 0x10ffff"
  shows "utf8toutf32 (utf32toutf8 i @ rest) = (length (utf32toutf8 i), i) \<and>
    1 \<le> length (utf32toutf8 i) \<and> length (utf32toutf8 i) \<le> 4 \<and> (\<forall>b\<in>set (utf32toutf8 i). b < 256)"
proof -
  consider "i < 0x80" | "0x80 \<le> i" "i < 0x800" | "0x800 \<le> i" "i < 0x10000" | "0x10000 \<le> i"
    by linarith
  then show ?thesis
  proof cases
    case 1
    then show ?thesis by (simp add: utf32toutf8_arith utf8toutf32_def)
  next
    case 2
    then have k: "i div 64 < 32" by (simp add: div_less_iff_less_mult)
    have e: "utf32toutf8 i = [192 + i div 64, 128 + i mod 64]" using 2 by (simp add: utf32toutf8_arith)
    show ?thesis
      unfolding e using utf8_decode(1) [of "i mod 64" 0 0 "i div 64" rest] k by (simp add: base64_digits(1))
  next
    case 3
    then have k: "i div 4096 < 16" by (simp add: div_less_iff_less_mult)
    have "i mod 64 < 64" "i div 64 mod 64 < 64" by simp_all
    with 3 k show ?thesis using utf8_decode(2) [of "i div 64 mod 64" "i mod 64" 0 "i div 4096" rest]
      base64_digits(2) [of i] by (simp add: utf32toutf8_arith)
  next
    case 4
    with assms have k: "i div 262144 < 8" by (simp add: div_less_iff_less_mult)
    have "i mod 64 < 64" "i div 64 mod 64 < 64" "i div 4096 mod 64 < 64" by simp_all
    with 4 assms k show ?thesis using utf8_decode(3) [of "i div 4096 mod 64" "i div 64 mod 64" "i mod 64" "i div 262144" rest]
      base64_digits(3) [of i] by (simp add: utf32toutf8_arith)
  qed
qed

text \<open>
  C26: Every code point below \<open>0x10ffff\<close> is encoded in one to four octets, and decoding them,
  whatever follows in the string, consumes exactly these octets and yields the code point again.
\<close>

theorem utf8_round_trip:
  assumes "i < 0x10ffff"
  shows "utf8toutf32 (utf32toutf8 i @ rest) = (length (utf32toutf8 i), i) \<and>
    1 \<le> length (utf32toutf8 i) \<and> length (utf32toutf8 i) \<le> 4 \<and> (\<forall>b\<in>set (utf32toutf8 i). b < 256)"
  using utf8_decode_encode [OF assms] by simp

theorem utf8_round_trip_witness:
  "(0x1016d::nat) < 0x10ffff \<and> utf32toutf8 0x1016d = [0xf0, 0x90, 0x85, 0xad] \<and>
   utf8toutf32 [0xf0, 0x90, 0x85, 0xad, 0x41] = (4, 0x1016d)"
proof -
  have e: "utf32toutf8 0x1016d = [0xf0, 0x90, 0x85, 0xad]" by (simp add: utf32toutf8_arith)
  show ?thesis using utf8_round_trip [of "0x1016d" "[0x41]"] by (simp add: e)
qed

section \<open>UTF-16\<close>

lemma utf32toutf16_arith:
  "utf32toutf16 i =
     (if i < 0xffff then [i]
      else if i < 0x10000 then [0xffff, 0xdfff]
      else if i < 0x10ffff then [0xd800 + (i - 0x10000) div 1024, 0xdc00 + (i - 0x10000) mod 1024]
      else [])"
proof -
  consider "i < 0xffff" | "i = 0xffff" | "0x10000 \<le> i" "i < 0x10ffff" | "0x10ffff \<le> i" by linarith
  then show ?thesis
  proof cases
    case 3
    define j where "j = i - 0x10000"
    have j: "i = j + 0x10000" "j < 0xfffff" using 3 by (simp_all add: j_def)
    have k: "j div 1024 < 1024" using j by (simp add: div_less_iff_less_mult)
    have m: "j mod 1024 < 1024" by simp
    have s: "(i + 2 ^ 32 - 0x10000) mod 2 ^ 32 = j"
      using j by (simp add: mod_if)
    have "utf32toutf16 i = [(0xd800 OR drop_bit 10 j) mod 2 ^ 16, (0xdc00 OR (j AND 0x3ff)) mod 2 ^ 16]"
      using 3 by (simp add: utf32toutf16_def s [simplified])
    also have "\<dots> = [0xd800 + j div 1024, 0xdc00 + j mod 1024]"
      using k m by (simp add: bits_arith)
    finally show ?thesis using 3 by (simp add: j_def)
  next
    case 2
    show ?thesis unfolding 2 by (simp add: utf32toutf16_def)
  qed (simp_all add: utf32toutf16_def bits_arith)
qed


lemma or_plane:
  assumes "x < 65536"
  shows "(65536::nat) OR (65536 * a + x) = 65536 * (a + of_bool (even a)) + x"
proof -
  have "65536 OR (65536 * a + x) = (65536 OR (65536 * a)) OR x"
    using or_disjoint [of x 16 a] assms by (simp add: or.assoc)
  also have "65536 OR (65536 * a) = push_bit 16 (1 OR a)"
    by (simp only: push_bit_or) (simp add: push_bit_eq_mult mult.commute)
  also have "\<dots> = 65536 * (a + of_bool (even a))"
    by (simp only: one_or_eq) (simp add: push_bit_eq_mult mult.commute)
  also have "\<dots> OR x = \<dots> + x"
    using or_disjoint [of x 16 "a + of_bool (even a)"] assms by simp
  finally show ?thesis .
qed

lemma utf16_decode_pair:
  assumes "j < 0x100000"
  shows "utf16toutf32 ((0xd800 + j div 1024) # (0xdc00 + j mod 1024) # rest) =
    (2, j + (if even (j div 65536) then 0x10000 else 0))"
proof -
  define k where "k = j div 1024"
  have k: "k < 1024" using assms by (simp add: k_def div_less_iff_less_mult)
  have m: "(0xd800 + k) mod 1024 = k" "(0xdc00 + j mod 1024) mod 1024 = j mod 1024"
    using mod_base(1) [of k 1024 54] mod_base(1) [of "j mod 1024" 1024 55] k by simp_all
  have lo: "j mod 1024 < 1024" by simp
  have a: "k * 1024 + j mod 1024 = j" by (simp add: k_def)
  have j: "65536 * (j div 65536) + j mod 65536 = j" by simp
  have d: "(0x10000 OR (k * 1024)) OR (j mod 1024) = 0x10000 OR j"
    using or_arith(8) [OF lo, of k] by (simp add: or.assoc a)
  have "0x10000 OR j = j + (if even (j div 65536) then 0x10000 else 0)"
    using or_plane [of "j mod 65536" "j div 65536"] by (simp add: j [simplified])
  moreover have "\<not> 1023 < j mod 1024" using lo by linarith
  ultimately show ?thesis
    using d k m by (simp add: utf16toutf32_def Let_def k_def [symmetric] and_masks push_bit_eq_mult)
qed

text \<open>
  C27: A code point other than \<open>0xffff\<close> and the high surrogates is encoded in one or two units,
  and decoding them consumes exactly these units. The decoding yields the code point again except
  in the even planes from \<open>0x20000\<close> on, where it yields the code point one plane lower.
\<close>

theorem utf16_round_trip:
  assumes "i < 0x10ffff" "i \<noteq> 0xffff" "i < 0xd800 \<or> 0xdbff < i"
  shows "utf16toutf32 (utf32toutf16 i @ rest) =
    (length (utf32toutf16 i), if i < 0x20000 \<or> odd (i div 0x10000) then i else i - 0x10000) \<and>
    (\<forall>u\<in>set (utf32toutf16 i). u < 0x10000)"
proof (cases "i < 0x10000")
  case True
  with assms show ?thesis by (auto simp: utf32toutf16_arith utf16toutf32_def)
next
  case False
  define j where "j = i - 0x10000"
  have j: "i = j + 0x10000" "j < 0xfffff" using False assms(1) by (simp_all add: j_def)
  have e: "utf32toutf16 i = [0xd800 + j div 1024, 0xdc00 + j mod 1024]"
    using False assms(1) by (simp add: utf32toutf16_arith j_def)
  have b: "j div 1024 < 1024" "j mod 1024 < 1024" using j by (simp_all add: div_less_iff_less_mult)
  have p: "i div 0x10000 = Suc (j div 65536)" using j by simp
  have q: "i < 0x20000 \<longleftrightarrow> j div 65536 = 0" using j by (simp add: div_eq_0_iff)
  have "utf16toutf32 (utf32toutf16 i @ rest) = (2, j + (if even (j div 65536) then 0x10000 else 0))"
    unfolding e using utf16_decode_pair [of j rest] j by simp
  moreover have "\<forall>u\<in>set (utf32toutf16 i). u < 0x10000" using b by (simp add: e)
  moreover have "length (utf32toutf16 i) = 2" by (simp add: e)
  ultimately show ?thesis unfolding p q using j by auto
qed

theorem utf16_round_trip_witness:
  "utf16toutf32 (utf32toutf16 0x1d11e) = (2, 0x1d11e) \<and> utf16toutf32 (utf32toutf16 0x20000) = (2, 0x10000)"
proof -
  have e: "utf32toutf16 0x1d11e = [0xd834, 0xdd1e]" "utf32toutf16 0x20000 = [0xd840, 0xdc00]"
    by (simp_all add: utf32toutf16_arith)
  show ?thesis
    using utf16_round_trip [of "0x1d11e" "[]"] utf16_round_trip [of "0x20000" "[]"] by (simp add: e)
qed

end
