(* ===== verification/String_Util.thy ===== *)
theory String_Util
  imports Unicode_Transcode
begin

text \<open>
  The string functions of \<^verbatim>\<open>util/stringutil.cc\<close> the driver's configuration rests on: searching
  and comparing \<^verbatim>\<open>SQLWCHAR\<close> strings, numbers in such strings, the escaping of brackets, and
  the conversions to and from UTF-8.

  A wide string is the list of its code units; \<^verbatim>\<open>sizeof(SQLWCHAR)\<close>, which is 2 under unixODBC
  and Windows and 4 under iODBC, is the argument \<open>sz\<close> of the conversions. A search that fails
  returns \<open>None\<close>, otherwise the position of the hit.
\<close>

type_synonym wstr = "nat list"

definition wide :: "string \<Rightarrow> wstr" where
  "wide s = map of_char s"

section \<open>Searching and comparing\<close>

fun sqlwcharchr :: "wstr \<Rightarrow> nat \<Rightarrow> nat option" where
  "sqlwcharchr [] wchr = None"
| "sqlwcharchr (c # wstr) wchr = (if c = wchr then Some 0 else map_option Suc (sqlwcharchr wstr wchr))"

definition wide_upper :: "nat \<Rightarrow> nat" where
  "wide_upper c = (if c \<ge> 97 then c - 32 else c)"

text \<open>True when the strings differ, as the return value 1 of the code.\<close>

fun sqlwcharcasecmp :: "wstr \<Rightarrow> wstr \<Rightarrow> bool" where
  "sqlwcharcasecmp (c1 # s1) (c2 # s2) = (wide_upper c1 \<noteq> wide_upper c2 \<or> sqlwcharcasecmp s1 s2)"
| "sqlwcharcasecmp [] [] = False"
| "sqlwcharcasecmp _ _ = True"

section \<open>Numbers\<close>

definition is_wdigit :: "nat \<Rightarrow> bool" where
  "is_wdigit c \<longleftrightarrow> 48 \<le> c \<and> c \<le> 57"

fun toul_loop :: "wstr \<Rightarrow> nat \<Rightarrow> nat" where
  "toul_loop [] res = res"
| "toul_loop (c # wstr) res =
     (if \<not> is_wdigit c then res else toul_loop wstr ((res * 10 mod 2 ^ 64 + (c - 48)) mod 2 ^ 64))"

definition sqlwchartoul :: "wstr \<Rightarrow> nat" where
  "sqlwchartoul wstr = toul_loop wstr 0"

fun sqlwcharfromul :: "nat \<Rightarrow> wstr" where
  "sqlwcharfromul v = (if v = 0 then [] else sqlwcharfromul (v div 10) @ [48 + v mod 10])"

declare sqlwcharfromul.simps [simp del]

section \<open>Brackets\<close>

definition W_OPEN :: nat where "W_OPEN = 123"

definition W_CLOSE :: nat where "W_CLOSE = 125"

definition escape_brackets :: "wstr \<Rightarrow> bool \<Rightarrow> wstr" where
  "escape_brackets val add_start_end =
     (if \<not> add_start_end \<and> (val = [] \<or> W_CLOSE \<notin> set val) then val
      else (if add_start_end then [W_OPEN] else [])
        @ concat (map (\<lambda>c. if c = W_CLOSE then [W_CLOSE, W_CLOSE] else [c]) val)
        @ (if add_start_end then [W_CLOSE] else []))"

section \<open>Conversions to and from UTF-8\<close>

text \<open>
  The loop of \<^verbatim>\<open>sqlwchar_as_utf8_ext\<close> over the next \<open>n\<close> units, with the flag
  \<^verbatim>\<open>utf8mb4_used\<close>. A unit that cannot be decoded ends it.
\<close>

fun wide_to_utf8 :: "nat \<Rightarrow> wstr \<Rightarrow> nat \<Rightarrow> nat list \<times> bool" where
  "wide_to_utf8 sz str n =
     (if n = 0 then ([], False)
      else if sz = 4 then
        (let u8 = utf32toutf8 (rd str 0); (out, mb4) = wide_to_utf8 sz (drop 1 str) (n - 1)
         in (u8 @ out, length u8 = 4 \<or> mb4))
      else
        (let (consumed, u32) = utf16toutf32 str
         in if consumed = 0 then ([], False)
            else
              (let u8 = utf32toutf8 u32; (out, mb4) = wide_to_utf8 sz (drop consumed str) (n - consumed)
               in (u8 @ out, length u8 = 4 \<or> mb4))))"

declare wide_to_utf8.simps [simp del]

text \<open>
  \<open>len\<close> is the length the caller passes; \<open>None\<close> is a null pointer to it. Units past the terminator
  are not there to be read.
\<close>

definition sqlwchar_as_utf8_ext :: "nat \<Rightarrow> wstr option \<Rightarrow> int option \<Rightarrow> (nat list \<times> bool) res" where
  "sqlwchar_as_utf8_ext sz str len =
     (let len = (case len of Some l \<Rightarrow> l | None \<Rightarrow> int (case str of Some s \<Rightarrow> length s | None \<Rightarrow> 0))
      in case str of
           None \<Rightarrow> Inr ([], False)
         | Some s \<Rightarrow>
             if len \<le> 0 then Inr ([], False)
             else if nat len > length s + 1 then Inl Bad_pointer
             else Inr (wide_to_utf8 sz s (nat len)))"

definition SQL_NTS :: int where "SQL_NTS = -3"

definition sqlwchar_as_utf8 :: "nat \<Rightarrow> wstr option \<Rightarrow> int \<Rightarrow> nat list option res" where
  "sqlwchar_as_utf8 sz str len =
     (let len = (if len = SQL_NTS then int (case str of Some s \<Rightarrow> length s | None \<Rightarrow> 0) else len)
      in if str = None \<or> len \<le> 0 then Inr None
         else map_sum id (\<lambda>r. Some (fst r)) (sqlwchar_as_utf8_ext sz str (Some len)))"

text \<open>
  The loop of \<^verbatim>\<open>utf8_as_sqlwchar\<close>: \<open>n\<close> octets are left, \<open>m\<close> units of the buffer are free. A
  surrogate pair is written even when only one unit is free.
\<close>

fun utf8_to_wide :: "nat \<Rightarrow> nat list \<Rightarrow> nat \<Rightarrow> nat \<Rightarrow> wstr" where
  "utf8_to_wide sz i n m =
     (if n = 0 \<or> m = 0 then []
      else
        (let (consumed, u32) = utf8toutf32 i
         in if sz = 4 then
              u32 # (if consumed = 0 then [] else utf8_to_wide sz (drop consumed i) (n - consumed) (m - 1))
            else if consumed = 0 then []
            else
              (let u16 = utf32toutf16 u32
               in u16 @ utf8_to_wide sz (drop consumed i) (n - consumed) (m - length u16))))"

declare utf8_to_wide.simps [simp del]

definition utf8_as_sqlwchar :: "nat \<Rightarrow> nat \<Rightarrow> nat list \<Rightarrow> nat \<Rightarrow> wstr" where
  "utf8_as_sqlwchar sz out_max i in_len = utf8_to_wide sz i in_len out_max"

text \<open>
  \<^verbatim>\<open>sqlchar_as_sqlwchar\<close> for a UTF-8 character set; \<open>errors\<close> says whether the caller passes a
  pointer to count errors with. For another character set \<^verbatim>\<open>copy_and_convert\<close> makes UTF-8 of
  the octets first: it is the argument \<open>to_utf8\<close>.
\<close>

fun sqlchar_loop :: "nat \<Rightarrow> nat list \<Rightarrow> nat \<Rightarrow> bool \<Rightarrow> wstr res" where
  "sqlchar_loop sz str n errors =
     (if n = 0 \<or> rd str 0 = 0 then Inr []
      else
        (let (consumed, u32) = utf8toutf32 str
         in if consumed = 0 then
              (if errors then Inr (if sz = 4 then [u32] else []) else Inl Null_deref)
            else map_sum id (\<lambda>out. (if sz = 4 then [u32] else utf32toutf16 u32) @ out)
                   (sqlchar_loop sz (drop consumed str) (n - consumed) errors)))"

declare sqlchar_loop.simps [simp del]

definition sqlchar_as_sqlwchar ::
  "nat \<Rightarrow> (nat list \<Rightarrow> nat list) option \<Rightarrow> nat list option \<Rightarrow> int \<Rightarrow> bool \<Rightarrow> wstr option res" where
  "sqlchar_as_sqlwchar sz to_utf8 str len errors =
     (case str of
        None \<Rightarrow> Inr None
      | Some s \<Rightarrow>
          (let n = (if len = SQL_NTS then length (takeWhile (\<lambda>c. c \<noteq> 0) s) else nat len)
           in if n = 0 then Inr None
              else
                map_sum id Some
                  (case to_utf8 of
                     None \<Rightarrow> sqlchar_loop sz s n errors
                   | Some f \<Rightarrow> sqlchar_loop sz (f (take n s)) (length (f (take n s))) errors)))"


section \<open>Facts on searching, numbers and brackets\<close>

lemma sqlwcharchr_None [simp]: "sqlwcharchr s c = None \<longleftrightarrow> c \<notin> set s"
  by (induction s) auto

lemma sqlwcharchr_append: "c \<notin> set u \<Longrightarrow> sqlwcharchr (u @ c # v) c = Some (length u)"
  by (induction u) auto

lemma sqlwcharcasecmp_refl [simp]: "\<not> sqlwcharcasecmp s s"
  by (induction s) auto

lemma toul_loop_append:
  "\<forall>c\<in>set u. is_wdigit c \<Longrightarrow> toul_loop (u @ v) r = toul_loop v (toul_loop u r)"
  by (induction u arbitrary: r) auto

lemma fromul_digits: "\<forall>c\<in>set (sqlwcharfromul v). is_wdigit c"
proof (induction v rule: sqlwcharfromul.induct)
  case (1 v)
  show ?case
  proof (cases "v = 0")
    case False
    have "v mod 10 \<le> 9" using mod_less_divisor [of 10 v] by linarith
    with 1 False show ?thesis by (subst sqlwcharfromul.simps) (auto simp: is_wdigit_def)
  qed (simp add: sqlwcharfromul.simps)
qed

lemma toul_fromul: "v < 2 ^ 64 \<Longrightarrow> toul_loop (sqlwcharfromul v) 0 = v"
proof (induction v rule: sqlwcharfromul.induct)
  case (1 v)
  show ?case
  proof (cases "v = 0")
    case False
    have "v div 10 < 2 ^ 64" using "1.prems" by (meson div_le_dividend le_less_trans)
    with 1 False have IH: "toul_loop (sqlwcharfromul (v div 10)) 0 = v div 10" by simp
    have d: "v div 10 * 10 + v mod 10 = v" by simp
    have m: "v div 10 * 10 mod 2 ^ 64 = v div 10 * 10" "v mod 2 ^ 64 = v"
      using d "1.prems" by (auto intro!: mod_less simp del: mult_div_mod_eq)
    have "v mod 10 \<le> 9" using mod_less_divisor [of 10 v] by linarith
    then have "toul_loop [48 + v mod 10] (v div 10) = v"
      using m d by (simp add: is_wdigit_def del: power_numeral)
    with IH False show ?thesis
      by (subst sqlwcharfromul.simps) (simp add: toul_loop_append fromul_digits)
  qed (simp add: sqlwcharfromul.simps)
qed

lemma toul_loop_stop: "rest = [] \<or> \<not> is_wdigit (hd rest) \<Longrightarrow> toul_loop rest r = r"
  by (cases rest) auto

lemma sqlwchartoul_fromul:
  "v < 2 ^ 64 \<Longrightarrow> rest = [] \<or> \<not> is_wdigit (hd rest) \<Longrightarrow> sqlwchartoul (sqlwcharfromul v @ rest) = v"
  by (simp only: sqlwchartoul_def toul_loop_append [OF fromul_digits] toul_fromul toul_loop_stop)

lemma escape_brackets_concat:
  "escape_brackets val False = concat (map (\<lambda>c. if c = W_CLOSE then [W_CLOSE, W_CLOSE] else [c]) val)"
proof -
  have "concat (map (\<lambda>c. if c = W_CLOSE then [W_CLOSE, W_CLOSE] else [c]) val) = val" if "W_CLOSE \<notin> set val"
    using that by (induction val) auto
  then show ?thesis by (auto simp: escape_brackets_def)
qed

section \<open>Text survives the conversion to UTF-8 and back\<close>

text \<open>Units that stand for a code point each: no NUL, no high surrogate, and below the largest code points.\<close>

definition is_text :: "nat \<Rightarrow> wstr \<Rightarrow> bool" where
  "is_text sz w \<longleftrightarrow>
     (\<forall>u\<in>set w. 0 < u \<and> (if sz = 4 then u < 0x10ffff else u < 0xffff \<and> (u < 0xd800 \<or> 0xdbff < u)))"

lemma is_text_Cons [simp]:
  "is_text sz (u # w) \<longleftrightarrow> 0 < u \<and> (if sz = 4 then u < 0x10ffff else u < 0xffff \<and> (u < 0xd800 \<or> 0xdbff < u)) \<and> is_text sz w"
  by (auto simp: is_text_def)

lemma is_text_bound: "is_text sz w \<Longrightarrow> u \<in> set w \<Longrightarrow> 0 < u \<and> u < 0x10ffff"
  by (fastforce simp: is_text_def split: if_splits)

lemma wide_to_utf8_text:
  "is_text sz w \<Longrightarrow> fst (wide_to_utf8 sz (w @ rest) (length w)) = concat (map utf32toutf8 w)"
proof (induction w)
  case Nil
  show ?case by (simp add: wide_to_utf8.simps)
next
  case (Cons u w)
  have "sz \<noteq> 4 \<Longrightarrow> utf16toutf32 (u # w @ rest) = (1, u)" using Cons.prems by (auto simp: utf16toutf32_def)
  with Cons show ?case
    by (subst wide_to_utf8.simps) (auto simp: Let_def split_beta)
qed

lemma utf8_octets:
  assumes "0 < u" "u < 0x10ffff" "b \<in> set (utf32toutf8 u)"
  shows "0 < b \<and> b < 256"
  using utf8_decode_encode [OF assms(2), of "[]"] assms by (auto simp: utf32toutf8_arith split: if_splits)

lemma sqlchar_loop_text:
  "is_text sz w \<Longrightarrow> sqlchar_loop sz (concat (map utf32toutf8 w)) (length (concat (map utf32toutf8 w))) e = Inr w"
proof (induction w)
  case Nil
  show ?case by (simp add: sqlchar_loop.simps)
next
  case (Cons u w)
  let ?t = "concat (map utf32toutf8 w)"
  have u: "0 < u" "u < 0x10ffff" using is_text_bound [OF Cons.prems] by simp_all
  have dec: "utf8toutf32 (utf32toutf8 u @ ?t) = (length (utf32toutf8 u), u)" "1 \<le> length (utf32toutf8 u)"
    using utf8_decode_encode [OF u(2)] by simp_all
  then have "rd (utf32toutf8 u @ ?t) 0 \<noteq> 0"
    using utf8_octets [OF u] by (cases "utf32toutf8 u") auto
  moreover have "sz \<noteq> 4 \<Longrightarrow> utf32toutf16 u = [u]" using Cons.prems by (simp add: utf32toutf16_arith)
  moreover have "utf32toutf8 u \<noteq> []" using dec(2) by auto
  ultimately show ?case
    using dec Cons by (subst sqlchar_loop.simps) (simp add: Let_def)
qed

lemma sqlchar_as_sqlwchar_nts:
  assumes "b \<noteq> []" "\<forall>x\<in>set b. 0 < x" "sqlchar_loop sz b (length b) e = Inr w"
  shows "sqlchar_as_sqlwchar sz None (Some b) SQL_NTS e = Inr (Some w)"
proof -
  have tw: "takeWhile (\<lambda>c. 0 < c) b = b" using assms(2) by (auto simp: takeWhile_eq_all_conv)
  show ?thesis using assms(1,3) by (simp add: sqlchar_as_sqlwchar_def Let_def tw)
qed

lemma sqlwchar_as_utf8_nts:
  "w \<noteq> [] \<Longrightarrow> sqlwchar_as_utf8 sz (Some w) SQL_NTS = Inr (Some (fst (wide_to_utf8 sz w (length w))))"
  by (simp add: sqlwchar_as_utf8_def sqlwchar_as_utf8_ext_def Let_def)



end
