(* ===== verification/Data_Source.thy ===== *)
theory Data_Source
  imports String_Util "HOL-Library.List_Lexorder" "HOL-Library.Char_ord"
begin

text \<open>
  The configuration of a connection (\<^verbatim>\<open>class DataSource\<close> of \<^verbatim>\<open>util/installer.h\<close> and
  \<^verbatim>\<open>util/installer.cc\<close>): its typed options with their defaults, the connection string
  (\<^verbatim>\<open>from_kvpair\<close>, \<^verbatim>\<open>to_kvpair\<close>), the numeric option bits and the copy of a data source.

  An option is named as its member without the prefix \<^verbatim>\<open>opt_\<close>; a data source maps the names to
  options. The multi-factor options are left out, as in a build without \<^verbatim>\<open>MFA_ENABLED\<close>. As in
  the string functions, \<open>sz\<close> is \<^verbatim>\<open>sizeof(SQLWCHAR)\<close>.
\<close>

section \<open>The options\<close>

definition STR_OPTIONS_LIST :: "string list" where
  "STR_OPTIONS_LIST = [
   ''DSN'', ''DRIVER'', ''DESCRIPTION'', ''SERVER'', ''UID'', ''PWD'', ''DATABASE'',
   ''SOCKET'', ''INITSTMT'', ''CHARSET'', ''SSL_KEY'', ''SSL_CERT'', ''SSL_CA'',
   ''SSL_CAPATH'', ''SSL_CIPHER'', ''SSL_MODE'', ''RSAKEY'', ''SAVEFILE'', ''PLUGIN_DIR'',
   ''DEFAULT_AUTH'', ''LOAD_DATA_LOCAL_DIR'', ''OCI_CONFIG_FILE'', ''OCI_CONFIG_PROFILE'',
   ''AUTHENTICATION_KERBEROS_MODE'', ''TLS_VERSIONS'', ''SSL_CRL'', ''SSL_CRLPATH'',
   ''SSLVERIFY'', ''OPENTELEMETRY'', ''AUTH_MODE'', ''AUTH_REGION'', ''AUTH_HOST'',
   ''AUTH_SECRET_ID'', ''HOST_PATTERN'', ''CLUSTER_ID'', ''FAILOVER_MODE'',
   ''CUSTOM_ENDPOINT_REGION'', ''FED_AUTH_MODE'', ''IDP_USERNAME'', ''IDP_PASSWORD'',
   ''IDP_ENDPOINT'', ''IAM_ROLE_ARN'', ''IAM_IDP_ARN'', ''APP_ID'', ''FED_AUTH_HOST'',
   ''FED_AUTH_REGION'']"

definition INT_OPTIONS_LIST :: "string list" where
  "INT_OPTIONS_LIST = [
   ''PORT'', ''READTIMEOUT'', ''WRITETIMEOUT'', ''CLIENT_INTERACTIVE'', ''PREFETCH'',
   ''TOPOLOGY_REFRESH_RATE'', ''FAILOVER_TIMEOUT'', ''FAILOVER_TOPOLOGY_REFRESH_RATE'',
   ''FAILOVER_WRITER_RECONNECT_INTERVAL'', ''FAILOVER_READER_CONNECT_TIMEOUT'',
   ''CONNECT_TIMEOUT'', ''NETWORK_TIMEOUT'', ''AUTH_PORT'', ''AUTH_EXPIRATION'',
   ''FAILURE_DETECTION_TIME'', ''FAILURE_DETECTION_INTERVAL'', ''FAILURE_DETECTION_COUNT'',
   ''FAILURE_DETECTION_TIMEOUT'', ''MONITOR_DISPOSAL_TIME'',
   ''CUSTOM_ENDPOINT_INFO_REFRESH_RATE_MS'', ''WAIT_FOR_CUSTOM_ENDPOINT_INFO_TIMEOUT_MS'',
   ''CUSTOM_ENDPOINT_MONITOR_EXPIRATION_MS'', ''IDP_PORT'', ''CLIENT_SOCKET_TIMEOUT'',
   ''CLIENT_CONNECT_TIMEOUT'', ''FED_AUTH_PORT'', ''FED_AUTH_EXPIRATION'']"

definition BOOL_OPTIONS_LIST :: "string list" where
  "BOOL_OPTIONS_LIST = [
   ''FOUND_ROWS'', ''BIG_PACKETS'', ''COMPRESSED_PROTO'', ''NO_BIGINT'', ''SAFE'',
   ''AUTO_RECONNECT'', ''AUTO_IS_NULL'', ''NO_BINARY_RESULT'', ''CAN_HANDLE_EXP_PWD'',
   ''ENABLE_CLEARTEXT_PLUGIN'', ''GET_SERVER_PUBLIC_KEY'', ''NO_PROMPT'', ''DYNAMIC_CURSOR'',
   ''NO_DEFAULT_CURSOR'', ''NO_LOCALE'', ''PAD_SPACE'', ''NO_CACHE'', ''FULL_COLUMN_NAMES'',
   ''IGNORE_SPACE'', ''NAMED_PIPE'', ''NO_CATALOG'', ''NO_SCHEMA'', ''USE_MYCNF'',
   ''NO_TRANSACTIONS'', ''FORWARD_CURSOR'', ''MULTI_STATEMENTS'', ''COLUMN_SIZE_S32'',
   ''MIN_DATE_TO_ZERO'', ''ZERO_DATE_TO_MIN'', ''DFLT_BIGINT_BIND_STR'', ''LOG_QUERY'',
   ''NO_SSPS'', ''NO_TLS_1_2'', ''NO_TLS_1_3'', ''NO_DATE_OVERFLOW'', ''ENABLE_LOCAL_INFILE'',
   ''ENABLE_DNS_SRV'', ''MULTI_HOST'', ''ENABLE_CLUSTER_FAILOVER'', ''GATHER_PERF_METRICS'',
   ''GATHER_PERF_METRICS_PER_INSTANCE'', ''ENABLE_FAILURE_DETECTION'',
   ''WAIT_FOR_CUSTOM_ENDPOINT_INFO'', ''ENABLE_CUSTOM_ENDPOINT_MONITORING'', ''ENABLE_SSL'']"

definition FULL_OPTIONS_LIST :: "string list" where
  "FULL_OPTIONS_LIST = STR_OPTIONS_LIST @ INT_OPTIONS_LIST @ BOOL_OPTIONS_LIST"

text \<open>The options with a bit in the numeric \<^verbatim>\<open>OPTION\<close> value, with their flags.\<close>

definition BIT_OPTIONS_LIST :: "(string \<times> nat) list" where
  "BIT_OPTIONS_LIST = [
   (''FOUND_ROWS'', 2), (''BIG_PACKETS'', 8), (''NO_PROMPT'', 16), (''DYNAMIC_CURSOR'', 32),
   (''NO_DEFAULT_CURSOR'', 128), (''NO_LOCALE'', 256), (''PAD_SPACE'', 512),
   (''FULL_COLUMN_NAMES'', 1024), (''COMPRESSED_PROTO'', 2048), (''IGNORE_SPACE'', 4096),
   (''NAMED_PIPE'', 8192), (''NO_BIGINT'', 16384), (''NO_CATALOG'', 32768),
   (''USE_MYCNF'', 65536), (''SAFE'', 131072), (''NO_TRANSACTIONS'', 262144),
   (''LOG_QUERY'', 524288), (''NO_CACHE'', 1048576), (''FORWARD_CURSOR'', 2097152),
   (''AUTO_RECONNECT'', 4194304), (''AUTO_IS_NULL'', 8388608), (''ZERO_DATE_TO_MIN'', 16777216),
   (''MIN_DATE_TO_ZERO'', 33554432), (''MULTI_STATEMENTS'', 67108864),
   (''COLUMN_SIZE_S32'', 134217728), (''NO_BINARY_RESULT'', 268435456),
   (''DFLT_BIGINT_BIND_STR'', 536870912)]"

definition ALIAS_OPTIONS_LIST :: "(string \<times> string) list" where
  "ALIAS_OPTIONS_LIST = [
   (''UID'', ''USER''), (''PWD'', ''PASSWORD''), (''DATABASE'', ''DB''),
   (''SSL_KEY'', ''SSLKEY''), (''SSL_CERT'', ''SSLCERT''), (''SSL_CA'', ''SSLCA''),
   (''SSL_CAPATH'', ''SSLCAPATH''), (''SSL_CIPHER'', ''SSLCIPHER''), (''SSL_MODE'', ''SSLMODE'')]"

text \<open>The keyword of an option in a connection string, where it is not the name of the member.\<close>

definition option_keyword :: "string \<Rightarrow> string" where
  "option_keyword X = (case map_of [
   (''SSL_KEY'', ''SSL-KEY''), (''SSL_CERT'', ''SSL-CERT''), (''SSL_CA'', ''SSL-CA''),
   (''SSL_CAPATH'', ''SSL-CAPATH''), (''SSL_CIPHER'', ''SSL-CIPHER''),
   (''SSL_MODE'', ''SSL-MODE''),
   (''AUTHENTICATION_KERBEROS_MODE'', ''AUTHENTICATION-KERBEROS-MODE''),
   (''TLS_VERSIONS'', ''TLS-VERSIONS''), (''SSL_CRL'', ''SSL-CRL''),
   (''SSL_CRLPATH'', ''SSL-CRLPATH''), (''AUTH_MODE'', ''AUTHENTICATION_MODE''),
   (''AUTH_REGION'', ''AWS_REGION''), (''AUTH_HOST'', ''IAM_HOST''),
   (''AUTH_SECRET_ID'', ''SECRET_ID''), (''FED_AUTH_REGION'', ''FED_AWS_REGION''),
   (''CLIENT_INTERACTIVE'', ''INTERACTIVE''), (''AUTH_PORT'', ''IAM_PORT''),
   (''AUTH_EXPIRATION'', ''IAM_EXPIRATION_TIME''),
   (''FED_AUTH_EXPIRATION'', ''FED_AUTH_EXPIRATION_TIME'')] X of
     Some k \<Rightarrow> k | None \<Rightarrow> X)"

datatype opt_type = T_STRING | T_INT | T_BOOL

definition option_type :: "string \<Rightarrow> opt_type" where
  "option_type X = (if X \<in> set STR_OPTIONS_LIST then T_STRING else if X \<in> set INT_OPTIONS_LIST then T_INT else T_BOOL)"

text \<open>
  The value of an option: of a string the wide form \<^verbatim>\<open>m_wstr\<close>, the UTF-8 form \<^verbatim>\<open>m_str\<close> and
  \<^verbatim>\<open>m_is_null\<close>.
\<close>

datatype opt_val = OStr wstr "nat list" bool | OInt int | OBool bool

record opt =
  m_is_set :: bool
  m_is_default :: bool
  m_val :: opt_val

type_synonym data_source = "string \<Rightarrow> opt"

subsection \<open>\<^verbatim>\<open>optionVal\<close> and \<^verbatim>\<open>optionStr\<close>\<close>

definition NOT_SET :: exc where
  "NOT_SET = Runtime_error ''Option is used without being set''"

definition opt_int :: "opt \<Rightarrow> int res" where
  "opt_int o' = (if m_is_set o' then Inr (case m_val o' of OInt i \<Rightarrow> i | _ \<Rightarrow> 0) else Inl NOT_SET)"

definition opt_bool :: "opt \<Rightarrow> bool res" where
  "opt_bool o' = (if m_is_set o' then Inr (case m_val o' of OBool b \<Rightarrow> b | _ \<Rightarrow> False) else Inl NOT_SET)"

definition set_int :: "int \<Rightarrow> opt" where
  "set_int v = \<lparr>m_is_set = True, m_is_default = False, m_val = OInt v\<rparr>"

definition set_bool :: "bool \<Rightarrow> opt" where
  "set_bool v = \<lparr>m_is_set = True, m_is_default = False, m_val = OBool v\<rparr>"

definition set_default_val :: "opt_val \<Rightarrow> opt" where
  "set_default_val v = \<lparr>m_is_set = True, m_is_default = True, m_val = v\<rparr>"

definition set_null :: opt where
  "set_null = \<lparr>m_is_set = True, m_is_default = False, m_val = OStr [] [] True\<rparr>"

definition set_default_null :: opt where
  "set_default_null = set_null\<lparr>m_is_default := True\<rparr>"

text \<open>The assignment of a wide string, whose digits a number is read from, truncated to the type.\<close>

definition assign_wstr :: "opt_type \<Rightarrow> wstr \<Rightarrow> opt" where
  "assign_wstr t val = (if t = T_INT then set_int (to_int32 (int (sqlwchartoul val))) else set_bool (sqlwchartoul val \<noteq> 0))"

definition optionStr_set :: "nat \<Rightarrow> wstr \<Rightarrow> bool \<Rightarrow> opt res" where
  "optionStr_set sz val is_default =
     map_sum id (\<lambda>r. \<lparr>m_is_set = True, m_is_default = is_default, m_val = OStr val (fst r) False\<rparr>)
       (sqlwchar_as_utf8_ext sz (Some val) (Some (int (length val))))"

text \<open>The pointers an option converts to, null when it is null.\<close>

definition opt_wstr :: "opt \<Rightarrow> wstr option res" where
  "opt_wstr o' =
     (if m_is_set o' then Inr (case m_val o' of OStr w s n \<Rightarrow> if n then None else Some w | _ \<Rightarrow> None) else Inl NOT_SET)"

definition opt_str :: "opt \<Rightarrow> nat list option res" where
  "opt_str o' =
     (if m_is_set o' then Inr (case m_val o' of OStr w s n \<Rightarrow> if n then None else Some s | _ \<Rightarrow> None) else Inl NOT_SET)"

definition opt_given :: "opt \<Rightarrow> bool" where
  "opt_given o' \<longleftrightarrow> m_is_set o' \<and> (case m_val o' of OStr w s n \<Rightarrow> \<not> n \<and> w \<noteq> [] | _ \<Rightarrow> False)"

text \<open>The conversion of an option of any type to a wide string.\<close>

definition opt_text :: "opt \<Rightarrow> wstr res" where
  "opt_text o' =
     (case m_val o' of
        OStr w s n \<Rightarrow> if n then Inl (Runtime_error ''Option value is nullptr'') else Inr w
      | OInt i \<Rightarrow> if m_is_set o' then Inr (sqlwcharfromul (nat (i mod 2 ^ 64))) else Inl NOT_SET
      | OBool b \<Rightarrow> if m_is_set o' then Inr (sqlwcharfromul (if b then 1 else 0)) else Inl NOT_SET)"

text \<open>
  \<^verbatim>\<open>set_remove_brackets\<close> copies the value to a buffer of 1024 units, one bracket for each pair
  of closing ones; the length passed on to the conversion is the one before.
\<close>

fun collapse_brackets :: "wstr \<Rightarrow> wstr" where
  "collapse_brackets (c # d # s) =
     (if c = W_CLOSE \<and> d = W_CLOSE then c # collapse_brackets s else c # collapse_brackets (d # s))"
| "collapse_brackets s = s"

definition cstr :: "nat list \<Rightarrow> wstr" where
  "cstr b = takeWhile (\<lambda>c. c \<noteq> 0) b"

definition set_remove_brackets :: "nat \<Rightarrow> wstr option \<Rightarrow> int \<Rightarrow> opt res" where
  "set_remove_brackets sz val_char len =
     (case val_char of
        None \<Rightarrow> Inr set_null
      | Some s \<Rightarrow>
          if len < 0 \<and> len \<noteq> SQL_NTS then Inl (Runtime_error ''basic_string::_M_create'')
          else
            (let val_str = (if len \<noteq> SQL_NTS then take (nat len) s else cstr s);
                 out = collapse_brackets val_str;
                 w = cstr out
             in if length out \<ge> 1024 then Inl Bad_pointer
                else map_sum id (\<lambda>r. \<lparr>m_is_set = True, m_is_default = False, m_val = OStr w (fst r) False\<rparr>)
                       (sqlwchar_as_utf8_ext sz (Some w) (Some (int (length val_str))))))"

section \<open>The data source\<close>

text \<open>\<^verbatim>\<open>m_opt_map\<close>: keywords and aliases in the order of the keys.\<close>

definition opt_names :: "(string \<times> string) list" where
  "opt_names = map (\<lambda>X. (option_keyword X, X)) FULL_OPTIONS_LIST
     @ map (\<lambda>(X, Y). (Y, X)) ALIAS_OPTIONS_LIST"

definition opt_keys :: "(wstr \<times> string) list" where
  "opt_keys = map (\<lambda>(k, X). (wide k, X)) opt_names"

definition m_opt_map :: "(wstr \<times> string) list" where
  "m_opt_map = sort_key fst opt_keys"

definition wide_toupper :: "nat \<Rightarrow> nat" where
  "wide_toupper c = (if 97 \<le> c \<and> c \<le> 122 then c - 32 else c)"

definition get_opt :: "wstr \<Rightarrow> string option" where
  "get_opt name = map_of opt_keys (map wide_toupper name)"

subsection \<open>Defaults\<close>

definition reset :: data_source where
  "reset X =
     (case map_of
        [(''PORT'', set_default_val (OInt 3306)), (''NO_SCHEMA'', set_bool True),
         (''ENABLE_CLUSTER_FAILOVER'', set_default_val (OBool True)),
         (''GATHER_PERF_METRICS'', set_default_val (OBool False)),
         (''TOPOLOGY_REFRESH_RATE'', set_default_val (OInt 30000)),
         (''FAILOVER_TIMEOUT'', set_default_val (OInt 60000)),
         (''FAILOVER_READER_CONNECT_TIMEOUT'', set_default_val (OInt 30000)),
         (''FAILOVER_TOPOLOGY_REFRESH_RATE'', set_default_val (OInt 5000)),
         (''FAILOVER_WRITER_RECONNECT_INTERVAL'', set_default_val (OInt 5000)),
         (''CONNECT_TIMEOUT'', set_default_val (OInt 30)), (''NETWORK_TIMEOUT'', set_default_val (OInt 30)),
         (''ENABLE_FAILURE_DETECTION'', set_default_val (OBool True)),
         (''FAILURE_DETECTION_TIME'', set_default_val (OInt 30000)),
         (''FAILURE_DETECTION_INTERVAL'', set_default_val (OInt 5000)),
         (''FAILURE_DETECTION_COUNT'', set_default_val (OInt 3)),
         (''MONITOR_DISPOSAL_TIME'', set_default_val (OInt 60000)),
         (''FAILURE_DETECTION_TIMEOUT'', set_default_val (OInt 5)),
         (''WAIT_FOR_CUSTOM_ENDPOINT_INFO'', set_default_val (OBool True)),
         (''WAIT_FOR_CUSTOM_ENDPOINT_INFO_TIMEOUT_MS'', set_default_val (OInt 5000)),
         (''CUSTOM_ENDPOINT_INFO_REFRESH_RATE_MS'', set_default_val (OInt 30000)),
         (''CUSTOM_ENDPOINT_MONITOR_EXPIRATION_MS'', set_default_val (OInt 900000)),
         (''AUTH_PORT'', set_default_val (OInt 3306)), (''AUTH_EXPIRATION'', set_default_val (OInt 900)),
         (''FED_AUTH_PORT'', set_default_val (OInt 3306)), (''FED_AUTH_EXPIRATION'', set_default_val (OInt 900)),
         (''IDP_PORT'', set_default_val (OInt 443)), (''CLIENT_CONNECT_TIMEOUT'', set_default_val (OInt 60)),
         (''CLIENT_SOCKET_TIMEOUT'', set_default_val (OInt 60)), (''ENABLE_SSL'', set_default_val (OBool True))] X
      of Some v \<Rightarrow> v
       | None \<Rightarrow> (case option_type X of
                    T_STRING \<Rightarrow> set_default_null
                  | T_INT \<Rightarrow> set_default_val (OInt 0)
                  | T_BOOL \<Rightarrow> set_default_val (OBool False)))"

text \<open>
  Since every option is set from the construction on, reading one does not throw; these are the
  values the other components read.
\<close>

definition ds_int :: "data_source \<Rightarrow> string \<Rightarrow> int" where
  "ds_int ds X = (case m_val (ds X) of OInt i \<Rightarrow> i | _ \<Rightarrow> 0)"

definition ds_bool :: "data_source \<Rightarrow> string \<Rightarrow> bool" where
  "ds_bool ds X = (case m_val (ds X) of OBool b \<Rightarrow> b | _ \<Rightarrow> False)"

text \<open>The \<^verbatim>\<open>const char *\<close> of a string option, \<open>None\<close> for the null pointer, up to its first NUL.\<close>

definition ds_str :: "data_source \<Rightarrow> string \<Rightarrow> string option" where
  "ds_str ds X = (case m_val (ds X) of OStr w s n \<Rightarrow> if n then None else Some (map char_of (cstr s)) | _ \<Rightarrow> None)"

subsection \<open>Numeric options\<close>

definition set_numeric_options :: "nat \<Rightarrow> data_source \<Rightarrow> data_source" where
  "set_numeric_options options ds =
     fold (\<lambda>(X, flag) ds. ds(X := set_bool ((options AND flag) > 0))) BIT_OPTIONS_LIST ds"

definition get_numeric_options :: "data_source \<Rightarrow> nat" where
  "get_numeric_options ds =
     fold (\<lambda>(X, flag) options. if opt_bool (ds X) = Inr True then options OR flag else options) BIT_OPTIONS_LIST 0"

subsection \<open>Printing a connection string\<close>

definition wide_plain :: "nat \<Rightarrow> bool" where
  "wide_plain c \<longleftrightarrow> 48 \<le> c \<and> c \<le> 57 \<or> 97 \<le> c \<and> c \<le> 122 \<or> 65 \<le> c \<and> c \<le> 90 \<or> c \<in> {95, 32, 46}"

definition value_needs_escaped :: "wstr \<Rightarrow> bool" where
  "value_needs_escaped s \<longleftrightarrow> (\<exists>c\<in>set (cstr s). \<not> wide_plain c)"

definition kvpair :: "wstr \<Rightarrow> string \<Rightarrow> opt \<Rightarrow> nat \<Rightarrow> wstr res" where
  "kvpair k X v delim =
     (case opt_text v of
        Inl e \<Rightarrow> Inl e
      | Inr t \<Rightarrow>
          (let do_escape = (option_type X = T_STRING \<and> value_needs_escaped t)
           in Inr (k @ [61] @ (if do_escape then [W_OPEN] else []) @ escape_brackets t False
                @ (if do_escape then [W_CLOSE] else []) @ [delim])))"

definition kv_skipped :: "data_source \<Rightarrow> wstr \<Rightarrow> string \<Rightarrow> bool" where
  "kv_skipped ds k X \<longleftrightarrow> \<not> m_is_set (ds X) \<or> m_is_default (ds X) \<or>
     (\<not> m_is_default (ds ''DSN'') \<and> \<not> sqlwcharcasecmp (wide ''DRIVER'') k)"

fun to_kvpair_loop :: "data_source \<Rightarrow> (wstr \<times> string) list \<Rightarrow> nat \<Rightarrow> wstr res" where
  "to_kvpair_loop ds [] delim = Inr []"
| "to_kvpair_loop ds ((k, X) # els) delim =
     (if kv_skipped ds k X then to_kvpair_loop ds els delim
      else
        (case kvpair k X (ds X) delim of
           Inl e \<Rightarrow> Inl e
         | Inr s \<Rightarrow> map_sum id (\<lambda>rest. s @ rest) (to_kvpair_loop ds els delim)))"

definition to_kvpair :: "data_source \<Rightarrow> nat \<Rightarrow> wstr res" where
  "to_kvpair ds delim = to_kvpair_loop ds m_opt_map delim"

subsection \<open>Parsing a connection string\<close>

text \<open>
  The string is a buffer whose text ends at the first NUL, \<open>cstr\<close>; with the delimiter 0 the pairs
  are separated by a NUL each. Positions count from the start of the current pair.
\<close>

function find_bracket_end :: "wstr \<Rightarrow> nat option" where
  "find_bracket_end s =
     (case sqlwcharchr s W_CLOSE of
        None \<Rightarrow> None
      | Some e \<Rightarrow>
          if rd s (e + 1) = 0 then Some e
          else if rd s (e + 1) = W_CLOSE then
            (if rd s (e + 2) = 0 then Some (e + 2)
             else map_option (\<lambda>i. e + 2 + i) (find_bracket_end (drop (e + 2) s)))
          else Some e)"
  by pat_completeness auto
termination
proof (relation "measure length")
  fix s :: wstr and e
  assume "sqlwcharchr s W_CLOSE = Some e"
  then have "s \<noteq> []" by auto
  then show "(drop (e + 2) s, s) \<in> measure length" by simp
qed simp

declare find_bracket_end.simps [simp del]

fun trim_end :: "wstr \<Rightarrow> nat \<Rightarrow> nat \<Rightarrow> nat" where
  "trim_end str split 0 = 0"
| "trim_end str split (Suc e) =
     (if Suc e > split \<and> rd str e = 32 \<and> rd str (Suc e) \<noteq> W_CLOSE then trim_end str split e else Suc e)"

fun skip_delims :: "nat \<Rightarrow> wstr \<Rightarrow> wstr" where
  "skip_delims delim [] = []"
| "skip_delims delim (c # s) =
     (if (delim \<noteq> 0 \<and> c = delim) \<or> (delim = 0 \<and> c = 0 \<and> rd s 0 \<noteq> 0) \<or> c = 32 then skip_delims delim s else c # s)"

definition trim_attribute :: "wstr \<Rightarrow> wstr" where
  "trim_attribute a = rev (dropWhile (\<lambda>c. c = 32) (rev a))"

text \<open>Where the value that starts at \<open>split\<close> ends, before spaces are removed from its end.\<close>

definition value_end :: "wstr \<Rightarrow> nat \<Rightarrow> nat \<Rightarrow> nat" where
  "value_end str split delim =
     (case (if rd str split = W_OPEN then find_bracket_end (cstr str) else sqlwcharchr (cstr str) delim) of
        Some e \<Rightarrow> e
      | None \<Rightarrow> length (cstr str))"

text \<open>The assignment of the value between \<open>split\<close> and \<open>e\<close>; with it the position the next pair is looked for from.\<close>

definition set_pair ::
  "nat \<Rightarrow> wstr \<Rightarrow> wstr \<Rightarrow> nat \<Rightarrow> nat \<Rightarrow> data_source \<Rightarrow> (nat \<times> data_source) res" where
  "set_pair sz attribute str split e ds =
     (if \<not> sqlwcharcasecmp (wide ''OPTION'') attribute
      then Inr (e, set_numeric_options (sqlwchartoul (cstr (drop split str))) ds)
      else
        (case get_opt attribute of
           None \<Rightarrow> Inr (e, ds)
         | Some X \<Rightarrow>
             if option_type X = T_STRING then
               (if rd str split = W_OPEN \<and> rd str e = W_CLOSE
                then map_sum id (\<lambda>v. (e + 1, ds(X := v)))
                       (set_remove_brackets sz (Some (drop (split + 1) str)) (int e - int split - 1))
                else map_sum id (\<lambda>v. (e, ds(X := v)))
                       (set_remove_brackets sz (Some (drop split str)) (int e - int split)))
             else Inr (e, ds(X := assign_wstr (option_type X) (cstr (drop split str))))))"

text \<open>
  One iteration. It returns 1 (\<open>None\<close>) without a \<^verbatim>\<open>=\<close> or when the attribute does not fit its
  buffer; with an empty attribute it reads in front of that buffer.
\<close>

definition kvpair_step :: "nat \<Rightarrow> wstr \<Rightarrow> nat \<Rightarrow> data_source \<Rightarrow> (wstr \<times> data_source) option res" where
  "kvpair_step sz str delim ds =
     (case sqlwcharchr (cstr str) 61 of
        None \<Rightarrow> Inr None
      | Some eq_pos \<Rightarrow>
          (let spaces = length (takeWhile (\<lambda>c. c = 32) str);
               str = drop spaces str;
               len = eq_pos - spaces;
               split = len + 1 + length (takeWhile (\<lambda>c. c = 32) (drop (len + 1) str))
           in if len \<ge> 1000 then Inr None
              else if len = 0 then Inl Bad_pointer
              else
                (case set_pair sz (trim_attribute (take len str)) str split
                        (trim_end str split (value_end str split delim)) ds of
                   Inl e \<Rightarrow> Inl e
                 | Inr (e, ds) \<Rightarrow> Inr (Some (skip_delims delim (drop e str), ds)))))"

text \<open>The loop; \<open>None\<close> is a loop that has not ended within the fuel. The number is the return code.\<close>

fun from_kvpair :: "nat \<Rightarrow> nat \<Rightarrow> wstr \<Rightarrow> nat \<Rightarrow> data_source \<Rightarrow> (nat \<times> data_source) res option" where
  "from_kvpair 0 sz str delim ds = None"
| "from_kvpair (Suc n) sz str delim ds =
     (if rd str 0 = 0 then Some (Inr (0, ds))
      else
        (case kvpair_step sz str delim ds of
           Inl e \<Rightarrow> Some (Inl e)
         | Inr None \<Rightarrow> Some (Inr (1, ds))
         | Inr (Some (str', ds')) \<Rightarrow> from_kvpair n sz str' delim ds'))"

subsection \<open>Copy and lookup\<close>

fun copy_str_opts :: "nat \<Rightarrow> string list \<Rightarrow> data_source \<Rightarrow> data_source \<Rightarrow> data_source res" where
  "copy_str_opts sz [] src ds = Inr ds"
| "copy_str_opts sz (X # Xs) src ds =
     (case opt_wstr (src X) of
        Inl e \<Rightarrow> Inl e
      | Inr w \<Rightarrow>
          (case set_remove_brackets sz w (int (length (case w of Some s \<Rightarrow> cstr s | None \<Rightarrow> []))) of
             Inl e \<Rightarrow> Inl e
           | Inr v \<Rightarrow> copy_str_opts sz Xs src (ds(X := v))))"

definition ds_copy :: "nat \<Rightarrow> data_source option \<Rightarrow> data_source \<Rightarrow> data_source res" where
  "ds_copy sz ds_source ds =
     (case ds_source of
        None \<Rightarrow> Inr ds
      | Some src \<Rightarrow>
          map_sum id (\<lambda>ds'. fold (\<lambda>X ds. ds(X := src X)) (INT_OPTIONS_LIST @ BOOL_OPTIONS_LIST) ds')
            (copy_str_opts sz STR_OPTIONS_LIST src ds))"

text \<open>
  \<^verbatim>\<open>set_val\<close> and the loop of \<^verbatim>\<open>lookup\<close> over the entries of a DSN section; what the installer
  library stores for an entry is its second component, \<open>None\<close> when it cannot be read.
\<close>

definition set_val :: "nat \<Rightarrow> wstr \<Rightarrow> wstr \<Rightarrow> data_source \<Rightarrow> data_source res" where
  "set_val sz name val ds =
     (case get_opt name of
        None \<Rightarrow> Inr ds
      | Some X \<Rightarrow>
          if option_type X = T_STRING then map_sum id (\<lambda>v. ds(X := v)) (optionStr_set sz val False)
          else Inr (ds(X := assign_wstr (option_type X) val)))"

fun lookup_entries :: "nat \<Rightarrow> (wstr \<times> wstr option) list \<Rightarrow> data_source \<Rightarrow> (int \<times> data_source) res" where
  "lookup_entries sz [] ds = Inr (0, ds)"
| "lookup_entries sz ((entry, val) # entries) ds =
     (case val of
        None \<Rightarrow> Inr (1, ds)
      | Some v \<Rightarrow>
          if v = [] then lookup_entries sz entries ds
          else if \<not> sqlwcharcasecmp (wide ''OPTION'') entry
          then lookup_entries sz entries (set_numeric_options (get_numeric_options ds OR sqlwchartoul v) ds)
          else
            (case set_val sz entry v ds of
               Inl e \<Rightarrow> Inl e
             | Inr ds' \<Rightarrow> lookup_entries sz entries ds'))"

section \<open>The keywords\<close>

definition keyword_char :: "char \<Rightarrow> bool" where
  "keyword_char c \<longleftrightarrow> c \<in> set ''ABCDEFGHIJKLMNOPQRSTUVWXYZ0123456789_-''"

lemma keywords_plain: "list_all (\<lambda>(k, X). k \<noteq> [] \<and> length k < 1000 \<and> list_all keyword_char k) opt_names"
  by code_simp

lemma keywords_distinct: "distinct (map fst opt_names)"
  by code_simp
end
