(* ===== verification/Connection_String.thy ===== *)
theory Connection_String
  imports Data_Source
begin

text \<open>
  What the connection string functions of \<^verbatim>\<open>DataSource\<close> guarantee: a data source that is printed
  with \<^verbatim>\<open>to_kvpair\<close> and parsed with \<^verbatim>\<open>from_kvpair\<close> is the same, which inputs make the
  parser loop for ever, and the round trip of the numeric options.
\<close>

section \<open>Facts on the keywords\<close>

definition keyword_unit :: "nat \<Rightarrow> bool" where
  "keyword_unit c \<longleftrightarrow> 45 \<le> c \<and> c \<le> 95 \<and> c \<noteq> 59 \<and> c \<noteq> 61"

lemma keyword_char_unit: "keyword_char c \<Longrightarrow> keyword_unit (of_char c)"
  by (auto simp: keyword_char_def keyword_unit_def)

lemma keyword_unit_upper: "keyword_unit c \<Longrightarrow> wide_toupper c = c \<and> wide_upper c = c"
  by (simp add: keyword_unit_def wide_toupper_def wide_upper_def)

lemma wide_inject [simp]: "wide s = wide t \<longleftrightarrow> s = t"
  by (simp add: wide_def inj_map_eq_map inj_def)

lemma keyword_facts:
  assumes "(k, X) \<in> set opt_keys"
  shows "k \<noteq> []" "length k < 1000" "\<forall>c\<in>set k. keyword_unit c" "map wide_toupper k = k"
proof -
  from assms obtain n where n: "(n, X) \<in> set opt_names" "k = wide n" by (auto simp: opt_keys_def)
  then have "n \<noteq> [] \<and> length n < 1000 \<and> list_all keyword_char n"
    using keywords_plain by (auto simp: list_all_iff)
  then show "k \<noteq> []" "length k < 1000" and u: "\<forall>c\<in>set k. keyword_unit c"
    by (auto simp: n(2) wide_def list_all_iff keyword_char_unit)
  then show "map wide_toupper k = k" by (simp add: keyword_unit_upper map_idI)
qed

lemma get_opt_keyword: "(k, X) \<in> set opt_keys \<Longrightarrow> get_opt k = Some X"
proof -
  assume k: "(k, X) \<in> set opt_keys"
  have "map fst opt_keys = map wide (map fst opt_names)" by (auto simp: opt_keys_def)
  then have "distinct (map fst opt_keys)"
    using keywords_distinct by (simp add: distinct_map inj_on_def)
  then show ?thesis using keyword_facts(4) [OF k] k by (simp add: get_opt_def)
qed

lemma option_no_keyword: "''OPTION'' \<notin> fst ` set opt_names"
  by code_simp

lemma casecmp_upper: "\<not> sqlwcharcasecmp s t \<Longrightarrow> map wide_upper s = map wide_upper t"
  by (induction s t rule: sqlwcharcasecmp.induct) auto

lemma keyword_not_option: "(k, X) \<in> set opt_keys \<Longrightarrow> sqlwcharcasecmp (wide ''OPTION'') k"
proof (rule ccontr)
  assume k: "(k, X) \<in> set opt_keys" and "\<not> sqlwcharcasecmp (wide ''OPTION'') k"
  then have "map wide_upper (wide ''OPTION'') = map wide_upper k" by (simp add: casecmp_upper)
  moreover have "map wide_upper k = k" using keyword_facts(3) [OF k] by (simp add: keyword_unit_upper map_idI)
  moreover have "map wide_upper (wide ''OPTION'') = wide ''OPTION''" by (simp add: wide_def wide_upper_def)
  ultimately have "k = wide ''OPTION''" by simp
  with k option_no_keyword show False by (force simp: opt_keys_def)
qed

section \<open>One printed pair is parsed back\<close>

lemma takeWhile_space: "s = [] \<or> hd s \<noteq> 32 \<Longrightarrow> takeWhile (\<lambda>c. c = 32) s = ([] :: wstr)"
  by (cases s) auto

lemma trim_attribute_keyword: "\<forall>c\<in>set k. keyword_unit c \<Longrightarrow> trim_attribute k = k"
proof -
  assume "\<forall>c\<in>set k. keyword_unit c"
  then have "rev k = [] \<or> hd (rev k) \<noteq> 32" by (cases k rule: rev_cases) (auto simp: keyword_unit_def)
  then show ?thesis by (cases "rev k") (auto simp: trim_attribute_def)
qed

lemma cstr_id: "0 \<notin> set s \<Longrightarrow> cstr s = s"
  by (auto simp: cstr_def takeWhile_eq_all_conv intro!: gr0I)

lemma rd_append: "rd (a @ b) (length a + i) = rd b i"
  by (simp add: rd_def nth_append)

text \<open>The iteration on an attribute with a value that starts without a space.\<close>

lemma kvpair_step_result:
  assumes a: "a \<noteq> []" "hd a \<noteq> 32" "0 \<notin> set a" "61 \<notin> set a" "length a < 1000"
    and v: "hd v \<noteq> 32" "v \<noteq> []" "0 \<notin> set v"
    and r: "value_end (a @ 61 # v) (length a + 1) delim = e"
      "trim_end (a @ 61 # v) (length a + 1) e = e"
      "set_pair sz (trim_attribute a) (a @ 61 # v) (length a + 1) e ds = Inr (e', ds')"
      "skip_delims delim (drop e' (a @ 61 # v)) = rest"
  shows "kvpair_step sz (a @ 61 # v) delim ds = Inr (Some (rest, ds'))"
proof -
  have c: "cstr (a @ 61 # v) = a @ 61 # v" using a v by (simp add: cstr_id)
  have sa: "takeWhile (\<lambda>c. c = 32) (a @ 61 # v) = []" using a by (intro takeWhile_space) simp
  have sv: "takeWhile (\<lambda>c. c = 32) v = []" using v by (intro takeWhile_space) simp
  have eq: "sqlwcharchr (a @ 61 # v) 61 = Some (length a)" using a by (simp add: sqlwcharchr_append)
  have d: "drop (length a + 1) (a @ 61 # v) = v" "take (length a) (a @ 61 # v) = a" by simp_all
  have l: "\<not> 1000 \<le> length a" "length a \<noteq> 0" using a by simp_all
  show ?thesis
    by (simp only: kvpair_step_def c eq option.case Let_def sa list.size drop_0 diff_zero d sv add_0_right l
        if_False r sum.case prod.case)
qed

lemma kvpair_step_keyword:
  assumes k: "(k, X) \<in> set opt_keys" and "hd v \<noteq> 32" "v \<noteq> []" "0 \<notin> set v"
    and "value_end (k @ 61 # v) (length k + 1) delim = e"
    and "trim_end (k @ 61 # v) (length k + 1) e = e"
    and "set_pair sz k (k @ 61 # v) (length k + 1) e ds = Inr (e', ds')"
    and "skip_delims delim (drop e' (k @ 61 # v)) = rest"
  shows "kvpair_step sz (k @ 61 # v) delim ds = Inr (Some (rest, ds'))"
proof -
  note kf = keyword_facts [OF k]
  have "hd k \<noteq> 32" "0 \<notin> set k" "61 \<notin> set k" using kf(1,3) by (cases k; auto simp: keyword_unit_def)+
  with assms kf show ?thesis by (intro kvpair_step_result) (simp_all add: trim_attribute_keyword)
qed

text \<open>A value without closing brackets, followed by the delimiter, is stored as it is.\<close>

definition stored_str :: "nat \<Rightarrow> wstr \<Rightarrow> opt" where
  "stored_str sz t =
     \<lparr>m_is_set = True, m_is_default = False, m_val = OStr t (fst (wide_to_utf8 sz t (length t))) False\<rparr>"

lemma collapse_brackets_id: "W_CLOSE \<notin> set s \<Longrightarrow> collapse_brackets s = s"
  by (induction s rule: collapse_brackets.induct) auto

lemma set_remove_brackets_text:
  assumes "0 \<notin> set t" "W_CLOSE \<notin> set t" "length t < 1024"
  shows "set_remove_brackets sz (Some (t @ rest)) (int (length t)) = Inr (stored_str sz t)"
proof (cases "t = []")
  case True
  then show ?thesis
    by (simp add: set_remove_brackets_def SQL_NTS_def Let_def stored_str_def sqlwchar_as_utf8_ext_def
        cstr_def wide_to_utf8.simps)
next
  case False
  then show ?thesis
    using assms by (simp add: set_remove_brackets_def SQL_NTS_def Let_def stored_str_def
        sqlwchar_as_utf8_ext_def collapse_brackets_id cstr_id)
qed

lemma trim_end_stop:
  "e \<le> split \<or> rd str (e - 1) \<noteq> 32 \<or> rd str e = W_CLOSE \<Longrightarrow> trim_end str split e = e"
  by (cases e) auto

definition plain_value :: "wstr \<Rightarrow> bool" where
  "plain_value t \<longleftrightarrow> 0 \<notin> set t \<and> W_CLOSE \<notin> set t \<and> length t < 1024 \<and> (t = [] \<or> hd t \<noteq> 32 \<and> last t \<noteq> 32)"

lemma rd_last: "t \<noteq> [] \<Longrightarrow> rd (a @ t @ b) (length a + length t - 1) = last t"
  by (cases t rule: rev_cases) (simp_all add: rd_def nth_append)

lemma step_unescaped:
  assumes k: "(k, X) \<in> set opt_keys" and t: "plain_value t" "59 \<notin> set t" "W_OPEN \<notin> set t"
    and rest: "0 \<notin> set rest" "rest = [] \<or> hd rest \<noteq> 59 \<and> hd rest \<noteq> 32"
    and ty: "option_type X = T_STRING"
  shows "kvpair_step sz (k @ 61 # t @ 59 # rest) 59 ds = Inr (Some (rest, ds(X := stored_str sz t)))"
proof -
  note kf = keyword_facts [OF k]
  let ?s = "k @ 61 # t @ 59 # rest"
  let ?sp = "length k + 1"
  have nz: "0 \<notin> set k" "59 \<notin> set k" using kf(3) by (auto simp: keyword_unit_def)
  have c: "cstr ?s = ?s" using nz t rest by (simp add: cstr_id plain_value_def)
  have d: "drop ?sp ?s = t @ 59 # rest" by simp
  have r: "rd ?s ?sp = rd (t @ 59 # rest) 0" using rd_append [of "k @ [61]" "t @ 59 # rest" 0] by simp
  have "rd (t @ 59 # rest) 0 \<noteq> W_OPEN" using t(3) by (cases t) (auto simp: W_OPEN_def)
  then have r0: "rd ?s ?sp \<noteq> W_OPEN" unfolding r .
  have "59 \<notin> set (k @ 61 # t)" using nz t(2) by simp
  then have "sqlwcharchr ?s 59 = Some (length (k @ 61 # t))"
    using sqlwcharchr_append [of 59 "k @ 61 # t" rest] by simp
  then have ve: "value_end ?s ?sp 59 = ?sp + length t" using r0 by (simp add: value_end_def c)
  have "?sp + length t \<le> ?sp \<or> rd ?s (?sp + length t - 1) \<noteq> 32"
  proof (cases "t = []")
    case False
    with rd_last [of t "k @ [61]" "59 # rest"] t(1) show ?thesis by (simp add: plain_value_def)
  qed simp
  then have te: "trim_end ?s ?sp (?sp + length t) = ?sp + length t"
    by (intro trim_end_stop) blast
  have sp: "set_pair sz k ?s ?sp (?sp + length t) ds = Inr (?sp + length t, ds(X := stored_str sz t))"
    using set_remove_brackets_text [of t sz "59 # rest"] t(1) r0 get_opt_keyword [OF k] ty
    by (simp add: set_pair_def keyword_not_option [OF k] plain_value_def)
  have sk: "skip_delims 59 (drop (?sp + length t) ?s) = rest" using rest(2) by (cases rest) auto
  have h: "hd (t @ 59 # rest) \<noteq> 32" using t(1) by (cases t) (auto simp: plain_value_def)
  show ?thesis
    by (rule kvpair_step_keyword [OF k h _ _ ve te sp sk]) (use t(1) rest(1) in \<open>simp_all add: plain_value_def\<close>)
qed

lemma find_bracket_end_first:
  "W_CLOSE \<notin> set a \<Longrightarrow> rd b 0 \<noteq> W_CLOSE \<Longrightarrow> find_bracket_end (a @ W_CLOSE # b) = Some (length a)"
  using rd_append [of a "W_CLOSE # b" 1] by (subst find_bracket_end.simps) (simp add: sqlwcharchr_append)

lemma step_escaped:
  assumes k: "(k, X) \<in> set opt_keys" and t: "plain_value t"
    and rest: "0 \<notin> set rest" "rest = [] \<or> hd rest \<noteq> 59 \<and> hd rest \<noteq> 32"
    and ty: "option_type X = T_STRING"
  shows "kvpair_step sz (k @ 61 # W_OPEN # t @ W_CLOSE # 59 # rest) 59 ds = Inr (Some (rest, ds(X := stored_str sz t)))"
proof -
  note kf = keyword_facts [OF k]
  let ?s = "k @ 61 # W_OPEN # t @ W_CLOSE # 59 # rest"
  let ?sp = "length k + 1"
  let ?e = "length k + 2 + length t"
  have wc: "W_OPEN = 123" "W_CLOSE = 125" by (simp_all add: W_OPEN_def W_CLOSE_def)
  have nz: "0 \<notin> set k" "W_CLOSE \<notin> set k" using kf(3) by (auto simp: keyword_unit_def wc)
  have c: "cstr ?s = ?s" using nz t rest by (simp add: cstr_id plain_value_def wc)
  have r0: "rd ?s ?sp = W_OPEN" using rd_append [of "k @ [61]" "W_OPEN # t @ W_CLOSE # 59 # rest" 0] by simp
  have re: "rd ?s ?e = W_CLOSE" using rd_append [of "k @ 61 # W_OPEN # t" "W_CLOSE # 59 # rest" 0] by simp
  have "find_bracket_end ?s = Some ?e"
    using find_bracket_end_first [of "k @ 61 # W_OPEN # t" "59 # rest"] nz t by (simp add: plain_value_def wc)
  then have ve: "value_end ?s ?sp 59 = ?e" using r0 by (simp add: value_end_def c)
  have te: "trim_end ?s ?sp ?e = ?e" using re by (intro trim_end_stop) simp
  have dr: "drop (?sp + 1) ?s = t @ W_CLOSE # 59 # rest" by simp
  have sp: "set_pair sz k ?s ?sp ?e ds = Inr (?e + 1, ds(X := stored_str sz t))"
    using set_remove_brackets_text [of t sz "W_CLOSE # 59 # rest"] t r0 re get_opt_keyword [OF k] ty dr
    by (simp add: set_pair_def keyword_not_option [OF k] plain_value_def)
  have "drop (?e + 1) ?s = 59 # rest" by (simp add: numeral_3_eq_3)
  then have sk: "skip_delims 59 (drop (?e + 1) ?s) = rest" using rest(2) by (cases rest) auto
  have h: "hd (W_OPEN # t @ W_CLOSE # 59 # rest) \<noteq> 32" by (simp add: wc)
  show ?thesis
    by (rule kvpair_step_keyword [OF k h _ _ ve te sp sk]) (use t rest(1) in \<open>simp_all add: plain_value_def wc\<close>)
qed

text \<open>A number is read up to the delimiter.\<close>

lemma step_number:
  assumes k: "(k, X) \<in> set opt_keys" and ty: "option_type X \<noteq> T_STRING" and n: "n < 2 ^ 64"
    and rest: "0 \<notin> set rest" "rest = [] \<or> hd rest \<noteq> 59 \<and> hd rest \<noteq> 32"
  shows "kvpair_step sz (k @ 61 # sqlwcharfromul n @ 59 # rest) 59 ds =
    Inr (Some (rest, ds(X := (if option_type X = T_INT then set_int (to_int32 (int n)) else set_bool (n \<noteq> 0)))))"
proof -
  note kf = keyword_facts [OF k]
  let ?t = "sqlwcharfromul n"
  let ?s = "k @ 61 # ?t @ 59 # rest"
  let ?sp = "length k + 1"
  have dig: "48 \<le> c \<and> c \<le> 57" if "c \<in> set ?t" for c using fromul_digits [of n] that by (auto simp: is_wdigit_def)
  have nz: "0 \<notin> set k" "59 \<notin> set k" using kf(3) by (auto simp: keyword_unit_def)
  have tz: "0 \<notin> set ?t" "59 \<notin> set ?t" "123 \<notin> set ?t" "32 \<notin> set ?t" using dig by fastforce+
  have c: "cstr ?s = ?s" using nz tz rest by (simp add: cstr_id)
  have r: "rd ?s ?sp = rd (?t @ 59 # rest) 0" using rd_append [of "k @ [61]" "?t @ 59 # rest" 0] by simp
  have "rd (?t @ 59 # rest) 0 \<noteq> W_OPEN" using tz(3) by (cases ?t) (auto simp: W_OPEN_def)
  then have r0: "rd ?s ?sp \<noteq> W_OPEN" unfolding r .
  have "sqlwcharchr ?s 59 = Some (length (k @ 61 # ?t))"
    using sqlwcharchr_append [of 59 "k @ 61 # ?t" rest] nz tz by simp
  then have ve: "value_end ?s ?sp 59 = ?sp + length ?t" using r0 by (simp add: value_end_def c)
  have "?sp + length ?t \<le> ?sp \<or> rd ?s (?sp + length ?t - 1) \<noteq> 32"
  proof (cases "?t = []")
    case False
    then have "last ?t \<noteq> 32" using tz(4) last_in_set by metis
    with rd_last [of ?t "k @ [61]" "59 # rest"] False show ?thesis by simp
  qed simp
  then have te: "trim_end ?s ?sp (?sp + length ?t) = ?sp + length ?t" by (intro trim_end_stop) blast
  have "cstr (drop ?sp ?s) = ?t @ 59 # rest" using tz rest by (simp add: cstr_id)
  moreover have "sqlwchartoul (?t @ 59 # rest) = n" using n by (intro sqlwchartoul_fromul) (simp_all add: is_wdigit_def)
  ultimately have sp: "set_pair sz k ?s ?sp (?sp + length ?t) ds = Inr (?sp + length ?t,
      ds(X := (if option_type X = T_INT then set_int (to_int32 (int n)) else set_bool (n \<noteq> 0))))"
    using get_opt_keyword [OF k] ty keyword_not_option [OF k] by (simp add: set_pair_def assign_wstr_def)
  have sk: "skip_delims 59 (drop (?sp + length ?t) ?s) = rest" using rest(2) by (cases rest) auto
  have h: "hd (?t @ 59 # rest) \<noteq> 32" using tz(4) by (cases ?t) auto
  show ?thesis
    by (rule kvpair_step_keyword [OF k h _ _ ve te sp sk]) (use tz rest(1) in simp_all)
qed

section \<open>The round trip\<close>

text \<open>
  The values a data source can hold: of the type of the option, the UTF-8 form of a string made
  from its wide form, an integer of 32 bits; and a string that survives printing: not null, shorter
  than the buffer, without NUL, closing brackets or spaces at its ends.
\<close>

definition wf_opt :: "nat \<Rightarrow> string \<Rightarrow> opt \<Rightarrow> bool" where
  "wf_opt sz X v \<longleftrightarrow>
     (case m_val v of
        OStr w s n \<Rightarrow> option_type X = T_STRING \<and> (if n then w = [] \<and> s = [] else s = fst (wide_to_utf8 sz w (length w)))
      | OInt i \<Rightarrow> option_type X = T_INT \<and> - (2 ^ 31) \<le> i \<and> i < 2 ^ 31
      | OBool b \<Rightarrow> option_type X = T_BOOL)"

definition printable :: "opt \<Rightarrow> bool" where
  "printable v \<longleftrightarrow> (case m_val v of OStr w s n \<Rightarrow> \<not> n \<and> plain_value w | _ \<Rightarrow> True)"

lemma to_int32_unsigned: "- (2 ^ 31) \<le> i \<Longrightarrow> i < 2 ^ 31 \<Longrightarrow> to_int32 (i mod 2 ^ 64) = i"
proof -
  assume i: "- (2 ^ 31) \<le> i" "i < (2::int) ^ 31"
  have "(i mod 2 ^ 64 + 2 ^ 31) mod 2 ^ 32 = (i + 2 ^ 31) mod 2 ^ 32"
    by (metis mod_add_left_eq mod_mod_cancel le_imp_power_dvd numeral_le_iff semiring_norm(68,71,72,73))
  with i show ?thesis by (simp add: to_int32_def)
qed

lemma plain_unescaped: "\<not> value_needs_escaped t \<Longrightarrow> plain_value t \<Longrightarrow> 59 \<notin> set t \<and> W_OPEN \<notin> set t"
proof -
  assume n: "\<not> value_needs_escaped t" and p: "plain_value t"
  then have "\<forall>c\<in>set t. wide_plain c" by (simp add: value_needs_escaped_def cstr_id plain_value_def)
  then show ?thesis by (auto simp: wide_plain_def W_OPEN_def)
qed

lemma escape_brackets_plain: "plain_value t \<Longrightarrow> escape_brackets t False = t"
  by (simp add: escape_brackets_def plain_value_def)

lemma kvpair_number:
  assumes "opt_text v = Inr (sqlwcharfromul m)" "option_type X \<noteq> T_STRING"
  shows "kvpair k X v 59 = Inr (k @ 61 # sqlwcharfromul m @ [59]) \<and> 0 \<notin> set (sqlwcharfromul m)"
proof -
  have "W_CLOSE \<notin> set (sqlwcharfromul m)" "0 \<notin> set (sqlwcharfromul m)"
    using fromul_digits [of m] by (auto simp: is_wdigit_def W_CLOSE_def)
  then show ?thesis using assms by (simp add: kvpair_def escape_brackets_def)
qed

text \<open>A printed pair is what the next iteration parses, to the option it was printed from.\<close>

lemma printed_pair_parsed:
  assumes k: "(k, X) \<in> set opt_keys" and v: "wf_opt sz X v" "printable v" "m_is_set v" "\<not> m_is_default v"
  shows "\<exists>s. kvpair k X v 59 = Inr s \<and> 0 \<notin> set s \<and> s \<noteq> [] \<and> hd s \<noteq> 59 \<and> hd s \<noteq> 32 \<and>
    (\<forall>rest ds. 0 \<notin> set rest \<longrightarrow> (rest = [] \<or> hd rest \<noteq> 59 \<and> hd rest \<noteq> 32) \<longrightarrow>
       kvpair_step sz (s @ rest) 59 ds = Inr (Some (rest, ds(X := v))))"
proof -
  note kf = keyword_facts [OF k]
  have kz: "0 \<notin> set k" "hd k \<noteq> 59" "hd k \<noteq> 32" using kf(1,3) by (cases k; auto simp: keyword_unit_def)+
  have v_eq: "v = \<lparr>m_is_set = True, m_is_default = False, m_val = m_val v\<rparr>" using v(3,4) by simp
  show ?thesis
  proof (cases "m_val v")
    case (OStr w s n)
    then have t: "option_type X = T_STRING" "plain_value w" "v = stored_str sz w"
      using v v_eq by (auto simp: wf_opt_def printable_def stored_str_def)
    have tx: "opt_text v = Inr w" using OStr v(2) by (simp add: opt_text_def printable_def)
    have wz: "0 \<notin> set w" using t(2) by (simp add: plain_value_def)
    show ?thesis
    proof (cases "value_needs_escaped w")
      case True
      then have "kvpair k X v 59 = Inr (k @ 61 # W_OPEN # w @ [W_CLOSE, 59])"
        by (simp add: kvpair_def tx t(1) escape_brackets_plain [OF t(2)])
      with step_escaped [OF k t(2) _ _ t(1), of _ sz] kz kf(1) wz t(3) show ?thesis
        by (auto simp: W_OPEN_def W_CLOSE_def)
    next
      case False
      then have "kvpair k X v 59 = Inr (k @ 61 # w @ [59])"
        by (simp add: kvpair_def tx t(1) escape_brackets_plain [OF t(2)])
      with step_unescaped [OF k t(2) _ _ _ _ t(1), of _ sz] plain_unescaped [OF False t(2)] kz kf(1) wz t(3)
      show ?thesis by auto
    qed
  next
    case (OInt i)
    define m where "m = nat (i mod 2 ^ 64)"
    have t: "option_type X = T_INT" "- (2 ^ 31) \<le> i" "i < 2 ^ 31" using v(1) OInt by (auto simp: wf_opt_def)
    have m: "m < 2 ^ 64" "int m = i mod 2 ^ 64" by (simp_all add: m_def nat_less_iff)
    have set: "set_int (to_int32 (int m)) = v" using v_eq OInt m(2) to_int32_unsigned [OF t(2,3)] by (simp add: set_int_def)
    have "opt_text v = Inr (sqlwcharfromul m)" by (simp add: opt_text_def OInt v(3) m_def)
    then have "kvpair k X v 59 = Inr (k @ 61 # sqlwcharfromul m @ [59]) \<and> 0 \<notin> set (sqlwcharfromul m)"
      by (rule kvpair_number) (simp add: t(1))
    then show ?thesis
      using step_number [OF k _ m(1), of _ sz] kz kf(1) t(1) set by auto
  next
    case (OBool b)
    define m :: nat where "m = (if b then 1 else 0)"
    have t: "option_type X = T_BOOL" using v(1) OBool by (auto simp: wf_opt_def)
    have m: "m < 2 ^ 64" by (simp add: m_def)
    have set: "set_bool (m \<noteq> 0) = v" using v_eq OBool by (simp add: set_bool_def m_def)
    have "opt_text v = Inr (sqlwcharfromul m)" by (simp add: opt_text_def OBool v(3) m_def)
    then have "kvpair k X v 59 = Inr (k @ 61 # sqlwcharfromul m @ [59]) \<and> 0 \<notin> set (sqlwcharfromul m)"
      by (rule kvpair_number) (simp add: t)
    then show ?thesis
      using step_number [OF k _ m, of _ sz] kz kf(1) t set by auto
  qed
qed

definition kv_printed :: "data_source \<Rightarrow> string \<Rightarrow> bool" where
  "kv_printed ds X \<longleftrightarrow> (\<exists>k. (k, X) \<in> set opt_keys \<and> \<not> kv_skipped ds k X)"

lemma pairs_round_trip:
  assumes "set els \<subseteq> set opt_keys"
    and "\<forall>(k, X)\<in>set els. \<not> kv_skipped ds k X \<longrightarrow> wf_opt sz X (ds X) \<and> printable (ds X)"
  shows "\<exists>s. to_kvpair_loop ds els 59 = Inr s \<and> 0 \<notin> set s \<and> (s = [] \<or> hd s \<noteq> 59 \<and> hd s \<noteq> 32) \<and>
    (\<forall>n ds0. length s < n \<longrightarrow> from_kvpair n sz s 59 ds0 =
       Some (Inr (0, fold (\<lambda>(k, X) d. if kv_skipped ds k X then d else d(X := ds X)) els ds0)))"
  using assms
proof (induction els)
  case Nil
  have "from_kvpair n sz [] 59 ds0 = Some (Inr (0, ds0))" if "0 < n" for n ds0
    using that by (cases n) auto
  then show ?case by simp
next
  case (Cons el els)
  obtain k X where el: "el = (k, X)" by (cases el)
  from Cons obtain s where s: "to_kvpair_loop ds els 59 = Inr s" "0 \<notin> set s" "s = [] \<or> hd s \<noteq> 59 \<and> hd s \<noteq> 32"
    "\<And>n ds0. length s < n \<Longrightarrow> from_kvpair n sz s 59 ds0 =
       Some (Inr (0, fold (\<lambda>(k, X) d. if kv_skipped ds k X then d else d(X := ds X)) els ds0))"
    by auto
  show ?case
  proof (cases "kv_skipped ds k X")
    case True
    with s show ?thesis by (simp add: el)
  next
    case False
    then have v: "wf_opt sz X (ds X)" "printable (ds X)" "m_is_set (ds X)" "\<not> m_is_default (ds X)"
      using Cons.prems(2) by (auto simp: el kv_skipped_def)
    have k: "(k, X) \<in> set opt_keys" using Cons.prems(1) by (simp add: el)
    obtain p where p: "kvpair k X (ds X) 59 = Inr p" "0 \<notin> set p" "p \<noteq> []" "hd p \<noteq> 59 \<and> hd p \<noteq> 32"
      "\<And>d. kvpair_step sz (p @ s) 59 d = Inr (Some (s, d(X := ds X)))"
      using printed_pair_parsed [OF k v] s(2,3) by blast
    have r: "rd (p @ s) 0 \<noteq> 0" using p(2,3) by (cases p) auto
    have "from_kvpair n sz (p @ s) 59 ds0 =
      Some (Inr (0, fold (\<lambda>(k, X) d. if kv_skipped ds k X then d else d(X := ds X)) (el # els) ds0))"
      if n: "length (p @ s) < n" for n ds0
    proof -
      from n obtain m where m: "n = Suc m" by (cases n) auto
      with n p(3) have "length s < m" by (cases p) auto
      with s(4) [of m] m r p(5) False show ?thesis by (simp add: el)
    qed
    with p s False show ?thesis by (simp add: el)
  qed
qed

lemma fold_printed:
  "fold (\<lambda>(k, X) d. if kv_skipped ds k X then d else d(X := ds X)) els ds0 X =
     (if \<exists>k. (k, X) \<in> set els \<and> \<not> kv_skipped ds k X then ds X else ds0 X)"
  by (induction els arbitrary: ds0) auto

lemma m_opt_map_set: "set m_opt_map = set opt_keys"
  by (simp add: m_opt_map_def)

lemma opt_keys_option: "(k, X) \<in> set opt_keys \<Longrightarrow> X \<in> set FULL_OPTIONS_LIST"
proof -
  assume "(k, X) \<in> set opt_keys"
  then have "X \<in> set FULL_OPTIONS_LIST \<or> X \<in> fst ` set ALIAS_OPTIONS_LIST"
    by (force simp: opt_keys_def opt_names_def)
  moreover have "fst ` set ALIAS_OPTIONS_LIST \<subseteq> set STR_OPTIONS_LIST"
    by (simp add: ALIAS_OPTIONS_LIST_def STR_OPTIONS_LIST_def)
  ultimately show ?thesis by (auto simp: FULL_OPTIONS_LIST_def)
qed

text \<open>
  C29: A data source whose non-default options are well-formed and printable is printed to a
  connection string that the parser reads without error, in as many iterations as the string has
  characters at most; afterwards every printed option has the value and the state it was printed
  with, and every other option is as before.
\<close>

theorem connection_string_round_trip:
  assumes "\<forall>X\<in>set FULL_OPTIONS_LIST.
    m_is_set (ds X) \<and> \<not> m_is_default (ds X) \<longrightarrow> wf_opt sz X (ds X) \<and> printable (ds X)"
  shows "\<exists>s. to_kvpair ds 59 = Inr s \<and>
    (\<forall>n>length s. from_kvpair n sz s 59 ds0 = Some (Inr (0, \<lambda>X. if kv_printed ds X then ds X else ds0 X)))"
proof -
  have "\<forall>(k, X)\<in>set m_opt_map. \<not> kv_skipped ds k X \<longrightarrow> wf_opt sz X (ds X) \<and> printable (ds X)"
    using assms opt_keys_option by (auto simp: m_opt_map_set kv_skipped_def)
  from pairs_round_trip [OF _ this] obtain s where s: "to_kvpair ds 59 = Inr s"
    "\<And>n ds0. length s < n \<Longrightarrow> from_kvpair n sz s 59 ds0 =
       Some (Inr (0, fold (\<lambda>(k, X) d. if kv_skipped ds k X then d else d(X := ds X)) m_opt_map ds0))"
    by (auto simp: m_opt_map_set to_kvpair_def)
  have "fold (\<lambda>(k, X) d. if kv_skipped ds k X then d else d(X := ds X)) m_opt_map ds0 =
    (\<lambda>X. if kv_printed ds X then ds X else ds0 X)"
    by (rule ext) (simp add: fold_printed m_opt_map_set kv_printed_def)
  with s show ?thesis by auto
qed

lemma own_keyword: "X \<in> set FULL_OPTIONS_LIST \<Longrightarrow> option_keyword X = X \<Longrightarrow> (X, X) \<in> set opt_names"
  unfolding opt_names_def by (metis (mono_tags, lifting) UnI1 image_eqI list.set_map set_append)

lemma reset_defaults: "X \<noteq> ''NO_SCHEMA'' \<Longrightarrow> m_is_default (reset X)"
  by (auto simp: reset_def set_default_val_def set_default_null_def set_null_def split: option.splits opt_type.splits if_splits)

theorem connection_string_round_trip_witness:
  "\<exists>ds s ds1. to_kvpair ds 59 = Inr s \<and> from_kvpair (Suc (length s)) 2 s 59 reset = Some (Inr (0, ds1)) \<and>
     ds1 ''PWD'' = stored_str 2 (wide ''x;{y'') \<and> ds1 ''PORT'' = set_int 3307"
proof -
  define ds where "ds = reset(''PWD'' := stored_str 2 (wide ''x;{y''), ''PORT'' := set_int 3307)"
  have ty: "option_type ''PWD'' = T_STRING" "option_type ''PORT'' = T_INT" "option_type ''NO_SCHEMA'' = T_BOOL"
    by (simp_all add: option_type_def STR_OPTIONS_LIST_def INT_OPTIONS_LIST_def)
  have v: "ds ''PWD'' = stored_str 2 (wide ''x;{y'')" "ds ''PORT'' = set_int 3307" "ds ''NO_SCHEMA'' = set_bool True"
    by (simp_all add: ds_def reset_def)
  have d: "m_is_default (ds X)" if "X \<notin> {''PWD'', ''PORT'', ''NO_SCHEMA''}" for X
    using that reset_defaults [of X] by (simp add: ds_def)
  have ok: "wf_opt 2 X (ds X) \<and> printable (ds X)" if "\<not> m_is_default (ds X)" for X
  proof -
    have "X \<in> {''PWD'', ''PORT'', ''NO_SCHEMA''}" using d that by blast
    then show ?thesis
      using v ty by (auto simp: wf_opt_def printable_def stored_str_def set_int_def set_bool_def
          plain_value_def wide_def W_CLOSE_def)
  qed
  have keys: "(''PWD'', ''PWD'') \<in> set opt_names" "(''PORT'', ''PORT'') \<in> set opt_names"
    by (rule own_keyword, simp add: FULL_OPTIONS_LIST_def STR_OPTIONS_LIST_def INT_OPTIONS_LIST_def,
        simp add: option_keyword_def)+
  have "kv_printed ds X" if "(X, X) \<in> set opt_names" "m_is_set (ds X)" "\<not> m_is_default (ds X)" for X
    using that d [of "''DSN''"] by (force simp: kv_printed_def kv_skipped_def opt_keys_def)
  then have pr: "kv_printed ds ''PWD''" "kv_printed ds ''PORT''"
    using keys v by (simp_all add: stored_str_def set_int_def)
  obtain s where "to_kvpair ds 59 = Inr s"
    "\<forall>n>length s. from_kvpair n 2 s 59 reset = Some (Inr (0, \<lambda>X. if kv_printed ds X then ds X else reset X))"
    using connection_string_round_trip [of ds 2 reset] ok by blast
  then have "to_kvpair ds 59 = Inr s" "from_kvpair (Suc (length s)) 2 s 59 reset =
      Some (Inr (0, \<lambda>X. if kv_printed ds X then ds X else reset X))"
    by (blast, blast)
  with pr v show ?thesis by (intro exI) (rule conjI, assumption, rule conjI, assumption, simp)
qed

section \<open>Strings the parser does not finish\<close>

text \<open>
  The end of a bracketed value is searched for from the start of the pair. When the attribute
  itself begins with a closing bracket, the end is found there and the next iteration starts at
  the same place.
\<close>

lemma get_opt_bracket: "W_CLOSE \<in> set a \<Longrightarrow> get_opt a = None"
proof (rule ccontr)
  assume a: "W_CLOSE \<in> set a" and "get_opt a \<noteq> None"
  then obtain X where "(map wide_toupper a, X) \<in> set opt_keys" by (auto simp: get_opt_def dest: map_of_SomeD)
  from keyword_facts(3) [OF this] a have "keyword_unit (wide_toupper W_CLOSE)" by auto
  then show False by (simp add: keyword_unit_def wide_toupper_def W_CLOSE_def)
qed

lemma trim_attribute_Cons: "c \<noteq> 32 \<Longrightarrow> \<exists>a'. trim_attribute (c # a) = c # a'"
proof -
  assume "c \<noteq> 32"
  then have "dropWhile (\<lambda>c. c = 32) (rev a @ [c]) = dropWhile (\<lambda>c. c = 32) (rev a) @ [c]"
    by (metis (mono_tags, lifting) dropWhile.simps(1) dropWhile.simps(2) dropWhile_append3 dropWhile_eq_Nil_conv dropWhile_append append_Nil)
  then show ?thesis by (simp add: trim_attribute_def)
qed

lemma stuck_step:
  assumes u: "61 \<notin> set u" "0 \<notin> set u" "u = [] \<or> hd u \<noteq> W_CLOSE" "length u < 999" and w: "0 \<notin> set w"
  shows "kvpair_step sz (W_CLOSE # u @ 61 # W_OPEN # w) 59 ds = Inr (Some (W_CLOSE # u @ 61 # W_OPEN # w, ds))"
proof -
  let ?a = "W_CLOSE # u"
  let ?s = "?a @ 61 # W_OPEN # w"
  have wc: "W_OPEN = 123" "W_CLOSE = 125" by (simp_all add: W_OPEN_def W_CLOSE_def)
  have c: "cstr ?s = ?s" using u w by (simp add: cstr_id wc)
  obtain a where a: "trim_attribute ?a = W_CLOSE # a" using trim_attribute_Cons [of W_CLOSE u] by (auto simp: wc)
  have "rd (u @ 61 # W_OPEN # w) 0 \<noteq> W_CLOSE" using u(3) by (cases u) (auto simp: wc)
  then have "find_bracket_end ?s = Some 0" using find_bracket_end_first [of "[]"] by simp
  moreover have "rd ?s (length ?a + 1) = W_OPEN" using rd_append [of "?a @ [61]" "W_OPEN # w" 0] by simp
  ultimately have ve: "value_end ?s (length ?a + 1) 59 = 0"
    by (simp only: value_end_def c if_True option.case simp_thms)
  have "sqlwcharcasecmp (wide ''OPTION'') (W_CLOSE # a)" by (simp add: wide_def wide_upper_def wc)
  then have set: "set_pair sz (trim_attribute ?a) ?s (length ?a + 1) 0 ds = Inr (0, ds)"
    by (simp add: set_pair_def get_opt_bracket a)
  have sk: "skip_delims 59 (drop 0 ?s) = ?s" by (simp add: wc)
  have "kvpair_step sz ?s 59 ds = Inr (Some (?s, ds))"
    by (rule kvpair_step_result [OF _ _ _ _ _ _ _ _ ve _ set sk]) (use u w in \<open>simp_all add: wc\<close>)
  then show ?thesis by simp
qed

lemma stuck_loop:
  assumes "61 \<notin> set u" "0 \<notin> set u" "u = [] \<or> hd u \<noteq> W_CLOSE" "length u < 999" "0 \<notin> set w"
  shows "from_kvpair n sz (W_CLOSE # u @ 61 # W_OPEN # w) 59 ds = None"
proof (induction n)
  case (Suc n)
  then show ?case by (simp add: stuck_step [OF assms]) (simp add: W_CLOSE_def)
qed simp

text \<open>An unknown attribute with a bracketed value leaves the parser in front of the closing bracket.\<close>

lemma unknown_step:
  assumes a: "a \<noteq> []" "\<forall>c\<in>set a. keyword_unit c" "length a < 1000" "get_opt a = None" "sqlwcharcasecmp (wide ''OPTION'') a"
    and t: "0 \<notin> set t" "W_CLOSE \<notin> set t" and r: "0 \<notin> set r" "rd r 0 \<noteq> W_CLOSE"
  shows "kvpair_step sz (a @ 61 # W_OPEN # t @ W_CLOSE # r) 59 ds = Inr (Some (W_CLOSE # r, ds))"
proof -
  let ?s = "a @ 61 # W_OPEN # t @ W_CLOSE # r"
  let ?e = "length a + 2 + length t"
  have wc: "W_OPEN = 123" "W_CLOSE = 125" by (simp_all add: W_OPEN_def W_CLOSE_def)
  have az: "0 \<notin> set a" "61 \<notin> set a" "W_CLOSE \<notin> set a" "hd a \<noteq> 32" using a(1,2) by (cases a; auto simp: keyword_unit_def wc)+
  have c: "cstr ?s = ?s" using az t r by (simp add: cstr_id wc)
  have "find_bracket_end ?s = Some ?e"
    using find_bracket_end_first [of "a @ 61 # W_OPEN # t" r] az t r by (simp add: wc)
  moreover have "rd ?s (length a + 1) = W_OPEN" using rd_append [of "a @ [61]" "W_OPEN # t @ W_CLOSE # r" 0] by simp
  ultimately have ve: "value_end ?s (length a + 1) 59 = ?e" by (simp add: value_end_def c)
  have "rd ?s ?e = W_CLOSE" using rd_append [of "a @ 61 # W_OPEN # t" "W_CLOSE # r" 0] by simp
  then have te: "trim_end ?s (length a + 1) ?e = ?e" by (intro trim_end_stop) simp
  have set: "set_pair sz (trim_attribute a) ?s (length a + 1) ?e ds = Inr (?e, ds)"
    using a(4,5) by (simp add: set_pair_def trim_attribute_keyword [OF a(2)])
  have "drop ?e ?s = W_CLOSE # r" by (simp add: numeral_2_eq_2)
  then have sk: "skip_delims 59 (drop ?e ?s) = W_CLOSE # r" by (simp add: wc)
  show ?thesis
    by (rule kvpair_step_result [OF a(1) az(4) az(1,2) a(3) _ _ _ ve te set sk]) (use t r in \<open>simp_all add: wc\<close>)
qed

text \<open>
  C30: The parser never finishes a connection string in which an unknown attribute with a value
  in brackets is followed by another pair with a value in brackets, such as
  \<^verbatim>\<open>A.B={x};UID={y}\<close>: with no number of iterations does it return.
\<close>

theorem parser_hangs_after_unknown_attribute:
  assumes "a \<noteq> []" "\<forall>c\<in>set a. keyword_unit c" "length a < 1000" "get_opt a = None" "sqlwcharcasecmp (wide ''OPTION'') a"
    and "0 \<notin> set t" "W_CLOSE \<notin> set t"
    and "61 \<notin> set u" "0 \<notin> set u" "length u < 998" "0 \<notin> set w"
  shows "from_kvpair n sz (a @ 61 # W_OPEN # t @ W_CLOSE # 59 # u @ 61 # W_OPEN # w) 59 ds = None"
proof (cases n)
  case (Suc m)
  have wc: "W_OPEN = 123" "W_CLOSE = 125" by (simp_all add: W_OPEN_def W_CLOSE_def)
  have st: "kvpair_step sz (a @ 61 # W_OPEN # t @ W_CLOSE # 59 # u @ 61 # W_OPEN # w) 59 ds =
      Inr (Some (W_CLOSE # (59 # u) @ 61 # W_OPEN # w, ds))"
    using unknown_step [OF assms(1-7), of "59 # u @ 61 # W_OPEN # w" sz ds] assms(8-) by (simp add: wc)
  have lp: "from_kvpair m sz (W_CLOSE # (59 # u) @ 61 # W_OPEN # w) 59 ds = None"
    by (rule stuck_loop) (use assms(8-) in \<open>simp_all add: wc\<close>)
  have "0 \<notin> set a" using assms(2) by (auto simp: keyword_unit_def)
  then have "rd (a @ 61 # W_OPEN # t @ W_CLOSE # 59 # u @ 61 # W_OPEN # w) 0 \<noteq> 0" using assms(1) by (cases a) auto
  then show ?thesis unfolding Suc using st lp by simp
qed simp

theorem parser_hangs_after_unknown_attribute_witness:
  "\<forall>n. from_kvpair n 2 (wide ''A.B={x};UID={y}'') 59 reset = None"
proof -
  have u: "keyword_unit (of_char CHR ''A'')" "keyword_unit (of_char CHR ''.'')" "keyword_unit (of_char CHR ''B'')"
    by (simp_all add: keyword_unit_def)
  have "get_opt (wide ''A.B'') = None"
  proof (rule ccontr)
    assume "get_opt (wide ''A.B'') \<noteq> None"
    then obtain X where "(wide ''A.B'', X) \<in> set opt_keys"
      by (auto simp: get_opt_def wide_def wide_toupper_def dest: map_of_SomeD)
    then have "(''A.B'', X) \<in> set opt_names" by (auto simp: opt_keys_def)
    then have "keyword_char CHR ''.''" using keywords_plain by (auto simp: list_all_iff)
    then show False by (simp add: keyword_char_def)
  qed
  then show ?thesis
    using parser_hangs_after_unknown_attribute [of "wide ''A.B''" "wide ''x''" "wide ''UID''" "wide ''y}''" _ 2 reset] u
    by (simp add: wide_def wide_upper_def W_OPEN_def W_CLOSE_def)
qed

section \<open>Copies\<close>

lemma set_remove_brackets_copy:
  assumes "0 \<notin> set t" "collapse_brackets t = t" "length t < 1024"
  shows "set_remove_brackets sz (Some t) (int (length t)) = Inr (stored_str sz t)"
proof (cases "t = []")
  case True
  then show ?thesis
    by (simp add: set_remove_brackets_def SQL_NTS_def Let_def stored_str_def sqlwchar_as_utf8_ext_def
        cstr_def wide_to_utf8.simps)
next
  case False
  then show ?thesis
    using assms by (simp add: set_remove_brackets_def SQL_NTS_def Let_def stored_str_def
        sqlwchar_as_utf8_ext_def cstr_id)
qed

text \<open>Strings that are null or survive the removal of doubled brackets within the buffer.\<close>

definition copyable :: "nat \<Rightarrow> opt \<Rightarrow> bool" where
  "copyable sz v \<longleftrightarrow> m_is_set v \<and>
     (case m_val v of
        OStr w s n \<Rightarrow> if n then w = [] \<and> s = []
                     else 0 \<notin> set w \<and> collapse_brackets w = w \<and> length w < 1024 \<and> s = fst (wide_to_utf8 sz w (length w))
      | _ \<Rightarrow> False)"

lemma copy_str_opts_correct:
  assumes "distinct Xs" "\<forall>X\<in>set Xs. copyable sz (src X)"
  shows "\<exists>ds'. copy_str_opts sz Xs src ds = Inr ds' \<and>
    (\<forall>X. ds' X = (if X \<in> set Xs then (src X)\<lparr>m_is_default := False\<rparr> else ds X))"
  using assms
proof (induction Xs arbitrary: ds)
  case (Cons X Xs)
  then have c: "copyable sz (src X)" by simp
  then obtain w s n where v: "m_val (src X) = OStr w s n" "m_is_set (src X)"
    by (auto simp: copyable_def split: opt_val.splits)
  have st: "(if n then set_null else stored_str sz w) = (src X)\<lparr>m_is_default := False\<rparr>"
    using c v by (cases "src X") (auto simp: copyable_def set_null_def stored_str_def)
  have "set_remove_brackets sz (if n then None else Some w) (int (length (case (if n then None else Some w) of Some s \<Rightarrow> cstr s | None \<Rightarrow> []))) =
      Inr (if n then set_null else stored_str sz w)"
    using c v by (cases n) (simp_all add: copyable_def cstr_id set_remove_brackets_copy, simp add: set_remove_brackets_def)
  then have "copy_str_opts sz (X # Xs) src ds = copy_str_opts sz Xs src (ds(X := (src X)\<lparr>m_is_default := False\<rparr>))"
    using v st by (simp add: opt_wstr_def)
  moreover obtain ds' where "copy_str_opts sz Xs src (ds(X := (src X)\<lparr>m_is_default := False\<rparr>)) = Inr ds'"
    "\<forall>Y. ds' Y = (if Y \<in> set Xs then (src Y)\<lparr>m_is_default := False\<rparr> else (ds(X := (src X)\<lparr>m_is_default := False\<rparr>)) Y)"
    using Cons by (metis distinct.simps(2) list.set_intros(2))
  ultimately show ?case using Cons.prems(1) by auto
qed simp

lemma full_options_distinct: "distinct FULL_OPTIONS_LIST"
proof -
  have "map fst opt_names = map option_keyword FULL_OPTIONS_LIST @ map snd ALIAS_OPTIONS_LIST"
    by (simp add: opt_names_def comp_def case_prod_unfold)
  then show ?thesis using keywords_distinct by (simp add: distinct_map)
qed

lemma fold_copy: "fold (\<lambda>X ds. ds(X := src X)) Xs ds X = (if X \<in> set Xs then src X else ds X)"
  by (induction Xs arbitrary: ds) auto

lemma str_options_disjoint:
  "X \<in> set STR_OPTIONS_LIST \<Longrightarrow> X \<notin> set (INT_OPTIONS_LIST @ BOOL_OPTIONS_LIST)"
  using full_options_distinct by (auto simp: FULL_OPTIONS_LIST_def)

lemma reset_str: "X \<in> set STR_OPTIONS_LIST \<Longrightarrow> reset X = set_default_null"
proof -
  assume X: "X \<in> set STR_OPTIONS_LIST"
  then have "X \<notin> set (INT_OPTIONS_LIST @ BOOL_OPTIONS_LIST)" by (rule str_options_disjoint)
  then have "reset X = (case option_type X of T_STRING \<Rightarrow> set_default_null
      | T_INT \<Rightarrow> set_default_val (OInt 0) | T_BOOL \<Rightarrow> set_default_val (OBool False))"
    by (simp add: reset_def INT_OPTIONS_LIST_def BOOL_OPTIONS_LIST_def)
  then show ?thesis using X by (simp add: option_type_def)
qed

lemma reset_copyable: "X \<in> set STR_OPTIONS_LIST \<Longrightarrow> copyable sz (reset X)"
  by (simp add: reset_str copyable_def set_default_null_def set_null_def)

lemma data_source_copied:
  assumes "\<forall>X\<in>set STR_OPTIONS_LIST. copyable sz (src X)"
  shows "\<exists>ds'. ds_copy sz (Some src) ds = Inr ds'"
proof -
  have "distinct STR_OPTIONS_LIST" using full_options_distinct by (simp add: FULL_OPTIONS_LIST_def)
  then show ?thesis using copy_str_opts_correct [OF _ assms, of ds] by (auto simp: ds_copy_def)
qed

lemma reset_copy: "\<exists>ds'. ds_copy sz (Some reset) ds = Inr ds'"
  by (rule data_source_copied) (simp add: reset_copyable)

text \<open>
  \<^verbatim>\<open>DataSource::copy\<close> gives every option the value it has in the source, provided no string
  has doubled closing brackets, which the copy would halve, or exceeds the buffer of 1023 units;
  numbers and flags keep their state, strings become explicitly set.
\<close>

theorem copy_keeps_options:
  assumes "\<forall>X\<in>set STR_OPTIONS_LIST. copyable sz (src X)"
  shows "\<exists>ds'. ds_copy sz (Some src) ds = Inr ds' \<and>
    (\<forall>X\<in>set STR_OPTIONS_LIST. ds' X = (src X)\<lparr>m_is_default := False\<rparr>) \<and>
    (\<forall>X\<in>set INT_OPTIONS_LIST \<union> set BOOL_OPTIONS_LIST. ds' X = src X)"
proof -
  have "distinct STR_OPTIONS_LIST" using full_options_distinct by (simp add: FULL_OPTIONS_LIST_def)
  then obtain ds1 where "copy_str_opts sz STR_OPTIONS_LIST src ds = Inr ds1"
    "\<forall>X. ds1 X = (if X \<in> set STR_OPTIONS_LIST then (src X)\<lparr>m_is_default := False\<rparr> else ds X)"
    using copy_str_opts_correct [OF _ assms] by blast
  then show ?thesis
    using str_options_disjoint by (auto simp: ds_copy_def fold_copy simp del: fold_append)
qed

theorem copy_keeps_options_witness:
  "\<exists>ds'. ds_copy 2 (Some (reset(''PWD'' := stored_str 2 (wide ''a}b''), ''PORT'' := set_int 3307))) reset = Inr ds' \<and>
     ds' ''PWD'' = stored_str 2 (wide ''a}b'') \<and> ds' ''PORT'' = set_int 3307"
proof -
  define src where "src = reset(''PWD'' := stored_str 2 (wide ''a}b''), ''PORT'' := set_int 3307)"
  have m: "''PWD'' \<in> set STR_OPTIONS_LIST" "''PORT'' \<in> set INT_OPTIONS_LIST"
    by (simp_all add: STR_OPTIONS_LIST_def INT_OPTIONS_LIST_def)
  have v: "src ''PWD'' = stored_str 2 (wide ''a}b'')" "src ''PORT'' = set_int 3307" by (simp_all add: src_def)
  have "copyable 2 (stored_str 2 (wide ''a}b''))"
    by (simp add: copyable_def stored_str_def wide_def W_CLOSE_def)
  moreover have "copyable 2 set_default_null" by (simp add: copyable_def set_default_null_def set_null_def)
  moreover have "''PORT'' \<notin> set STR_OPTIONS_LIST" by (simp add: STR_OPTIONS_LIST_def)
  ultimately have "\<forall>X\<in>set STR_OPTIONS_LIST. copyable 2 (src X)"
    by (auto simp: src_def reset_str)
  then obtain ds' where "ds_copy 2 (Some src) reset = Inr ds'"
    "\<forall>X\<in>set STR_OPTIONS_LIST. ds' X = (src X)\<lparr>m_is_default := False\<rparr>"
    "\<forall>X\<in>set INT_OPTIONS_LIST \<union> set BOOL_OPTIONS_LIST. ds' X = src X"
    using copy_keeps_options [of 2 src reset] by blast
  with m v show ?thesis unfolding src_def by (auto simp: stored_str_def)
qed

text \<open>A value with doubled closing brackets is not the same in the copy.\<close>

lemma copy_halves_brackets:
  "set_remove_brackets 2 (Some (wide ''a}}b'')) 4 =
     Inr \<lparr>m_is_set = True, m_is_default = False, m_val = OStr (wide ''a}b'') [97, 125, 98, 0] False\<rparr>"
  by (simp add: set_remove_brackets_def SQL_NTS_def Let_def wide_def W_CLOSE_def cstr_def
      sqlwchar_as_utf8_ext_def wide_to_utf8.simps utf16toutf32_def utf32toutf8_arith)
end
