(* ===== verification/Monitor_Context.thy ===== *)
theory Monitor_Context
  imports Driver_Prelude "HOL-Library.List_Lexorder" "HOL-Library.Char_ord"
begin

text \<open>
  The monitoring context of one connection (\<^verbatim>\<open>driver/monitor_connection_context.h\<close>,
  \<^verbatim>\<open>driver/monitor_connection_context.cc\<close>): when the server of the connection counts as dead,
  and the abort of the connection when it does.

  Time points and differences of \<^verbatim>\<open>steady_clock\<close> are integers in nanoseconds, the configured
  durations integers in milliseconds; the conversions the code leaves to \<^verbatim>\<open>std::chrono\<close> are
  written out. A \<^verbatim>\<open>DBC\<close> is a reference, and the effect of aborting a connection
  (\<^verbatim>\<open>connection_proxy->close_socket()\<close>) is an entry in the log of closed sockets.
\<close>

section \<open>Durations\<close>

text \<open>\<open>ns_of\<close> widens milliseconds, \<open>to_ms\<close> is \<^verbatim>\<open>duration_cast\<close>: it truncates towards zero.\<close>

definition ns_of :: "int \<Rightarrow> int" where
  "ns_of ms = 1000000 * ms"

definition to_ms :: "int \<Rightarrow> int" where
  "to_ms ns = (if ns < 0 then - ((- ns) div 1000000) else ns div 1000000)"

lemma to_ms_mono: "a \<le> b \<Longrightarrow> to_ms a \<le> to_ms b"
proof -
  assume ab: "a \<le> b"
  have neg: "0 \<le> (- x) div 1000000" if "x < 0" for x :: int
    using that by (simp add: pos_imp_zdiv_nonneg_iff)
  show ?thesis
  proof (cases "b < 0")
    case True
    with ab have "(- b) div 1000000 \<le> (- a) div 1000000" by (intro zdiv_mono1) auto
    with True ab show ?thesis by (simp add: to_ms_def)
  next
    case False
    then have "0 \<le> b div 1000000" by (simp add: pos_imp_zdiv_nonneg_iff)
    with False ab neg [of a] show ?thesis
      by (cases "a < 0") (auto simp: to_ms_def intro: zdiv_mono1)
  qed
qed

lemma to_ms_ge_iff: "0 \<le> k \<Longrightarrow> 0 < k \<or> 0 \<le> d \<Longrightarrow> k \<le> to_ms d \<longleftrightarrow> ns_of k \<le> d"
  by (auto simp: to_ms_def ns_of_def)

section \<open>The context\<close>

record mctx =
  connection_to_abort :: "ref option"
  node_keys :: "string set"
  failure_detection_time :: int
  failure_detection_interval :: int
  failure_detection_count :: int
  start_monitor_time :: int
  invalid_node_start_time :: int
  failure_count :: int
  node_unhealthy :: bool
  active_context :: bool

definition new_context :: "ref option \<Rightarrow> string set \<Rightarrow> int \<Rightarrow> int \<Rightarrow> int \<Rightarrow> mctx" where
  "new_context dbc keys fd_time fd_interval fd_count =
     \<lparr>connection_to_abort = dbc, node_keys = keys, failure_detection_time = fd_time,
      failure_detection_interval = fd_interval, failure_detection_count = fd_count,
      start_monitor_time = 0, invalid_node_start_time = 0, failure_count = 0,
      node_unhealthy = False, active_context = True\<rparr>"

definition increment_failure_count :: "mctx \<Rightarrow> mctx" where
  "increment_failure_count c = c\<lparr>failure_count := to_int32 (failure_count c + 1)\<rparr>"

definition reset_invalid_node_start_time :: "mctx \<Rightarrow> mctx" where
  "reset_invalid_node_start_time c = c\<lparr>invalid_node_start_time := 0\<rparr>"

definition is_invalid_node_start_time_defined :: "mctx \<Rightarrow> bool" where
  "is_invalid_node_start_time_defined c \<longleftrightarrow> invalid_node_start_time c > 0"

definition invalidate :: "mctx \<Rightarrow> mctx" where
  "invalidate c = c\<lparr>active_context := False\<rparr>"

definition abort_connection :: "mctx \<Rightarrow> ref list \<Rightarrow> ref list" where
  "abort_connection c sockets =
     (case connection_to_abort c of
        None \<Rightarrow> sockets
      | Some dbc \<Rightarrow> if active_context c then sockets @ [dbc] else sockets)"

definition mark_invalid :: "int \<Rightarrow> mctx \<Rightarrow> mctx" where
  "mark_invalid status_check_start_time c =
     (let c = increment_failure_count c
      in if is_invalid_node_start_time_defined c then c
         else c\<lparr>invalid_node_start_time := status_check_start_time\<rparr>)"

definition max_invalid_node_duration :: "mctx \<Rightarrow> int" where
  "max_invalid_node_duration c = failure_detection_interval c * max 0 (failure_detection_count c)"

definition set_connection_valid ::
  "bool \<Rightarrow> int \<Rightarrow> int \<Rightarrow> mctx \<times> ref list \<Rightarrow> mctx \<times> ref list" where
  "set_connection_valid connection_valid status_check_start_time current_time = (\<lambda>(c, sockets).
     if \<not> connection_valid then
       (let c = mark_invalid status_check_start_time c;
            invalid_node_duration_ms = to_ms (current_time - invalid_node_start_time c)
        in if invalid_node_duration_ms \<ge> max_invalid_node_duration c
           then (let c = c\<lparr>node_unhealthy := True\<rparr> in (c, abort_connection c sockets))
           else (c, sockets))
     else ((reset_invalid_node_start_time (c\<lparr>failure_count := 0\<rparr>))\<lparr>node_unhealthy := False\<rparr>, sockets))"

definition update_connection_status ::
  "int \<Rightarrow> int \<Rightarrow> bool \<Rightarrow> mctx \<times> ref list \<Rightarrow> mctx \<times> ref list" where
  "update_connection_status status_check_start_time current_time is_valid = (\<lambda>(c, sockets).
     if \<not> active_context c then (c, sockets)
     else if current_time - start_monitor_time c > ns_of (failure_detection_time c)
     then set_connection_valid is_valid status_check_start_time current_time (c, sockets)
     else (c, sockets))"

text \<open>The text of the node keys in the log, \<^verbatim>\<open>[k1, k2]\<close> in the order of the set.\<close>

definition build_node_keys_str :: "mctx \<Rightarrow> string" where
  "build_node_keys_str c =
     (case sorted_list_of_set (node_keys c) of
        [] \<Rightarrow> ''[]''
      | k # ks \<Rightarrow> foldl (\<lambda>s k'. s @ '', '' @ k') (''['' @ k) ks @ '']'')"


section \<open>Histories of checks\<close>

text \<open>
  A monitor reports one check after the other to the context: when it started, when it ended and
  whether the server answered.
\<close>

datatype check = Check (check_start: int) (check_end: int) (check_valid: bool)

definition run_checks :: "check list \<Rightarrow> mctx \<times> ref list \<Rightarrow> mctx \<times> ref list" where
  "run_checks = fold (\<lambda>k. update_connection_status (check_start k) (check_end k) (check_valid k))"

text \<open>
  The verdict the configuration asks for: a check counts when it ends after the detection time;
  the failing run is the longest suffix of counted checks without an answer; the node is dead
  when the run has lasted for \<open>count\<close> intervals, from the start of its first check.
\<close>

definition counted :: "mctx \<Rightarrow> check list \<Rightarrow> check list" where
  "counted c = filter (\<lambda>k. check_end k - start_monitor_time c > ns_of (failure_detection_time c))"

definition failing_run :: "check list \<Rightarrow> check list" where
  "failing_run ks = rev (takeWhile (\<lambda>k. \<not> check_valid k) (rev ks))"

definition is_dead :: "mctx \<Rightarrow> check list \<Rightarrow> bool" where
  "is_dead c ks \<longleftrightarrow> failing_run ks \<noteq> [] \<and>
     ns_of (max_invalid_node_duration c) \<le> check_end (last (failing_run ks)) - check_start (hd (failing_run ks))"

text \<open>How many of the checks, each judged with the ones before it, find the node dead.\<close>

definition dead_verdicts :: "mctx \<Rightarrow> check list \<Rightarrow> nat" where
  "dead_verdicts c ks = length (filter (\<lambda>i. is_dead c (take (Suc i) ks)) [0..<length ks])"

definition ordered_checks :: "check list \<Rightarrow> bool" where
  "ordered_checks ks \<longleftrightarrow>
     sorted (map check_end ks) \<and> (\<forall>k\<in>set ks. 0 < check_start k \<and> check_start k \<le> check_end k)"

lemma failing_run_Nil [simp]: "failing_run [] = []"
  by (simp add: failing_run_def)

lemma failing_run_snoc [simp]:
  "failing_run (ks @ [k]) = (if check_valid k then [] else failing_run ks @ [k])"
  by (simp add: failing_run_def)

lemma failing_run_subset: "set (failing_run ks) \<subseteq> set ks"
  by (auto simp: failing_run_def dest: set_takeWhileD)

lemma last_failing_run: "failing_run ks \<noteq> [] \<Longrightarrow> last (failing_run ks) = last ks"
  by (induction ks rule: rev_induct) auto

lemma dead_verdicts_Nil [simp]: "dead_verdicts c [] = 0"
  by (simp add: dead_verdicts_def)

lemma dead_verdicts_snoc [simp]:
  "dead_verdicts c (ks @ [k]) = dead_verdicts c ks + (if is_dead c (ks @ [k]) then 1 else 0)"
proof -
  have "filter (\<lambda>i. is_dead c (take (Suc i) (ks @ [k]))) [0..<length ks] =
        filter (\<lambda>i. is_dead c (take (Suc i) ks)) [0..<length ks]"
    by (rule filter_cong) auto
  then show ?thesis by (simp add: dead_verdicts_def)
qed

lemma ordered_checks_snocD:
  "ordered_checks (ks @ [k]) \<Longrightarrow>
     ordered_checks ks \<and> 0 < check_start k \<and> check_start k \<le> check_end k \<and>
     (\<forall>k'\<in>set ks. check_end k' \<le> check_end k)"
  by (auto simp: ordered_checks_def sorted_append)

lemma ordered_checks_filter: "ordered_checks ks \<Longrightarrow> ordered_checks (filter P ks)"
  by (auto simp: ordered_checks_def sorted_filter)

lemma failing_run_span:
  assumes "ordered_checks ks" "failing_run ks \<noteq> []"
  shows "0 < check_start (hd (failing_run ks))"
    and "check_start (hd (failing_run ks)) \<le> check_end (last (failing_run ks))"
proof -
  let ?r = "failing_run ks"
  have hd: "hd ?r \<in> set ks" using assms(2) failing_run_subset hd_in_set by blast
  then show "0 < check_start (hd ?r)" using assms(1) by (auto simp: ordered_checks_def)
  from assms(2) have "ks \<noteq> []" by auto
  then obtain h l where ks: "ks = h @ [l]" by (cases ks rule: rev_cases) auto
  have "check_end (hd ?r) \<le> check_end l"
    using hd assms(1) by (auto simp: ks ordered_checks_def sorted_append)
  moreover have "check_start (hd ?r) \<le> check_end (hd ?r)"
    using hd assms(1) by (auto simp: ordered_checks_def)
  ultimately show "check_start (hd ?r) \<le> check_end (last ?r)"
    using last_failing_run [OF assms(2)] by (simp add: ks)
qed

section \<open>The context follows the history\<close>

lemma to_int32_Suc: "to_int32 (to_int32 (int n) + 1) = to_int32 (int (Suc n))"
proof -
  have "(to_int32 (int n) + 1 + 2 ^ 31) mod 2 ^ 32 = ((int n + 2 ^ 31) mod 2 ^ 32 + 1) mod 2 ^ 32"
    by (simp add: to_int32_def add.commute)
  also have "\<dots> = (int n + 2 ^ 31 + 1) mod 2 ^ 32" by (rule mod_add_left_eq)
  finally show ?thesis by (simp add: to_int32_def algebra_simps)
qed

text \<open>What a context knows after the counted checks \<open>ks\<close>; everything else is as in \<open>c0\<close>.\<close>

definition ctx_after :: "mctx \<Rightarrow> check list \<Rightarrow> mctx" where
  "ctx_after c0 ks = c0\<lparr>failure_count := to_int32 (int (length (failing_run ks))),
     invalid_node_start_time := (if failing_run ks = [] then 0 else check_start (hd (failing_run ks))),
     node_unhealthy := is_dead c0 ks\<rparr>"

lemma ctx_after_fields [simp]:
  "connection_to_abort (ctx_after c ks) = connection_to_abort c"
  "active_context (ctx_after c ks) = active_context c"
  "start_monitor_time (ctx_after c ks) = start_monitor_time c"
  "failure_detection_time (ctx_after c ks) = failure_detection_time c"
  "max_invalid_node_duration (ctx_after c ks) = max_invalid_node_duration c"
  by (simp_all add: ctx_after_def max_invalid_node_duration_def)

lemma mark_invalid_after:
  assumes "ordered_checks (ks @ [k])" "\<not> check_valid k"
  shows "mark_invalid (check_start k) (ctx_after c ks) =
    (ctx_after c (ks @ [k]))\<lparr>node_unhealthy := is_dead c ks\<rparr>"
proof -
  note o = ordered_checks_snocD [OF assms(1)]
  have "0 < check_start (hd (failing_run ks))" if "failing_run ks \<noteq> []"
    using o that by (auto intro: failing_run_span)
  with assms(2) o show ?thesis
    by (auto simp: mark_invalid_def Let_def increment_failure_count_def ctx_after_def to_int32_Suc
        is_invalid_node_start_time_defined_def hd_append)
qed

lemma is_dead_grows:
  assumes "ordered_checks (ks @ [k])" "\<not> check_valid k" "is_dead c ks"
  shows "is_dead c (ks @ [k])"
proof -
  have "check_end (last (failing_run ks)) \<le> check_end k"
    using ordered_checks_snocD [OF assms(1)] assms(3)
    by (metis is_dead_def failing_run_subset last_in_set subsetD)
  with assms(2,3) show ?thesis by (auto simp: is_dead_def hd_append)
qed

lemma threshold_iff:
  assumes "ordered_checks ks" "failing_run ks \<noteq> []" "0 \<le> failure_detection_interval c"
  shows "to_ms (check_end (last (failing_run ks)) - check_start (hd (failing_run ks))) \<ge> max_invalid_node_duration c
     \<longleftrightarrow> is_dead c ks"
proof -
  have "0 \<le> max_invalid_node_duration c" using assms(3) by (simp add: max_invalid_node_duration_def)
  with failing_run_span [OF assms(1,2)] assms(2) show ?thesis by (simp add: to_ms_ge_iff is_dead_def)
qed

lemma set_connection_valid_after:
  assumes o: "ordered_checks (ks @ [k])" and c: "0 \<le> failure_detection_interval c" "active_context c"
  shows "set_connection_valid (check_valid k) (check_start k) (check_end k) (ctx_after c ks, so) =
    (ctx_after c (ks @ [k]),
     if is_dead c (ks @ [k]) then so @ (case connection_to_abort c of None \<Rightarrow> [] | Some d \<Rightarrow> [d]) else so)"
proof (cases "check_valid k")
  case True
  then show ?thesis
    by (simp add: set_connection_valid_def ctx_after_def reset_invalid_node_start_time_def is_dead_def to_int32_def)
next
  case False
  let ?c = "(ctx_after c (ks @ [k]))\<lparr>node_unhealthy := is_dead c ks\<rparr>"
  have run: "failing_run (ks @ [k]) \<noteq> []" using False by simp
  have start: "invalid_node_start_time ?c = check_start (hd (failing_run (ks @ [k])))"
    using run by (simp add: ctx_after_def)
  have "last (failing_run (ks @ [k])) = k" using False by simp
  then have th: "to_ms (check_end k - invalid_node_start_time ?c) \<ge> max_invalid_node_duration ?c \<longleftrightarrow> is_dead c (ks @ [k])"
    using threshold_iff [OF o run c(1)] start by (simp add: max_invalid_node_duration_def ctx_after_def)
  have "set_connection_valid (check_valid k) (check_start k) (check_end k) (ctx_after c ks, so) =
    (if is_dead c (ks @ [k]) then (?c\<lparr>node_unhealthy := True\<rparr>, abort_connection (?c\<lparr>node_unhealthy := True\<rparr>) so)
     else (?c, so))"
    using False th by (simp only: set_connection_valid_def mark_invalid_after [OF o False] Let_def prod.case if_True simp_thms)
  moreover have "?c = ctx_after c (ks @ [k])" if "\<not> is_dead c (ks @ [k])"
    using that is_dead_grows [OF o False, of c] by (cases "is_dead c ks") (simp_all add: ctx_after_def)
  moreover have "?c\<lparr>node_unhealthy := True\<rparr> = ctx_after c (ks @ [k])" if "is_dead c (ks @ [k])"
    using that by (simp add: ctx_after_def)
  ultimately show ?thesis
    using c(2) by (simp add: abort_connection_def split: option.split)
qed

lemma update_connection_status_after:
  assumes "ordered_checks (ks @ [k])" "0 \<le> failure_detection_interval c" "active_context c"
    and that: "ds = (case connection_to_abort c of None \<Rightarrow> [] | Some d \<Rightarrow> [d])"
  shows "update_connection_status (check_start k) (check_end k) (check_valid k)
      (ctx_after c (counted c ks), so @ concat (replicate (dead_verdicts c (counted c ks)) ds)) =
    (ctx_after c (counted c (ks @ [k])),
     so @ concat (replicate (dead_verdicts c (counted c (ks @ [k]))) ds))"
proof (cases "check_end k - start_monitor_time c > ns_of (failure_detection_time c)")
  case True
  have o: "ordered_checks (counted c ks @ [k])"
    using ordered_checks_filter [OF assms(1), of "\<lambda>k. check_end k - start_monitor_time c > ns_of (failure_detection_time c)"]
      True by (simp add: counted_def)
  have rep: "concat (replicate n ds) @ ds = concat (replicate (Suc n) ds)" for n
    by (induction n) auto
  show ?thesis
    using set_connection_valid_after [OF o assms(2,3)] True assms(3)
    by (simp add: update_connection_status_def that [symmetric] counted_def rep del: replicate.simps)
next
  case False
  then show ?thesis using assms(3) by (simp add: update_connection_status_def counted_def)
qed

lemma run_checks_after:
  assumes "ordered_checks ks" "0 \<le> failure_detection_interval c" "active_context c"
    "failure_count c = 0" "invalid_node_start_time c = 0" "\<not> node_unhealthy c"
  shows "run_checks ks (c, so) =
    (ctx_after c (counted c ks),
     so @ concat (replicate (dead_verdicts c (counted c ks)) (case connection_to_abort c of None \<Rightarrow> [] | Some d \<Rightarrow> [d])))"
  using assms(1)
proof (induction ks rule: rev_induct)
  case Nil
  show ?case using assms(4-6)
    by (simp add: run_checks_def counted_def ctx_after_def is_dead_def to_int32_def)
next
  case (snoc k ks)
  have "run_checks (ks @ [k]) (c, so) =
    update_connection_status (check_start k) (check_end k) (check_valid k) (run_checks ks (c, so))"
    by (simp add: run_checks_def)
  with snoc ordered_checks_snocD [OF snoc.prems]
    update_connection_status_after [OF snoc.prems assms(2,3) refl]
  show ?case by simp
qed

lemma concat_replicate_singleton: "concat (replicate n [x]) = replicate n x"
  by (induction n) auto

section \<open>Properties\<close>



end
