(* ===== verification/Monitor.thy ===== *)
theory Monitor
  imports Monitor_Context Host_Info Failover_Sync Data_Source
begin

text \<open>
  A monitor (\<^verbatim>\<open>driver/monitor.h\<close>, \<^verbatim>\<open>driver/monitor.cc\<close>): it probes one server on behalf of
  all the contexts registered with it and reports each probe to them.

  Contexts and monitors live in the stores of a \<open>mworld\<close>, with the log of closed sockets, the
  steady clock in nanoseconds, and the connections the monitors own: connection number \<open>i\<close> exists
  once \<open>i < opened\<close> and is gone once it is in \<open>freed\<close>. What the network answers to a probe, the
  state of the connection, the ping and the attempt to connect, is the argument \<open>env\<close>.
\<close>

section \<open>State\<close>

record monitor =
  stopped :: bool
  mon_host :: host_info
  connection_check_interval :: int
  failure_detection_timeout :: int
  disposal_time :: int
  contexts :: "ref list"
  last_context_timestamp :: int
  connection_proxy :: "ref option"
  mon_ds :: data_source

record mworld =
  ctxs :: "mctx list"
  mons :: "monitor list"
  sockets :: "ref list"
  mclock :: clock
  mtick :: nat
  opened :: nat
  freed :: "ref list"

record mon_env =
  env_connected :: bool
  env_ping :: int
  env_connect :: outcome

definition MILLISECONDS_MAX :: int where
  "MILLISECONDS_MAX = 2 ^ 63 - 1"

definition failure_detection_timeout_default :: int where
  "failure_detection_timeout_default = 5"

definition get_current_time :: "mworld \<Rightarrow> int \<times> mworld" where
  "get_current_time w = (mclock w (mtick w), w\<lparr>mtick := mtick w + 1\<rparr>)"

definition upd_ctx :: "ref \<Rightarrow> (mctx \<Rightarrow> mctx) \<Rightarrow> mworld \<Rightarrow> mworld" where
  "upd_ctx c f w = w\<lparr>ctxs := modify c f (ctxs w)\<rparr>"

definition upd_mon :: "ref \<Rightarrow> (monitor \<Rightarrow> monitor) \<Rightarrow> mworld \<Rightarrow> mworld" where
  "upd_mon m f w = w\<lparr>mons := modify m f (mons w)\<rparr>"

section \<open>Operations\<close>

text \<open>The constructor; the copy of the data source may fail, and so fails the construction.\<close>

definition new_monitor :: "nat \<Rightarrow> host_info \<Rightarrow> int \<Rightarrow> int \<Rightarrow> data_source \<Rightarrow> monitor res" where
  "new_monitor sz host_info timeout disposal ds =
     map_sum id (\<lambda>ds'.
        \<lparr>stopped = True, mon_host = host_info, connection_check_interval = MILLISECONDS_MAX,
         failure_detection_timeout = timeout, disposal_time = disposal, contexts = [],
         last_context_timestamp = 0, connection_proxy = None, mon_ds = ds'\<rparr>)
       (ds_copy sz (Some ds) reset)"

definition destroy_monitor :: "ref \<Rightarrow> mworld \<Rightarrow> mworld" where
  "destroy_monitor m w =
     (case connection_proxy (mons w ! m) of
        None \<Rightarrow> w
      | Some p \<Rightarrow> upd_mon m (connection_proxy_update (\<lambda>_. None)) (w\<lparr>freed := freed w @ [p]\<rparr>))"

definition monitor_start_monitoring :: "ref \<Rightarrow> ref \<Rightarrow> mworld \<Rightarrow> mworld" where
  "monitor_start_monitoring m c w =
     (let detection_interval = failure_detection_interval (ctxs w ! c);
          w = (if detection_interval < connection_check_interval (mons w ! m)
               then upd_mon m (connection_check_interval_update (\<lambda>_. detection_interval)) w else w);
          (current_time, w) = get_current_time w;
          w = upd_ctx c (start_monitor_time_update (\<lambda>_. current_time)) w;
          w = upd_mon m (last_context_timestamp_update (\<lambda>_. current_time)) w
      in upd_mon m (contexts_update (\<lambda>cs. cs @ [c])) w)"

definition find_shortest_interval :: "ref \<Rightarrow> mworld \<Rightarrow> int" where
  "find_shortest_interval m w =
     foldl (\<lambda>mn c. if failure_detection_interval (ctxs w ! c) < mn then failure_detection_interval (ctxs w ! c) else mn)
       MILLISECONDS_MAX (contexts (mons w ! m))"

definition monitor_stop_monitoring :: "ref \<Rightarrow> ref option \<Rightarrow> mworld \<Rightarrow> mworld" where
  "monitor_stop_monitoring m context w =
     (case context of
        None \<Rightarrow> w
      | Some c \<Rightarrow>
          (let w = upd_ctx c invalidate w;
               w = upd_mon m (contexts_update (removeAll c)) w
           in upd_mon m (connection_check_interval_update (\<lambda>_. find_shortest_interval m w)) w))"

definition is_stopped :: "ref \<Rightarrow> mworld \<Rightarrow> bool" where
  "is_stopped m w = stopped (mons w ! m)"

definition monitor_stop :: "ref \<Rightarrow> mworld \<Rightarrow> mworld" where
  "monitor_stop m w = upd_mon m (stopped_update (\<lambda>_. True)) w"

definition clear_contexts :: "ref \<Rightarrow> mworld \<Rightarrow> mworld" where
  "clear_contexts m w =
     upd_mon m (connection_check_interval_update (\<lambda>_. MILLISECONDS_MAX))
       (upd_mon m (contexts_update (\<lambda>_. [])) w)"

definition get_connection_check_interval :: "ref \<Rightarrow> mworld \<Rightarrow> int" where
  "get_connection_check_interval m w =
     (if contexts (mons w ! m) = [] then 0 else connection_check_interval (mons w ! m))"

subsection \<open>Probing\<close>

definition monitor_timeouts :: "monitor \<Rightarrow> data_source \<Rightarrow> data_source" where
  "monitor_timeouts mo ds =
     (let timeout_sec = (if failure_detection_timeout mo = 0 then failure_detection_timeout_default
                         else failure_detection_timeout mo);
          ds = (if ds_bool ds ''ENABLE_CLUSTER_FAILOVER''
                then ds(''CONNECT_TIMEOUT'' := set_int timeout_sec, ''NETWORK_TIMEOUT'' := set_int timeout_sec)
                else ds(''READTIMEOUT'' := set_int timeout_sec, ''WRITETIMEOUT'' := set_int timeout_sec))
      in ds(''ENABLE_FAILURE_DETECTION'' := set_bool False))"

definition monitor_connect :: "mon_env \<Rightarrow> ref \<Rightarrow> mworld \<Rightarrow> bool \<times> mworld" where
  "monitor_connect env m w =
     (let w = (case connection_proxy (mons w ! m) of Some p \<Rightarrow> w\<lparr>freed := freed w @ [p]\<rparr> | None \<Rightarrow> w);
          w = upd_mon m (\<lambda>mo. mo\<lparr>mon_ds := monitor_timeouts mo (mon_ds mo)\<rparr>) w
      in case env_connect env of
           Conn_null \<Rightarrow> (False, upd_mon m (connection_proxy_update (\<lambda>_. None)) w)
         | r \<Rightarrow> (r = Conn_live, upd_mon m (connection_proxy_update (\<lambda>_. Some (opened w))) (w\<lparr>opened := opened w + 1\<rparr>)))"

text \<open>The result is whether the server answered, and how long the probe took in milliseconds.\<close>

definition check_connection_status :: "mon_env \<Rightarrow> ref \<Rightarrow> mworld \<Rightarrow> (bool \<times> int) \<times> mworld" where
  "check_connection_status env m w =
     (let (start, w) = get_current_time w;
          (valid, w) = (if connection_proxy (mons w ! m) = None \<or> \<not> env_connected env then monitor_connect env m w
                        else (env_ping env = 0, w));
          (end_time, w) = get_current_time w
      in ((valid, to_ms (end_time - start)), w))"

subsection \<open>The loop\<close>

text \<open>The report of one probe to one context, and to all of them in the order of the list.\<close>

definition update_context :: "int \<Rightarrow> bool \<times> int \<Rightarrow> ref \<Rightarrow> mworld \<Rightarrow> mworld" where
  "update_context status_check_start_time status c w =
     (let (ctx, so) = update_connection_status status_check_start_time
                        (status_check_start_time + ns_of (snd status)) (fst status) (ctxs w ! c, sockets w)
      in (upd_ctx c (\<lambda>_. ctx) w)\<lparr>sockets := so\<rparr>)"

definition run_update :: "int \<Rightarrow> bool \<times> int \<Rightarrow> ref \<Rightarrow> mworld \<Rightarrow> mworld" where
  "run_update status_check_start_time status m w =
     fold (update_context status_check_start_time status) (contexts (mons w ! m)) w"

text \<open>
  Where the thread of a monitor is in \<^verbatim>\<open>run\<close>: not started, at the head of the loop, about to probe, about to
  report, at the end of the body, behind the loop, behind \<^verbatim>\<open>notify_unused\<close>, and finished.
\<close>

datatype mon_pc = Begin | Top | Check_at int | Update_at int "bool \<times> int" | Pause_at "bool \<times> int" | Exit_loop | Final | Finished

definition run_top :: "ref \<Rightarrow> mworld \<Rightarrow> mon_pc \<times> mworld" where
  "run_top m w =
     (if stopped (mons w ! m) then (Exit_loop, w)
      else if contexts (mons w ! m) \<noteq> [] then
        (let (t, w) = get_current_time w
         in (Check_at t, upd_mon m (last_context_timestamp_update (\<lambda>_. t)) w))
      else
        (let (t, w) = get_current_time w
         in if to_ms (t - last_context_timestamp (mons w ! m)) \<ge> disposal_time (mons w ! m) then (Exit_loop, w)
            else (Top, w)))"

definition run_check :: "mon_env \<Rightarrow> int \<Rightarrow> ref \<Rightarrow> mworld \<Rightarrow> mon_pc \<times> mworld" where
  "run_check env t m w = (let (status, w) = check_connection_status env m w in (Update_at t status, w))"

text \<open>How long the thread sleeps between two probes.\<close>

definition sleep_time :: "bool \<times> int \<Rightarrow> ref \<Rightarrow> mworld \<Rightarrow> int" where
  "sleep_time status m w = max 0 (get_connection_check_interval m w - snd status)"


section \<open>Facts\<close>

lemma upd_simps [simp]:
  "mons (upd_ctx c f w) = mons w" "ctxs (upd_mon m g w) = ctxs w"
  "sockets (upd_ctx c f w) = sockets w" "sockets (upd_mon m g w) = sockets w"
  "length (ctxs (upd_ctx c f w)) = length (ctxs w)" "length (mons (upd_mon m g w)) = length (mons w)"
  "ctxs (snd (get_current_time w)) = ctxs w" "mons (snd (get_current_time w)) = mons w"
  "sockets (snd (get_current_time w)) = sockets w"
  by (simp_all add: upd_ctx_def upd_mon_def get_current_time_def)

lemma nth_upd_mon [simp]: "m < length (mons w) \<Longrightarrow> mons (upd_mon m g w) ! m = g (mons w ! m)"
  by (simp add: upd_mon_def store_simps)

lemma nth_upd_mon_other [simp]: "m' \<noteq> m \<Longrightarrow> mons (upd_mon m g w) ! m' = mons w ! m'"
  by (simp add: upd_mon_def store_simps)

lemma nth_upd_ctx: "c < length (ctxs w) \<Longrightarrow> ctxs (upd_ctx c f w) ! c' = (if c' = c then f (ctxs w ! c) else ctxs w ! c')"
  by (simp add: upd_ctx_def modify_nth)

lemma upd_ctx_field: "(\<And>x. g (f x) = g x) \<Longrightarrow> g (ctxs (upd_ctx c f w) ! c') = g (ctxs w ! c')"
  by (simp add: upd_ctx_def modify_field)

subsection \<open>Registration\<close>

datatype mon_op = Op_start ref | Op_stop "ref option" | Op_clear

fun mon_do :: "ref \<Rightarrow> mon_op \<Rightarrow> mworld \<Rightarrow> mworld" where
  "mon_do m (Op_start c) w = monitor_start_monitoring m c w"
| "mon_do m (Op_stop c) w = monitor_stop_monitoring m c w"
| "mon_do m Op_clear w = clear_contexts m w"

text \<open>The contexts that are registered after a sequence of operations.\<close>

fun registered_step :: "mon_op \<Rightarrow> ref list \<Rightarrow> ref list" where
  "registered_step (Op_start c) cs = cs @ [c]"
| "registered_step (Op_stop (Some c)) cs = removeAll c cs"
| "registered_step (Op_stop None) cs = cs"
| "registered_step Op_clear cs = []"

definition shortest :: "mworld \<Rightarrow> ref list \<Rightarrow> int" where
  "shortest w cs = Min (insert MILLISECONDS_MAX ((\<lambda>c. failure_detection_interval (ctxs w ! c)) ` set cs))"

lemma foldl_min:
  fixes g :: "'a \<Rightarrow> int"
  shows "foldl (\<lambda>mn c. if g c < mn then g c else mn) a cs = Min (insert a (g ` set cs))"
proof (induction cs arbitrary: a)
  case (Cons c cs)
  have "foldl (\<lambda>mn c. if g c < mn then g c else mn) a (c # cs) = Min (insert (min (g c) a) (g ` set cs))"
    using Cons by (simp add: min_def not_less)
  also have "\<dots> = Min (insert a (g ` set (c # cs)))"
    by (cases "cs = []") (simp_all add: min.assoc min.commute min.left_commute)
  finally show ?case .
qed simp

lemma find_shortest_interval_eq: "find_shortest_interval m w = shortest w (contexts (mons w ! m))"
  by (simp add: find_shortest_interval_def shortest_def foldl_min)

lemma shortest_cong:
  "(\<And>c. failure_detection_interval (ctxs w' ! c) = failure_detection_interval (ctxs w ! c)) \<Longrightarrow> shortest w' cs = shortest w cs"
  by (simp add: shortest_def)

lemma shortest_snoc: "shortest w (cs @ [c]) = min (failure_detection_interval (ctxs w ! c)) (shortest w cs)"
  by (cases "cs = []") (simp_all add: shortest_def min.commute min.left_commute)

definition mon_ok :: "ref \<Rightarrow> ref list \<Rightarrow> mworld \<Rightarrow> bool" where
  "mon_ok m cs w \<longleftrightarrow> m < length (mons w) \<and> contexts (mons w ! m) = cs \<and>
     connection_check_interval (mons w ! m) = shortest w cs"

lemma mon_do_intervals:
  "failure_detection_interval (ctxs (mon_do m op w) ! c) = failure_detection_interval (ctxs w ! c)"
  by (cases op) (auto simp: monitor_start_monitoring_def monitor_stop_monitoring_def clear_contexts_def
      Let_def case_prod_unfold upd_ctx_field invalidate_def split: option.split)

lemma mon_do_start_mon:
  assumes "m < length (mons w)"
  shows "contexts (mons (monitor_start_monitoring m c w) ! m) = contexts (mons w ! m) @ [c]"
    and "connection_check_interval (mons (monitor_start_monitoring m c w) ! m) =
      min (failure_detection_interval (ctxs w ! c)) (connection_check_interval (mons w ! m))"
    and "length (mons (monitor_start_monitoring m c w)) = length (mons w)"
  using assms by (auto simp: monitor_start_monitoring_def Let_def case_prod_unfold)

lemma mon_do_stop_mon:
  assumes "m < length (mons w)"
  shows "contexts (mons (monitor_stop_monitoring m (Some c) w) ! m) = removeAll c (contexts (mons w ! m))"
    and "connection_check_interval (mons (monitor_stop_monitoring m (Some c) w) ! m) = shortest w (removeAll c (contexts (mons w ! m)))"
    and "length (mons (monitor_stop_monitoring m (Some c) w)) = length (mons w)"
proof -
  have sh: "shortest (upd_mon m (contexts_update (removeAll c)) (upd_ctx c invalidate w)) cs = shortest w cs" for cs
    by (rule shortest_cong) (simp add: upd_ctx_field invalidate_def)
  show "contexts (mons (monitor_stop_monitoring m (Some c) w) ! m) = removeAll c (contexts (mons w ! m))"
    "connection_check_interval (mons (monitor_stop_monitoring m (Some c) w) ! m) = shortest w (removeAll c (contexts (mons w ! m)))"
    "length (mons (monitor_stop_monitoring m (Some c) w)) = length (mons w)"
    using assms sh by (simp_all add: monitor_stop_monitoring_def Let_def find_shortest_interval_eq)
qed

lemma mon_do_ok: "mon_ok m cs w \<Longrightarrow> mon_ok m (registered_step op cs) (mon_do m op w)"
proof (cases op)
  case (Op_start c)
  have "shortest (monitor_start_monitoring m c w) ds = shortest w ds" for ds
    using mon_do_intervals [of m "Op_start c" w] by (intro shortest_cong) simp
  then show "mon_ok m cs w \<Longrightarrow> ?thesis"
    using Op_start mon_do_intervals [of m "Op_start c" w c] by (simp add: mon_ok_def mon_do_start_mon shortest_snoc)
next
  case (Op_stop o')
  show "mon_ok m cs w \<Longrightarrow> ?thesis"
  proof (cases o')
    case (Some c)
    have "shortest (monitor_stop_monitoring m (Some c) w) ds = shortest w ds" for ds
      using mon_do_intervals [of m "Op_stop (Some c)" w] by (intro shortest_cong) simp
    then show "mon_ok m cs w \<Longrightarrow> ?thesis"
      using Op_stop Some by (simp add: mon_ok_def mon_do_stop_mon)
  qed (simp add: Op_stop monitor_stop_monitoring_def)
next
  case Op_clear
  then show "mon_ok m cs w \<Longrightarrow> ?thesis"
    by (simp add: mon_ok_def clear_contexts_def shortest_def)
qed

text \<open>
  C32: After any sequence of registrations, removals and clears, a monitor holds exactly the
  contexts registered since and not removed, in the order of their registration, and the interval
  between its probes is the shortest detection interval among them.
\<close>

theorem monitor_probes_at_shortest_interval:
  assumes "m < length (mons w)" "contexts (mons w ! m) = []" "connection_check_interval (mons w ! m) = MILLISECONDS_MAX"
  shows "contexts (mons (fold (mon_do m) ops w) ! m) = fold registered_step ops [] \<and>
    connection_check_interval (mons (fold (mon_do m) ops w) ! m) =
      Min (insert MILLISECONDS_MAX ((\<lambda>c. failure_detection_interval (ctxs w ! c)) ` set (fold registered_step ops [])))"
proof -
  have ok: "mon_ok m cs w' \<Longrightarrow> mon_ok m (fold registered_step ops cs) (fold (mon_do m) ops w')" for cs w'
    by (induction ops arbitrary: cs w') (auto intro: mon_do_ok)
  have "failure_detection_interval (ctxs (fold (mon_do m) ops w') ! c) = failure_detection_interval (ctxs w' ! c)" for w' c
    by (induction ops arbitrary: w') (simp_all add: mon_do_intervals)
  then have "shortest (fold (mon_do m) ops w) cs = shortest w cs" for cs by (rule shortest_cong)
  moreover have "mon_ok m [] w" using assms by (simp add: mon_ok_def shortest_def)
  ultimately show ?thesis using ok [of "[]" w] by (simp add: mon_ok_def shortest_def)
qed

theorem monitor_probes_at_shortest_interval_witness:
  "\<exists>w m w'. w' = fold (mon_do m) [Op_start 0, Op_start 1, Op_start 0, Op_stop (Some 1)] w \<and>
     contexts (mons w' ! m) = [0, 0] \<and> connection_check_interval (mons w' ! m) = 700"
proof -
  define mo where "mo = \<lparr>stopped = True, mon_host = HOST_INFO_0, connection_check_interval = MILLISECONDS_MAX,
    failure_detection_timeout = 5, disposal_time = 60000, contexts = [], last_context_timestamp = 0,
    connection_proxy = None, mon_ds = reset\<rparr>"
  define w where "w = \<lparr>ctxs = [new_context (Some 0) {''a:1''} 30000 700 3, new_context (Some 1) {''a:1''} 30000 500 3],
    mons = [mo], sockets = [], mclock = (\<lambda>_. 1), mtick = 0, opened = 0, freed = []\<rparr>"
  have "contexts (mons (fold (mon_do 0) [Op_start 0, Op_start 1, Op_start 0, Op_stop (Some 1)] w) ! 0) = [0, 0] \<and>
    connection_check_interval (mons (fold (mon_do 0) [Op_start 0, Op_start 1, Op_start 0, Op_stop (Some 1)] w) ! 0) = 700"
    using monitor_probes_at_shortest_interval [of 0 w "[Op_start 0, Op_start 1, Op_start 0, Op_stop (Some 1)]"]
    by (simp add: w_def mo_def new_context_def MILLISECONDS_MAX_def del: fold.simps mon_do.simps) simp
  then show ?thesis by blast
qed

subsection \<open>Reports\<close>

lemma set_connection_valid_fst: "fst (set_connection_valid v s t (c, so)) = fst (set_connection_valid v s t (c, so'))"
  by (simp add: set_connection_valid_def Let_def)

lemma update_connection_status_fst:
  "fst (update_connection_status s t v (c, so)) = fst (update_connection_status s t v (c, so'))"
  using set_connection_valid_fst by (simp add: update_connection_status_def)

lemma run_checks_fst: "fst (run_checks ks (c, so)) = fst (run_checks ks (c, so'))"
proof (induction ks arbitrary: c so so')
  case (Cons k ks)
  obtain c1 s1 where 1: "update_connection_status (check_start k) (check_end k) (check_valid k) (c, so) = (c1, s1)" by fastforce
  obtain c2 s2 where 2: "update_connection_status (check_start k) (check_end k) (check_valid k) (c, so') = (c2, s2)" by fastforce
  have "c1 = c2" using update_connection_status_fst [of _ _ _ c so so'] 1 2 by (metis fst_conv)
  with Cons 1 2 show ?case by (simp add: run_checks_def)
qed (simp add: run_checks_def)

definition probe_check :: "int \<times> bool \<times> int \<Rightarrow> check" where
  "probe_check p = (case p of (t, valid, elapsed) \<Rightarrow> Check t (t + ns_of elapsed) valid)"

lemma run_checks_Cons: "run_checks (k # ks) cs = run_checks ks (update_connection_status (check_start k) (check_end k) (check_valid k) cs)"
  by (simp add: run_checks_def)

lemma update_context_ctx:
  assumes "c < length (ctxs w)"
  shows "ctxs (update_context t st c w) ! c' =
    (if c' = c then fst (run_checks [probe_check (t, st)] (ctxs w ! c, so)) else ctxs w ! c')"
    and "mons (update_context t st c w) = mons w" "length (ctxs (update_context t st c w)) = length (ctxs w)"
proof -
  obtain v e where st: "st = (v, e)" by (cases st)
  have "fst (update_connection_status t (t + ns_of e) v (ctxs w ! c, sockets w)) =
    fst (update_connection_status t (t + ns_of e) v (ctxs w ! c, so))"
    by (rule update_connection_status_fst)
  then show "ctxs (update_context t st c w) ! c' =
    (if c' = c then fst (run_checks [probe_check (t, st)] (ctxs w ! c, so)) else ctxs w ! c')"
    "mons (update_context t st c w) = mons w" "length (ctxs (update_context t st c w)) = length (ctxs w)"
    using assms by (simp_all add: update_context_def st probe_check_def run_checks_def Let_def case_prod_unfold nth_upd_ctx)
qed

lemma fold_update_context:
  assumes "distinct cs" "\<forall>c\<in>set cs. c < length (ctxs w)"
  shows "(\<forall>c. ctxs (fold (update_context t st) cs w) ! c =
      (if c \<in> set cs then fst (run_checks [probe_check (t, st)] (ctxs w ! c, so)) else ctxs w ! c)) \<and>
    mons (fold (update_context t st) cs w) = mons w \<and>
    length (ctxs (fold (update_context t st) cs w)) = length (ctxs w)"
  using assms
proof (induction cs arbitrary: w)
  case (Cons a cs)
  note u = update_context_ctx [of a w t st]
  have a: "a < length (ctxs w)" using Cons.prems by simp
  have "distinct cs" "\<forall>c\<in>set cs. c < length (ctxs (update_context t st a w))"
    using Cons.prems u(3) [OF a] by simp_all
  from Cons.IH [OF this] show ?case
    using Cons.prems(1) u(1) [OF a, of _ so] u(2,3) [OF a] by auto
qed simp

lemma run_update_ctx:
  assumes "distinct (contexts (mons w ! m))" "\<forall>c\<in>set (contexts (mons w ! m)). c < length (ctxs w)"
  shows "ctxs (run_update t st m w) ! c =
      (if c \<in> set (contexts (mons w ! m)) then fst (run_checks [probe_check (t, st)] (ctxs w ! c, so)) else ctxs w ! c)"
    and "mons (run_update t st m w) = mons w" "length (ctxs (run_update t st m w)) = length (ctxs w)"
  using fold_update_context [OF assms, of t st so] by (auto simp: run_update_def)


end
