(* ===== verification/Monitor_Service.thy ===== *)
theory Monitor_Service
  imports Monitor Connection_String
begin

text \<open>
  The process-wide registry of monitors (\<^verbatim>\<open>driver/monitor_thread_container.cc\<close>) and the service
  the connections use (\<^verbatim>\<open>driver/monitor_service.cc\<close>), with the threads that run the monitors.

  A \<open>msys\<close> is the container with the stores of contexts and monitors. \<open>monitor_map\<close> maps node keys to
  pointers, which may be null; \<open>task_map\<close> is the set of its keys; a thread is a monitor with its
  place in \<^verbatim>\<open>run\<close>. The thread pool library contributes its size, and whether a thread of it is
  idle, which is the argument \<open>idle\<close>.
\<close>

section \<open>The container\<close>

record msys =
  mw :: mworld
  monitor_map :: "string \<rightharpoonup> ref option"
  task_map :: "ref set"
  available_monitors :: "ref list"
  pool_size :: int
  threads :: "(ref \<times> mon_pc) list"

definition on_mw :: "(mworld \<Rightarrow> mworld) \<Rightarrow> msys \<Rightarrow> msys" where
  "on_mw f s = s\<lparr>mw := f (mw s)\<rparr>"

text \<open>\<^verbatim>\<open>get_instance\<close>: the existing container, or an empty one over the same objects.\<close>

definition get_instance :: "mworld \<Rightarrow> msys option \<Rightarrow> msys" where
  "get_instance w singleton =
     (case singleton of
        Some s \<Rightarrow> s
      | None \<Rightarrow> \<lparr>mw = w, monitor_map = Map.empty, task_map = {}, available_monitors = [], pool_size = 0, threads = []\<rparr>)"

definition get_node :: "string set \<Rightarrow> msys \<Rightarrow> string" where
  "get_node keys s =
     (case find (\<lambda>node. monitor_map s node \<noteq> None) (sorted_list_of_set keys) of
        Some node \<Rightarrow> node
      | None \<Rightarrow> [])"

definition get_monitor :: "string \<Rightarrow> msys \<Rightarrow> ref option" where
  "get_monitor node s = (case monitor_map s node of Some mo \<Rightarrow> mo | None \<Rightarrow> None)"

definition populate_monitor_map :: "string set \<Rightarrow> ref option \<Rightarrow> msys \<Rightarrow> msys" where
  "populate_monitor_map keys mo s =
     s\<lparr>monitor_map := (\<lambda>node. if node \<in> keys then Some mo else monitor_map s node)\<rparr>"

definition remove_monitor_mapping :: "ref \<Rightarrow> msys \<Rightarrow> msys" where
  "remove_monitor_mapping m s =
     s\<lparr>monitor_map := (\<lambda>node. if monitor_map s node = Some (Some m) then None else monitor_map s node)\<rparr>"

definition get_available_monitor :: "msys \<Rightarrow> ref option \<times> msys" where
  "get_available_monitor s =
     (case available_monitors s of
        [] \<Rightarrow> (None, s)
      | m # ms \<Rightarrow>
          (let s = s\<lparr>available_monitors := ms\<rparr>
           in if \<not> is_stopped m (mw s) then (Some m, s)
              else if m \<in> task_map s then (None, (on_mw (monitor_stop m) s)\<lparr>task_map := task_map s - {m}\<rparr>)
              else (None, s)))"

definition create_monitor :: "nat \<Rightarrow> bool \<Rightarrow> host_info \<Rightarrow> int \<Rightarrow> int \<Rightarrow> data_source \<Rightarrow> msys \<Rightarrow> (ref option \<times> msys) res" where
  "create_monitor sz has_handler host timeout disposal ds s =
     (if \<not> has_handler then Inr (None, s)
      else map_sum id (\<lambda>mo. (Some (length (mons (mw s))), on_mw (\<lambda>w. w\<lparr>mons := mons w @ [mo]\<rparr>) s))
             (new_monitor sz host timeout disposal ds))"

definition get_or_create_monitor ::
  "nat \<Rightarrow> string set \<Rightarrow> bool \<Rightarrow> host_info \<Rightarrow> int \<Rightarrow> int \<Rightarrow> data_source \<Rightarrow> msys \<Rightarrow> (ref option \<times> msys) res" where
  "get_or_create_monitor sz keys has_handler host timeout disposal ds s =
     (let node = get_node keys s
      in if node \<noteq> [] then Inr (get_monitor node s, populate_monitor_map keys (get_monitor node s) s)
         else
           (case get_available_monitor s of
              (Some m, s) \<Rightarrow> Inr (Some m, populate_monitor_map keys (Some m) s)
            | (None, s) \<Rightarrow>
                map_sum id (\<lambda>(mo, s). (mo, populate_monitor_map keys mo s))
                  (create_monitor sz has_handler host timeout disposal ds s)))"

definition add_task :: "ref option \<Rightarrow> bool \<Rightarrow> msys \<Rightarrow> msys res" where
  "add_task monitor has_service s =
     (case monitor of
        None \<Rightarrow> Inl (Invalid_argument ''Invalid parameters passed into MONITOR_THREAD_CONTAINER::add_task()'')
      | Some m \<Rightarrow>
          if \<not> has_service then Inl (Invalid_argument ''Invalid parameters passed into MONITOR_THREAD_CONTAINER::add_task()'')
          else if m \<in> task_map s then Inr s
          else Inr (s\<lparr>pool_size := pool_size s + 1, task_map := insert m (task_map s), threads := threads s @ [(m, Begin)]\<rparr>))"

definition reset_resource :: "ref option \<Rightarrow> msys \<Rightarrow> msys" where
  "reset_resource monitor s =
     (case monitor of
        None \<Rightarrow> s
      | Some m \<Rightarrow> (let s = remove_monitor_mapping m s in s\<lparr>available_monitors := available_monitors s @ [m]\<rparr>))"

definition release_resource :: "bool \<Rightarrow> ref option \<Rightarrow> msys \<Rightarrow> msys" where
  "release_resource idle monitor s =
     (case monitor of
        None \<Rightarrow> s
      | Some m \<Rightarrow>
          (let s = remove_monitor_mapping m s;
               s = s\<lparr>task_map := task_map s - {m}\<rparr>
           in if idle then s\<lparr>pool_size := pool_size s - 1\<rparr> else s))"

text \<open>
  \<^verbatim>\<open>release_resources\<close> stops the monitors, waits for the threads and then empties the container;
  its two halves around the wait.
\<close>

definition release_stop :: "msys \<Rightarrow> msys" where
  "release_stop s = on_mw (fold monitor_stop (sorted_list_of_set (task_map s))) s"

definition release_clear :: "msys \<Rightarrow> msys" where
  "release_clear s = s\<lparr>monitor_map := Map.empty, task_map := {}, available_monitors := []\<rparr>"

section \<open>The service\<close>

definition service_start_monitoring ::
  "nat \<Rightarrow> ref option \<Rightarrow> bool \<Rightarrow> data_source option \<Rightarrow> string set \<Rightarrow> host_info \<Rightarrow> int \<Rightarrow> int \<Rightarrow> int \<Rightarrow> int \<Rightarrow> int \<Rightarrow>
   msys \<Rightarrow> (ref \<times> msys) res" where
  "service_start_monitoring sz dbc has_handler ds keys host fd_time fd_timeout fd_interval fd_count disposal s =
     (case (dbc, ds) of
        (Some d, Some ds) \<Rightarrow>
          if keys = {} then Inl (Invalid_argument ''[MONITOR_SERVICE] Parameter node_keys cannot be empty'')
          else
            (case get_or_create_monitor sz keys has_handler host fd_timeout disposal ds s of
               Inl e \<Rightarrow> Inl e
             | Inr (monitor, s) \<Rightarrow>
                 (let context = length (ctxs (mw s));
                      s = on_mw (\<lambda>w. w\<lparr>ctxs := ctxs w @ [new_context (Some d) keys fd_time fd_interval fd_count]\<rparr>) s
                  in case monitor of
                       None \<Rightarrow> Inl Null_deref
                     | Some m \<Rightarrow> map_sum id (\<lambda>s. (context, s)) (add_task (Some m) True (on_mw (monitor_start_monitoring m context) s))))
      | _ \<Rightarrow> Inl (Invalid_argument ''[MONITOR_SERVICE] Parameter dbc or ds cannot be null''))"

definition service_stop_monitoring :: "ref option \<Rightarrow> msys \<Rightarrow> msys" where
  "service_stop_monitoring context s =
     (case context of
        None \<Rightarrow> s
      | Some c \<Rightarrow>
          (let s = on_mw (upd_ctx c invalidate) s;
               node = get_node (node_keys (ctxs (mw s) ! c)) s
           in if node = [] then s
              else
                (case get_monitor node s of
                   None \<Rightarrow> s
                 | Some m \<Rightarrow> on_mw (monitor_stop_monitoring m (Some c)) s)))"

definition stop_monitoring_for_all_connections :: "string set \<Rightarrow> msys \<Rightarrow> msys" where
  "stop_monitoring_for_all_connections keys s =
     (let node = get_node keys s
      in if node = [] then s
         else
           (case get_monitor node s of
              None \<Rightarrow> s
            | Some m \<Rightarrow> reset_resource (Some m) (on_mw (clear_contexts m) s)))"

definition notify_unused :: "bool \<Rightarrow> ref option \<Rightarrow> msys \<Rightarrow> msys" where
  "notify_unused idle monitor s = (case monitor of None \<Rightarrow> s | Some m \<Rightarrow> release_resource idle (Some m) s)"

section \<open>The threads\<close>

text \<open>One step of the \<open>i\<close>-th thread in \<^verbatim>\<open>MONITOR::run\<close>.\<close>

definition monitor_step :: "mon_env \<Rightarrow> bool \<Rightarrow> ref \<Rightarrow> mon_pc \<Rightarrow> msys \<Rightarrow> mon_pc \<times> msys" where
  "monitor_step env idle m pc s =
     (case pc of
        Begin \<Rightarrow> (Top, on_mw (upd_mon m (stopped_update (\<lambda>_. False))) s)
      | Top \<Rightarrow> (let (pc', w) = run_top m (mw s) in (pc', s\<lparr>mw := w\<rparr>))
      | Check_at t \<Rightarrow> (let (pc', w) = run_check env t m (mw s) in (pc', s\<lparr>mw := w\<rparr>))
      | Update_at t st \<Rightarrow> (Pause_at st, on_mw (run_update t st m) s)
      | Pause_at st \<Rightarrow> (Top, s)
      | Exit_loop \<Rightarrow> (Final, notify_unused idle (Some m) s)
      | Final \<Rightarrow> (Finished, on_mw (monitor_stop m) s)
      | Finished \<Rightarrow> (Finished, s))"

definition thread_step :: "mon_env \<Rightarrow> bool \<Rightarrow> nat \<Rightarrow> msys \<Rightarrow> msys" where
  "thread_step env idle i s =
     (if i < length (threads s) then
        (case threads s ! i of (m, pc) \<Rightarrow>
           (case monitor_step env idle m pc s of (pc', s') \<Rightarrow> s'\<lparr>threads := (threads s')[i := (m, pc')]\<rparr>))
      else s)"


section \<open>The invariant of the objects\<close>

text \<open>
  Each monitor holds distinct contexts, no context is held by two monitors, and each monitor
  probes at its shortest interval.
\<close>

definition reg_ok :: "mworld \<Rightarrow> bool" where
  "reg_ok w \<longleftrightarrow>
     (\<forall>m<length (mons w). distinct (contexts (mons w ! m)) \<and> (\<forall>c\<in>set (contexts (mons w ! m)). c < length (ctxs w)) \<and>
        connection_check_interval (mons w ! m) = shortest w (contexts (mons w ! m))) \<and>
     (\<forall>m m' c. m < length (mons w) \<longrightarrow> m' < length (mons w) \<longrightarrow> c \<in> set (contexts (mons w ! m)) \<longrightarrow>
        c \<in> set (contexts (mons w ! m')) \<longrightarrow> m = m')"

text \<open>Every connection opened is owned by exactly one monitor or has been freed, once.\<close>

definition own_ok :: "mworld \<Rightarrow> bool" where
  "own_ok w \<longleftrightarrow> distinct (freed w) \<and> (\<forall>p\<in>set (freed w). p < opened w) \<and>
     (\<forall>m<length (mons w). \<forall>p. connection_proxy (mons w ! m) = Some p \<longrightarrow> p < opened w \<and> p \<notin> set (freed w)) \<and>
     (\<forall>m m' p. m < length (mons w) \<longrightarrow> m' < length (mons w) \<longrightarrow> connection_proxy (mons w ! m) = Some p \<longrightarrow>
        connection_proxy (mons w ! m') = Some p \<longrightarrow> m = m') \<and>
     (\<forall>p<opened w. p \<in> set (freed w) \<or> (\<exists>m<length (mons w). connection_proxy (mons w ! m) = Some p))"

lemma reg_ok_cong:
  assumes "length (mons w') = length (mons w)" "length (ctxs w) \<le> length (ctxs w')"
    and "\<And>m. contexts (mons w' ! m) = contexts (mons w ! m)"
    and "\<And>m. connection_check_interval (mons w' ! m) = connection_check_interval (mons w ! m)"
    and "\<And>c. c < length (ctxs w) \<Longrightarrow> failure_detection_interval (ctxs w' ! c) = failure_detection_interval (ctxs w ! c)"
    and "reg_ok w"
  shows "reg_ok w'"
proof -
  have "shortest w' cs = shortest w cs" if "\<forall>c\<in>set cs. c < length (ctxs w)" for cs
    using assms(5) that by (auto simp: shortest_def intro!: arg_cong [where f = Min] image_cong)
  moreover have "\<forall>m<length (mons w). \<forall>c\<in>set (contexts (mons w ! m)). c < length (ctxs w')"
    using assms(2,6) unfolding reg_ok_def by (meson less_le_trans)
  ultimately show ?thesis using assms by (simp add: reg_ok_def)
qed

lemma own_ok_cong:
  assumes "length (mons w') = length (mons w)" "opened w' = opened w" "freed w' = freed w"
    and "\<And>m. connection_proxy (mons w' ! m) = connection_proxy (mons w ! m)" and "own_ok w"
  shows "own_ok w'"
  using assms by (simp add: own_ok_def)

lemma upd_mon_field: "(\<And>x. g (f x) = g x) \<Longrightarrow> g (mons (upd_mon m f w) ! m') = g (mons w ! m')"
  by (simp add: upd_mon_def modify_field)

lemma upd_owner [simp]:
  "opened (upd_ctx c f w) = opened w" "freed (upd_ctx c f w) = freed w"
  "opened (upd_mon m g w) = opened w" "freed (upd_mon m g w) = freed w"
  "opened (snd (get_current_time w)) = opened w" "freed (snd (get_current_time w)) = freed w"
  by (simp_all add: upd_ctx_def upd_mon_def get_current_time_def)

lemmas upd_fields = upd_mon_field upd_ctx_field

subsection \<open>Operations of a monitor\<close>

lemma start_reg_ok:
  assumes ok: "reg_ok w" and m: "m < length (mons w)" and c: "c < length (ctxs w)"
    and fresh: "\<And>m'. m' < length (mons w) \<Longrightarrow> c \<notin> set (contexts (mons w ! m'))"
  shows "reg_ok (monitor_start_monitoring m c w)"
proof -
  let ?w = "monitor_start_monitoring m c w"
  have len: "length (mons ?w) = length (mons w)" "length (ctxs ?w) = length (ctxs w)"
    by (simp_all add: monitor_start_monitoring_def Let_def case_prod_unfold)
  have other: "mons ?w ! m' = mons w ! m'" if "m' \<noteq> m" for m'
    using that by (simp add: monitor_start_monitoring_def Let_def case_prod_unfold)
  have sh: "shortest ?w cs = shortest w cs" for cs
    using mon_do_intervals [of m "Op_start c" w] by (intro shortest_cong) simp
  have new: "contexts (mons ?w ! m) = contexts (mons w ! m) @ [c]"
    "connection_check_interval (mons ?w ! m) = min (failure_detection_interval (ctxs w ! c)) (connection_check_interval (mons w ! m))"
    using mon_do_start_mon [OF m] by simp_all
  have cs: "contexts (mons ?w ! m') = (if m' = m then contexts (mons w ! m) @ [c] else contexts (mons w ! m'))" for m'
    using new(1) other by simp
  have "distinct (contexts (mons ?w ! m')) \<and> (\<forall>c\<in>set (contexts (mons ?w ! m')). c < length (ctxs ?w)) \<and>
      connection_check_interval (mons ?w ! m') = shortest ?w (contexts (mons ?w ! m'))" if "m' < length (mons w)" for m'
  proof (cases "m' = m")
    case True
    then show ?thesis
      using ok m c fresh [OF m] new mon_do_intervals [of m "Op_start c" w c] by (auto simp: reg_ok_def sh shortest_snoc len)
  next
    case False
    then show ?thesis using ok that by (auto simp: reg_ok_def sh other len)
  qed
  moreover have "m1 = m2" if "m1 < length (mons w)" "m2 < length (mons w)" "x \<in> set (contexts (mons ?w ! m1))"
    "x \<in> set (contexts (mons ?w ! m2))" for m1 m2 x
    using that ok fresh m by (auto simp: cs reg_ok_def split: if_splits)
  ultimately show ?thesis by (auto simp: reg_ok_def len)
qed

lemma shrink_reg_ok:
  assumes ok: "reg_ok w" and len: "length (mons w') = length (mons w)" "length (ctxs w') = length (ctxs w)"
    and other: "\<And>m'. m' \<noteq> m \<Longrightarrow> mons w' ! m' = mons w ! m'"
    and chg: "m < length (mons w) \<Longrightarrow> set (contexts (mons w' ! m)) \<subseteq> set (contexts (mons w ! m)) \<and>
      distinct (contexts (mons w' ! m)) \<and> connection_check_interval (mons w' ! m) = shortest w (contexts (mons w' ! m))"
    and iv: "\<And>c. failure_detection_interval (ctxs w' ! c) = failure_detection_interval (ctxs w ! c)"
  shows "reg_ok w'"
proof -
  have sh: "shortest w' cs = shortest w cs" for cs using iv by (intro shortest_cong) simp
  have sub: "set (contexts (mons w' ! m')) \<subseteq> set (contexts (mons w ! m'))" if "m' < length (mons w)" for m'
    using chg other [of m'] that by (cases "m' = m") auto
  have "distinct (contexts (mons w' ! m')) \<and> (\<forall>c\<in>set (contexts (mons w' ! m')). c < length (ctxs w')) \<and>
      connection_check_interval (mons w' ! m') = shortest w' (contexts (mons w' ! m'))" if "m' < length (mons w)" for m'
    using ok chg other [of m'] that by (cases "m' = m") (auto simp: reg_ok_def sh len)
  with ok sub show ?thesis unfolding reg_ok_def len by (meson subsetD)
qed

lemma stop_reg_ok:
  assumes "reg_ok w"
  shows "reg_ok (monitor_stop_monitoring m (Some c) w)"
proof (rule shrink_reg_ok [OF assms, where m = m])
  show "length (mons (monitor_stop_monitoring m (Some c) w)) = length (mons w)"
    "length (ctxs (monitor_stop_monitoring m (Some c) w)) = length (ctxs w)"
    by (simp_all add: monitor_stop_monitoring_def Let_def)
  show "mons (monitor_stop_monitoring m (Some c) w) ! m' = mons w ! m'" if "m' \<noteq> m" for m'
    using that by (simp add: monitor_stop_monitoring_def Let_def)
  show "failure_detection_interval (ctxs (monitor_stop_monitoring m (Some c) w) ! c') = failure_detection_interval (ctxs w ! c')" for c'
    using mon_do_intervals [of m "Op_stop (Some c)" w] by simp
qed (use assms mon_do_stop_mon in \<open>auto simp: reg_ok_def distinct_removeAll\<close>)

lemma clear_reg_ok:
  assumes "reg_ok w"
  shows "reg_ok (clear_contexts m w)"
  by (rule shrink_reg_ok [OF assms, where m = m]) (auto simp: clear_contexts_def shortest_def)

lemma run_update_reg:
  assumes "reg_ok w" "m < length (mons w)"
  shows "mons (run_update t st m w) = mons w" "length (ctxs (run_update t st m w)) = length (ctxs w)"
    "failure_detection_interval (ctxs (run_update t st m w) ! c) = failure_detection_interval (ctxs w ! c)"
    "opened (run_update t st m w) = opened w" "freed (run_update t st m w) = freed w"
proof -
  have d: "distinct (contexts (mons w ! m))" "\<forall>c\<in>set (contexts (mons w ! m)). c < length (ctxs w)"
    using assms by (auto simp: reg_ok_def)
  have iv: "failure_detection_interval (fst (update_connection_status t' u v (x, so))) = failure_detection_interval x" for t' u v x so
    by (simp add: update_connection_status_def set_connection_valid_def Let_def mark_invalid_def
        increment_failure_count_def reset_invalid_node_start_time_def)
  show "mons (run_update t st m w) = mons w" "length (ctxs (run_update t st m w)) = length (ctxs w)"
    using run_update_ctx(2,3) [OF d] by simp_all
  show "failure_detection_interval (ctxs (run_update t st m w) ! c) = failure_detection_interval (ctxs w ! c)"
    using run_update_ctx(1) [OF d, of t st c "[]"] iv by (simp add: run_checks_def)
  have "opened (fold (update_context t st) cs w') = opened w' \<and> freed (fold (update_context t st) cs w') = freed w'" for cs w'
    by (induction cs arbitrary: w') (simp_all add: update_context_def Let_def case_prod_unfold)
  then show "opened (run_update t st m w) = opened w" "freed (run_update t st m w) = freed w"
    by (simp_all add: run_update_def)
qed

lemma monitor_connect_reg:
  "length (mons (snd (monitor_connect env m w))) = length (mons w)" "ctxs (snd (monitor_connect env m w)) = ctxs w"
  "contexts (mons (snd (monitor_connect env m w)) ! m') = contexts (mons w ! m')"
  "connection_check_interval (mons (snd (monitor_connect env m w)) ! m') = connection_check_interval (mons w ! m')"
  by (auto simp: monitor_connect_def Let_def upd_mon_field upd_mon_def modify_field split: outcome.split option.split)

lemma own_ok_replace:
  assumes ok: "own_ok w" and m: "m < length (mons w)" and len: "length (mons w') = length (mons w)"
    and other: "\<And>m'. m' \<noteq> m \<Longrightarrow> connection_proxy (mons w' ! m') = connection_proxy (mons w ! m')"
    and fr: "freed w' = freed w @ (case connection_proxy (mons w ! m) of Some p \<Rightarrow> [p] | None \<Rightarrow> [])"
    and new: "connection_proxy (mons w' ! m) = None \<and> opened w' = opened w \<or>
      connection_proxy (mons w' ! m) = Some (opened w) \<and> opened w' = Suc (opened w)"
  shows "own_ok w'"
proof -
  have 1: "distinct (freed w')" "\<forall>p\<in>set (freed w'). p < opened w"
    using ok m by (auto simp: own_ok_def fr split: option.split)
  have owner: "p < opened w \<and> p \<notin> set (freed w')" if "m' < length (mons w)" "m' \<noteq> m" "connection_proxy (mons w ! m') = Some p" for m' p
  proof -
    have "connection_proxy (mons w ! m) \<noteq> Some p" using ok m that unfolding own_ok_def by metis
    with ok that show ?thesis by (auto simp: own_ok_def fr split: option.splits)
  qed
  have old: "p \<in> set (freed w') \<or> (\<exists>m'<length (mons w). connection_proxy (mons w' ! m') = Some p)" if p: "p < opened w" for p
  proof -
    from ok p consider "p \<in> set (freed w)" | m' where "m' < length (mons w)" "connection_proxy (mons w ! m') = Some p"
      by (auto simp: own_ok_def)
    then show ?thesis
    proof cases
      case 2
      then show ?thesis by (cases "m' = m") (auto simp: fr other)
    qed (simp add: fr)
  qed
  have unique: "m1 = m2" if "m1 < length (mons w)" "m2 < length (mons w)" "connection_proxy (mons w' ! m1) = Some p"
    "connection_proxy (mons w' ! m2) = Some p" for m1 m2 p
  proof (cases "m1 = m \<or> m2 = m")
    case True
    have fresh: "connection_proxy (mons w' ! m) = Some p \<Longrightarrow> p = opened w" using new by auto
    show ?thesis
    proof (rule ccontr)
      assume "m1 \<noteq> m2"
      with True that owner [of m1 p] owner [of m2 p] have "p < opened w" "connection_proxy (mons w' ! m) = Some p"
        by (auto simp: other)
      with fresh show False by simp
    qed
  next
    case False
    with that ok show ?thesis unfolding own_ok_def by (metis other)
  qed
  have le: "opened w \<le> opened w'" using new by auto
  have "p < opened w' \<and> p \<notin> set (freed w')" if "m' < length (mons w)" "connection_proxy (mons w' ! m') = Some p" for m' p
  proof (cases "m' = m")
    case True
    with that new have "p = opened w" "opened w' = Suc (opened w)" by auto
    with 1(2) show ?thesis by auto
  next
    case False
    with that owner [of m' p] le show ?thesis by (simp add: other)
  qed
  moreover have "p \<in> set (freed w') \<or> (\<exists>m'<length (mons w). connection_proxy (mons w' ! m') = Some p)"
    if p: "p < opened w'" for p
  proof (cases "p < opened w")
    case False
    with p new have "connection_proxy (mons w' ! m) = Some p" by auto
    with m show ?thesis by blast
  qed (rule old)
  moreover have "\<forall>p\<in>set (freed w'). p < opened w'" using 1(2) le by (meson less_le_trans)
  ultimately show ?thesis unfolding own_ok_def len using 1(1) unique by blast
qed

lemma monitor_connect_own: "own_ok w \<Longrightarrow> m < length (mons w) \<Longrightarrow> own_ok (snd (monitor_connect env m w))"
proof (rule own_ok_replace [of w m])
  assume m: "m < length (mons w)"
  then show "connection_proxy (mons (snd (monitor_connect env m w)) ! m) = None \<and> opened (snd (monitor_connect env m w)) = opened w \<or>
    connection_proxy (mons (snd (monitor_connect env m w)) ! m) = Some (opened w) \<and> opened (snd (monitor_connect env m w)) = Suc (opened w)"
    by (auto simp: monitor_connect_def Let_def upd_mon_def store_simps split: outcome.split option.split)
qed (auto simp: monitor_connect_def Let_def upd_mon_def store_simps split: outcome.split option.split)

text \<open>What a step of a thread keeps of the objects.\<close>

definition world_ok :: "mworld \<Rightarrow> bool" where
  "world_ok w \<longleftrightarrow> reg_ok w \<and> own_ok w"

definition keeps :: "mworld \<Rightarrow> mworld \<Rightarrow> bool" where
  "keeps w w' \<longleftrightarrow> length (mons w') = length (mons w) \<and> length (ctxs w') = length (ctxs w) \<and> (world_ok w \<longrightarrow> world_ok w')"

lemma keepsI:
  assumes "length (mons w') = length (mons w)" "length (ctxs w') = length (ctxs w)"
    and "\<And>m. contexts (mons w' ! m) = contexts (mons w ! m)"
    and "\<And>m. connection_check_interval (mons w' ! m) = connection_check_interval (mons w ! m)"
    and "\<And>c. failure_detection_interval (ctxs w' ! c) = failure_detection_interval (ctxs w ! c)"
    and "opened w' = opened w" "freed w' = freed w"
    and "\<And>m. connection_proxy (mons w' ! m) = connection_proxy (mons w ! m)"
  shows "keeps w w'"
  using assms reg_ok_cong [of w' w] own_ok_cong [of w' w] by (simp add: keeps_def world_ok_def)

lemma mkeeps_trans: "keeps w w' \<Longrightarrow> keeps w' w'' \<Longrightarrow> keeps w w''"
  by (simp add: keeps_def)

lemma keeps_clock [simp]: "keeps w (snd (get_current_time w))"
  by (rule keepsI) (simp_all add: get_current_time_def)

lemma keeps_stopped: "keeps w (upd_mon m (stopped_update f) w)"
  by (rule keepsI) (simp_all add: upd_mon_field)

lemma keeps_timestamp: "keeps w (upd_mon m (last_context_timestamp_update f) w)"
  by (rule keepsI) (simp_all add: upd_mon_field)

lemma keeps_top: "keeps w (snd (run_top m w))"
proof -
  have "keeps w (upd_mon m (last_context_timestamp_update f) (snd (get_current_time w)))" for f
    by (rule mkeeps_trans [OF keeps_clock keeps_timestamp])
  moreover have "keeps w w" by (simp add: keeps_def)
  ultimately show ?thesis by (simp add: run_top_def Let_def case_prod_unfold)
qed

lemma keeps_update: "m < length (mons w) \<Longrightarrow> world_ok w \<Longrightarrow> keeps w (run_update t st m w)"
  by (rule keepsI) (simp_all add: world_ok_def run_update_reg)

lemma keeps_connect: "m < length (mons w) \<Longrightarrow> keeps w (snd (monitor_connect env m w))"
proof -
  assume m: "m < length (mons w)"
  have "reg_ok w \<Longrightarrow> reg_ok (snd (monitor_connect env m w))"
    by (rule reg_ok_cong [where w = w]) (simp_all add: monitor_connect_reg)
  with m show ?thesis by (simp add: keeps_def world_ok_def monitor_connect_reg monitor_connect_own)
qed

lemma keeps_check: "m < length (mons w) \<Longrightarrow> keeps w (snd (run_check env t m w))"
proof -
  assume m: "m < length (mons w)"
  define w1 where "w1 = snd (get_current_time w)"
  have k1: "keeps w w1" by (simp add: w1_def)
  have m1: "m < length (mons w1)" using m by (simp add: w1_def)
  have "keeps w (snd (get_current_time (snd (monitor_connect env m w1))))"
    using mkeeps_trans [OF k1 mkeeps_trans [OF keeps_connect [OF m1] keeps_clock]] .
  moreover have "keeps w (snd (get_current_time w1))" using mkeeps_trans [OF k1 keeps_clock] .
  ultimately show ?thesis
    by (simp add: run_check_def check_connection_status_def Let_def case_prod_unfold w1_def)
qed

section \<open>The invariant of the registry\<close>

text \<open>
  The pointers of the container denote monitors, none of them null; and a monitor with a task has
  a thread that has not left \<^verbatim>\<open>run\<close> yet.
\<close>

definition refs_ok :: "msys \<Rightarrow> bool" where
  "refs_ok s \<longleftrightarrow>
     (\<forall>node mo. monitor_map s node = Some mo \<longrightarrow> (\<exists>m<length (mons (mw s)). mo = Some m)) \<and>
     (\<forall>m\<in>task_map s. m < length (mons (mw s))) \<and> (\<forall>m\<in>set (available_monitors s). m < length (mons (mw s))) \<and>
     (\<forall>(m, pc)\<in>set (threads s). m < length (mons (mw s)))"

definition live_thread :: "ref \<Rightarrow> msys \<Rightarrow> bool" where
  "live_thread m s \<longleftrightarrow> (\<exists>pc. (m, pc) \<in> set (threads s) \<and> pc \<noteq> Final \<and> pc \<noteq> Finished)"

definition msys_inv :: "msys \<Rightarrow> bool" where
  "msys_inv s \<longleftrightarrow> world_ok (mw s) \<and> refs_ok s \<and> (\<forall>m\<in>task_map s. live_thread m s)"

lemma on_mw_simps [simp]:
  "mw (on_mw f s) = f (mw s)" "monitor_map (on_mw f s) = monitor_map s" "task_map (on_mw f s) = task_map s"
  "available_monitors (on_mw f s) = available_monitors s" "threads (on_mw f s) = threads s"
  by (simp_all add: on_mw_def)

lemma inv_keeps: "msys_inv s \<Longrightarrow> keeps (mw s) w' \<Longrightarrow> msys_inv (s\<lparr>mw := w'\<rparr>)"
  by (simp add: msys_inv_def keeps_def refs_ok_def live_thread_def)

lemma inv_on_mw: "msys_inv s \<Longrightarrow> keeps (mw s) (f (mw s)) \<Longrightarrow> msys_inv (on_mw f s)"
  by (simp add: on_mw_def inv_keeps)

text \<open>Changes of the container alone that only drop entries or add valid ones.\<close>

lemma inv_container:
  assumes "msys_inv s" "mw s' = mw s" "threads s' = threads s" "task_map s' \<subseteq> task_map s"
    and "\<And>node mo. monitor_map s' node = Some mo \<Longrightarrow> (\<exists>m<length (mons (mw s)). mo = Some m)"
    and "\<And>m. m \<in> set (available_monitors s') \<Longrightarrow> m < length (mons (mw s))"
  shows "msys_inv s'"
  using assms by (auto simp: msys_inv_def refs_ok_def live_thread_def)

lemma inv_refs:
  assumes "msys_inv s"
  shows "monitor_map s node = Some mo \<Longrightarrow> \<exists>m<length (mons (mw s)). mo = Some m"
    and "m \<in> set (available_monitors s) \<Longrightarrow> m < length (mons (mw s))"
    and "(m, pc) \<in> set (threads s) \<Longrightarrow> m < length (mons (mw s))"
    and "m \<in> task_map s \<Longrightarrow> live_thread m s"
  using assms by (auto simp: msys_inv_def refs_ok_def)

lemma inv_populate: "msys_inv s \<Longrightarrow> m < length (mons (mw s)) \<Longrightarrow> msys_inv (populate_monitor_map ks (Some m) s)"
  by (rule inv_container) (auto simp: populate_monitor_map_def inv_refs split: if_splits)

lemma inv_remove: "msys_inv s \<Longrightarrow> msys_inv (remove_monitor_mapping m s)"
  by (rule inv_container) (auto simp: remove_monitor_mapping_def inv_refs split: if_splits)

lemma live_thread_mono: "live_thread m s \<Longrightarrow> set (threads s) \<subseteq> set (threads s') \<Longrightarrow> live_thread m s'"
  by (auto simp: live_thread_def)

lemma inv_add_task:
  assumes inv: "msys_inv s" "m < length (mons (mw s))" and a: "add_task (Some m) True s = Inr s'"
  shows "msys_inv s'" "m \<in> task_map s'" "live_thread m s'" "mw s' = mw s" "monitor_map s' = monitor_map s"
proof -
  consider "m \<in> task_map s" "s' = s" | "s' = s\<lparr>pool_size := pool_size s + 1, task_map := insert m (task_map s), threads := threads s @ [(m, Begin)]\<rparr>"
    using a by (auto simp: add_task_def split: if_splits)
  then have "(m \<in> task_map s' \<and> live_thread m s' \<and> mw s' = mw s \<and> monitor_map s' = monitor_map s) \<and> msys_inv s'"
  proof cases
    case 1
    with inv show ?thesis by (simp add: msys_inv_def)
  next
    case 2
    have l: "live_thread m s'" by (auto simp: 2 live_thread_def)
    moreover have "live_thread m' s'" if "m' \<in> task_map s" for m'
      using inv_refs(4) [OF inv(1) that] by (rule live_thread_mono) (auto simp: 2)
    moreover have "refs_ok s'" using inv by (auto simp: msys_inv_def refs_ok_def 2)
    ultimately show ?thesis using inv by (auto simp: msys_inv_def 2)
  qed
  then show "msys_inv s'" "m \<in> task_map s'" "live_thread m s'" "mw s' = mw s" "monitor_map s' = monitor_map s" by simp_all
qed

lemma get_available_inv:
  assumes "msys_inv s" "get_available_monitor s = (mo, s')"
  shows "msys_inv s'" "ctxs (mw s') = ctxs (mw s)" "\<And>m. mo = Some m \<Longrightarrow> m < length (mons (mw s'))"
proof -
  note r = inv_refs [OF assms(1)]
  have drop: "msys_inv (s\<lparr>available_monitors := ms, task_map := task_map s - T\<rparr>)" if "available_monitors s = m # ms" for m ms T
    using assms(1) r that by (intro inv_container [OF assms(1)]) auto
  have drop0: "msys_inv (s\<lparr>available_monitors := ms\<rparr>)" if "available_monitors s = m # ms" for m ms
    using drop [of m ms "{}"] that by simp
  have stop: "msys_inv (s\<lparr>available_monitors := ms, mw := monitor_stop m (mw s), task_map := task_map s - {m}\<rparr>)"
    if "available_monitors s = m # ms" for m ms
  proof -
    have 1: "msys_inv (s\<lparr>available_monitors := ms, mw := monitor_stop m (mw s)\<rparr>)"
      using inv_keeps [OF drop0 [OF that], of "monitor_stop m (mw s)"] keeps_stopped by (simp add: monitor_stop_def)
    then show ?thesis by (rule inv_container) (use inv_refs [OF 1] in auto)
  qed
  show "msys_inv s'"
    using assms(2) drop0 stop assms(1)
    by (auto simp: get_available_monitor_def Let_def on_mw_def split: list.splits if_splits)
  show "ctxs (mw s') = ctxs (mw s)"
    using assms(2) by (auto simp: get_available_monitor_def Let_def monitor_stop_def split: list.splits if_splits)
  show "\<And>m. mo = Some m \<Longrightarrow> m < length (mons (mw s'))"
    using assms(2) r(2) by (auto simp: get_available_monitor_def Let_def split: list.splits if_splits)
qed

lemma new_monitor_fields:
  "new_monitor sz host t d ds = Inr mo \<Longrightarrow>
     contexts mo = [] \<and> connection_check_interval mo = MILLISECONDS_MAX \<and> connection_proxy mo = None"
  by (cases "ds_copy sz (Some ds) reset") (auto simp: new_monitor_def)

lemma world_ok_new_monitor:
  assumes "world_ok w" "contexts mo = []" "connection_check_interval mo = MILLISECONDS_MAX" "connection_proxy mo = None"
  shows "world_ok (w\<lparr>mons := mons w @ [mo]\<rparr>)"
proof -
  let ?w = "w\<lparr>mons := mons w @ [mo]\<rparr>"
  have sh: "shortest ?w cs = shortest w cs" for cs by (simp add: shortest_def)
  have "reg_ok ?w" using assms unfolding world_ok_def reg_ok_def sh
    by (auto simp: nth_append less_Suc_eq shortest_def)
  moreover have "own_ok ?w"
  proof -
    have "p \<in> set (freed w) \<or> (\<exists>m<Suc (length (mons w)). connection_proxy ((mons w @ [mo]) ! m) = Some p)" if "p < opened w" for p
      using assms(1) that unfolding world_ok_def own_ok_def by (metis less_SucI nth_append)
    then show ?thesis using assms unfolding world_ok_def own_ok_def by (auto simp: nth_append less_Suc_eq)
  qed
  ultimately show ?thesis by (simp add: world_ok_def)
qed

lemma create_monitor_inv:
  assumes "msys_inv s" "create_monitor sz True host t d ds s = Inr (mo, s')"
  shows "msys_inv s'" "ctxs (mw s') = ctxs (mw s)" "\<exists>m<length (mons (mw s')). mo = Some m"
proof -
  obtain mon where n: "new_monitor sz host t d ds = Inr mon" "mo = Some (length (mons (mw s)))"
    "s' = on_mw (\<lambda>w. w\<lparr>mons := mons w @ [mon]\<rparr>) s"
    using assms(2) by (cases "new_monitor sz host t d ds") (auto simp: create_monitor_def)
  show "ctxs (mw s') = ctxs (mw s)" "\<exists>m<length (mons (mw s')). mo = Some m" using n by auto
  have "world_ok (mw s')"
    using world_ok_new_monitor [of "mw s" mon] new_monitor_fields [OF n(1)] assms(1) by (simp add: n(3) msys_inv_def)
  moreover have "refs_ok s'" using assms(1) by (fastforce simp: msys_inv_def refs_ok_def n(3) less_SucI)
  ultimately show "msys_inv s'" using assms(1) by (simp add: msys_inv_def n(3) live_thread_def)
qed

lemma get_or_create_inv:
  assumes inv: "msys_inv s" and g: "get_or_create_monitor sz ks True host t d ds s = Inr (mo, s')"
    and fin: "finite ks"
  obtains m where "mo = Some m" "m < length (mons (mw s'))" "msys_inv s'" "ctxs (mw s') = ctxs (mw s)"
    "\<forall>k\<in>ks. monitor_map s' k = Some (Some m)"
proof (cases "get_node ks s = []")
  case False
  then obtain node where node: "get_node ks s = node" "monitor_map s node \<noteq> None"
    by (auto simp: get_node_def find_Some_iff split: option.splits)
  then obtain m where m: "monitor_map s node = Some (Some m)" "m < length (mons (mw s))"
    using inv_refs(1) [OF inv] by fastforce
  then have "mo = Some m" "s' = populate_monitor_map ks (Some m) s"
    using g False node by (auto simp: get_or_create_monitor_def get_monitor_def)
  then show ?thesis
    using inv_populate [OF inv m(2)] m(2) by (intro that [of m]) (simp_all add: populate_monitor_map_def)
next
  case True
  obtain mo1 s1 where a: "get_available_monitor s = (mo1, s1)" by fastforce
  note av = get_available_inv [OF inv a]
  show ?thesis
  proof (cases mo1)
    case (Some m)
    then have "mo = Some m" "s' = populate_monitor_map ks (Some m) s1"
      using g True a by (auto simp: get_or_create_monitor_def)
    then show ?thesis
      using inv_populate [OF av(1)] av(2,3) Some by (intro that [of m]) (simp_all add: populate_monitor_map_def)
  next
    case None
    then obtain s2 where c: "create_monitor sz True host t d ds s1 = Inr (mo, s2)" "s' = populate_monitor_map ks mo s2"
      using g True a by (cases "create_monitor sz True host t d ds s1") (auto simp: get_or_create_monitor_def)
    note cr = create_monitor_inv [OF av(1) c(1)]
    from cr(3) obtain m where "mo = Some m" "m < length (mons (mw s2))" by blast
    then show ?thesis
      using inv_populate [OF cr(1)] cr(2) av(2) c(2) by (intro that [of m]) (simp_all add: populate_monitor_map_def)
  qed
qed

lemma world_ok_append_ctx: "world_ok w \<Longrightarrow> world_ok (w\<lparr>ctxs := ctxs w @ [c]\<rparr>)"
proof -
  assume ok: "world_ok w"
  have "reg_ok (w\<lparr>ctxs := ctxs w @ [c]\<rparr>)"
    by (rule reg_ok_cong [where w = w]) (use ok in \<open>simp_all add: nth_append world_ok_def\<close>)
  moreover have "own_ok (w\<lparr>ctxs := ctxs w @ [c]\<rparr>)"
    by (rule own_ok_cong [where w = w]) (use ok in \<open>simp_all add: world_ok_def\<close>)
  ultimately show ?thesis by (simp add: world_ok_def)
qed

lemma start_own_ok: "own_ok w \<Longrightarrow> own_ok (monitor_start_monitoring m c w)"
  by (rule own_ok_cong [where w = w])
    (simp_all add: monitor_start_monitoring_def Let_def case_prod_unfold upd_mon_field)

lemma service_start_inv:
  assumes inv: "msys_inv s" and fin: "finite keys"
    and st: "service_start_monitoring sz dbc True ds keys host t1 t2 i n d s = Inr (c, s')"
  obtains m where "c = length (ctxs (mw s))" "msys_inv s'" "m < length (mons (mw s'))" "m \<in> task_map s'" "live_thread m s'"
    "\<forall>k\<in>keys. monitor_map s' k = Some (Some m)" "c \<in> set (contexts (mons (mw s') ! m))"
    "c < length (ctxs (mw s'))" "active_context (ctxs (mw s') ! c)" "connection_to_abort (ctxs (mw s') ! c) = dbc" "dbc \<noteq> None"
proof -
  obtain db dv where dd: "dbc = Some db" "ds = Some dv" "keys \<noteq> {}"
    using st by (auto simp: service_start_monitoring_def split: option.splits if_splits)
  obtain mo s1 where g: "get_or_create_monitor sz keys True host t2 d dv s = Inr (mo, s1)"
    using st dd by (auto simp: service_start_monitoring_def split: sum.splits)
  from get_or_create_inv [OF inv g fin] obtain m where m: "mo = Some m" "m < length (mons (mw s1))" "msys_inv s1"
    "ctxs (mw s1) = ctxs (mw s)" "\<forall>k\<in>keys. monitor_map s1 k = Some (Some m)" by blast
  define w2 where "w2 = (mw s1)\<lparr>ctxs := ctxs (mw s1) @ [new_context (Some db) keys t1 i n]\<rparr>"
  define c0 where "c0 = length (ctxs (mw s))"
  define s3 where "s3 = s1\<lparr>mw := monitor_start_monitoring m c0 w2\<rparr>"
  have a: "add_task (Some m) True s3 = Inr s'" "c = c0"
    using st dd g m by (auto simp: service_start_monitoring_def Let_def s3_def w2_def c0_def on_mw_def map_sum_def split: sum.splits)
  have ok2: "world_ok w2" using m(3) world_ok_append_ctx by (simp add: w2_def msys_inv_def)
  have m2: "m < length (mons w2)" "c0 < length (ctxs w2)" using m by (simp_all add: w2_def c0_def)
  have fresh: "c0 \<notin> set (contexts (mons w2 ! m'))" if "m' < length (mons w2)" for m'
    using m(3,4) that by (auto simp: msys_inv_def world_ok_def reg_ok_def w2_def c0_def)
  have ok3: "world_ok (mw s3)"
    using ok2 start_reg_ok [OF _ m2 fresh] start_own_ok by (simp add: world_ok_def s3_def)
  have len: "length (mons (mw s3)) = length (mons (mw s1))"
    using mon_do_start_mon(3) [OF m2(1)] by (simp add: s3_def w2_def)
  have inv3: "msys_inv s3" using m(3) ok3 len by (auto simp: msys_inv_def refs_ok_def live_thread_def s3_def)
  note t = inv_add_task [OF inv3 _ a(1)]
  have m3: "m < length (mons (mw s3))" using m(2) len by simp
  have cc: "c \<in> set (contexts (mons (mw s') ! m))"
    using mon_do_start_mon(1) [OF m2(1), of c0] t(4) [OF m3] a(2) by (simp add: s3_def)
  have "ctxs (mw s') = ctxs (monitor_start_monitoring m c0 w2)" using t(4) [OF m3] by (simp add: s3_def)
  then have ctx: "c < length (ctxs (mw s'))" "active_context (ctxs (mw s') ! c)" "connection_to_abort (ctxs (mw s') ! c) = dbc"
    using m2(2) m(4) a(2) dd(1)
    by (simp_all add: monitor_start_monitoring_def Let_def case_prod_unfold nth_upd_ctx upd_ctx_field)
      (simp_all add: w2_def c0_def new_context_def nth_append)
  show ?thesis
    using t [OF m3] m3 m(5) cc a(2) ctx dd(1) by (intro that [of m]) (simp_all add: c0_def s3_def)
qed


section \<open>The system\<close>

text \<open>
  The steps of the process: connections start and stop being monitored, a connection that changed
  its server removes all contexts of its node, and the threads of the monitors make steps.
\<close>

inductive msys_step :: "msys \<Rightarrow> msys \<Rightarrow> bool" where
  start: "finite keys \<Longrightarrow> service_start_monitoring sz dbc True ds keys host t1 t2 i n d s = Inr (c, s') \<Longrightarrow> msys_step s s'"
| stop: "c < length (ctxs (mw s)) \<Longrightarrow> msys_step s (service_stop_monitoring (Some c) s)"
| stop_all: "msys_step s (stop_monitoring_for_all_connections keys s)"
| thread: "i < length (threads s) \<Longrightarrow> msys_step s (thread_step env idle i s)"
| release: "msys_step s (release_stop s)"

definition msys_start :: "msys \<Rightarrow> bool" where
  "msys_start s \<longleftrightarrow> mons (mw s) = [] \<and> opened (mw s) = 0 \<and> freed (mw s) = [] \<and> monitor_map s = Map.empty \<and>
     task_map s = {} \<and> available_monitors s = [] \<and> threads s = []"

lemma keeps_invalidate: "keeps w (upd_ctx c invalidate w)"
  by (rule keepsI) (simp_all add: upd_ctx_field invalidate_def)

lemma keeps_stop: "keeps w (monitor_stop_monitoring m (Some c) w)"
proof -
  have "own_ok w \<Longrightarrow> own_ok (monitor_stop_monitoring m (Some c) w)"
    by (rule own_ok_cong [where w = w]) (simp_all add: monitor_stop_monitoring_def Let_def upd_mon_field)
  then show ?thesis
    using stop_reg_ok [of w m c] by (simp add: keeps_def world_ok_def) (simp add: monitor_stop_monitoring_def Let_def)
qed

lemma keeps_clear: "keeps w (clear_contexts m w)"
proof -
  have "own_ok w \<Longrightarrow> own_ok (clear_contexts m w)"
    by (rule own_ok_cong [where w = w]) (simp_all add: clear_contexts_def upd_mon_field)
  then show ?thesis using clear_reg_ok [of w m] by (simp add: keeps_def world_ok_def) (simp add: clear_contexts_def)
qed

lemma service_stop_inv: "msys_inv s \<Longrightarrow> msys_inv (service_stop_monitoring (Some c) s)"
proof -
  assume "msys_inv s"
  then have 1: "msys_inv (on_mw (upd_ctx c invalidate) s)" by (rule inv_on_mw) (rule keeps_invalidate)
  have "msys_inv (on_mw (monitor_stop_monitoring m (Some c)) (on_mw (upd_ctx c invalidate) s))" for m
    by (rule inv_on_mw [OF 1]) (rule keeps_stop)
  with 1 show ?thesis by (simp add: service_stop_monitoring_def Let_def split: option.split)
qed

lemma stop_all_inv: "msys_inv s \<Longrightarrow> msys_inv (stop_monitoring_for_all_connections ks s)"
proof -
  assume inv: "msys_inv s"
  have "msys_inv (reset_resource (Some m) (on_mw (clear_contexts m) s))" if g: "get_monitor node s = Some m" for m node
  proof -
    have m: "m < length (mons (mw s))"
      using inv_refs(1) [OF inv, of node] g by (auto simp: get_monitor_def split: option.splits)
    have 1: "msys_inv (remove_monitor_mapping m (on_mw (clear_contexts m) s))"
      by (rule inv_remove) (rule inv_on_mw [OF inv], rule keeps_clear)
    then show ?thesis
      unfolding reset_resource_def Let_def option.case
      by (rule inv_container) (use inv_refs [OF 1] m in \<open>auto simp: remove_monitor_mapping_def clear_contexts_def\<close>)
  qed
  with inv show ?thesis by (auto simp: stop_monitoring_for_all_connections_def Let_def split: option.split)
qed

lemma live_thread_update:
  assumes "live_thread m s" "i < length (threads s)" "threads s ! i = (mt, pc)" "threads s' = (threads s)[i := (mt, pc')]"
    and "m = mt \<Longrightarrow> pc' \<noteq> Final \<and> pc' \<noteq> Finished \<or> pc = Final \<or> pc = Finished"
  shows "live_thread m s'"
proof -
  from assms(1) obtain j pcj where j: "j < length (threads s)" "threads s ! j = (m, pcj)" "pcj \<noteq> Final \<and> pcj \<noteq> Finished"
    by (auto simp: live_thread_def in_set_conv_nth)
  have "threads s' ! j = (if j = i then (mt, pc') else (m, pcj))" "j < length (threads s')"
    using j assms(2,4) by simp_all
  then have "\<exists>pc. (m, pc) \<in> set (threads s') \<and> pc \<noteq> Final \<and> pc \<noteq> Finished"
    using j assms(3,5) by (cases "j = i") (auto simp: in_set_conv_nth)
  then show ?thesis by (simp add: live_thread_def)
qed


lemma notify_unused_inv:
  "msys_inv s \<Longrightarrow> msys_inv (notify_unused idle (Some m) s)"
  "mw (notify_unused idle (Some m) s) = mw s" "threads (notify_unused idle (Some m) s) = threads s"
  "task_map (notify_unused idle (Some m) s) = task_map s - {m}"
proof -
  show "mw (notify_unused idle (Some m) s) = mw s" "threads (notify_unused idle (Some m) s) = threads s"
    "task_map (notify_unused idle (Some m) s) = task_map s - {m}"
    by (simp_all add: notify_unused_def release_resource_def remove_monitor_mapping_def Let_def)
  assume inv: "msys_inv s"
  then show "msys_inv (notify_unused idle (Some m) s)"
    by (rule inv_container)
      (use inv_refs [OF inv] in \<open>auto simp: notify_unused_def release_resource_def remove_monitor_mapping_def Let_def split: if_splits\<close>)
qed

lemma monitor_step_inv:
  assumes inv: "msys_inv s" and m: "m < length (mons (mw s))" and st: "monitor_step env idle m pc s = (pc', s')"
  shows "msys_inv s'" "threads s' = threads s" "task_map s' \<subseteq> task_map s"
    "length (mons (mw s')) = length (mons (mw s))"
    "m \<in> task_map s' \<Longrightarrow> pc' \<noteq> Final \<and> pc' \<noteq> Finished \<or> pc = Final \<or> pc = Finished"
proof -
  have w: "world_ok (mw s)" using inv by (simp add: msys_inv_def)
  note k = keeps_stopped [of "mw s" m] keeps_top [of "mw s" m] keeps_check [OF m] keeps_update [OF m w]
  have len: "keeps (mw s) w' \<Longrightarrow> length (mons w') = length (mons (mw s))" for w' by (simp add: keeps_def)
  have top: "fst (run_top m (mw s)) \<noteq> Final \<and> fst (run_top m (mw s)) \<noteq> Finished"
    by (simp add: run_top_def Let_def case_prod_unfold)
  have "msys_inv s' \<and> threads s' = threads s \<and> task_map s' \<subseteq> task_map s \<and> length (mons (mw s')) = length (mons (mw s)) \<and>
    (m \<in> task_map s' \<longrightarrow> pc' \<noteq> Final \<and> pc' \<noteq> Finished \<or> pc = Final \<or> pc = Finished)"
  proof (cases pc)
    case Exit_loop
    then show ?thesis using st notify_unused_inv [where s = s and idle = idle and m = m] inv by (auto simp: monitor_step_def)
  next
    case Top
    then show ?thesis using st inv_keeps [OF inv k(2)] len [OF k(2)] top by (auto simp: monitor_step_def case_prod_unfold Let_def)
  next
    case (Check_at t)
    then show ?thesis
      using st inv_keeps [OF inv k(3)] len [OF k(3)]
      by (auto simp: monitor_step_def case_prod_unfold run_check_def Let_def)
  qed (use st inv inv_on_mw [OF inv] k len in \<open>auto simp: monitor_step_def monitor_stop_def\<close>)
  then show "msys_inv s'" "threads s' = threads s" "task_map s' \<subseteq> task_map s" "length (mons (mw s')) = length (mons (mw s))"
    "m \<in> task_map s' \<Longrightarrow> pc' \<noteq> Final \<and> pc' \<noteq> Finished \<or> pc = Final \<or> pc = Finished" by blast+
qed

lemma thread_step_inv:
  assumes inv: "msys_inv s" and i: "i < length (threads s)"
  shows "msys_inv (thread_step env idle i s)"
proof -
  obtain m pc where t: "threads s ! i = (m, pc)" by fastforce
  then have m: "m < length (mons (mw s))" using i inv_refs(3) [OF inv] by (metis nth_mem)
  obtain pc' s1 where st: "monitor_step env idle m pc s = (pc', s1)" by fastforce
  note ms = monitor_step_inv [OF inv m st]
  let ?s = "s1\<lparr>threads := (threads s1)[i := (m, pc')]\<rparr>"
  have "live_thread m' ?s" if "m' \<in> task_map s1" for m'
  proof (rule live_thread_update [where s = s and mt = m and i = i and pc = pc and pc' = pc'])
    show "live_thread m' s" using that ms(3) inv_refs(4) [OF inv] by blast
  qed (use i t ms(2,5) that in auto)
  moreover have "refs_ok ?s"
  proof -
    have "set ((threads s1)[i := (m, pc')]) \<subseteq> insert (m, pc') (set (threads s1))" by (rule set_update_subset_insert)
    then show ?thesis using ms(1,4) m by (auto simp: msys_inv_def refs_ok_def)
  qed
  moreover have "world_ok (mw ?s)" using ms(1) by (simp add: msys_inv_def)
  ultimately have "msys_inv ?s" by (simp add: msys_inv_def)
  then show ?thesis using i t st by (simp add: thread_step_def)
qed

lemma release_stop_inv: "msys_inv s \<Longrightarrow> msys_inv (release_stop s)"
proof -
  have "keeps w (fold monitor_stop ms w)" for ms w
  proof (induction ms arbitrary: w)
    case (Cons m ms)
    have "keeps w (monitor_stop m w)" unfolding monitor_stop_def by (rule keeps_stopped)
    from mkeeps_trans [OF this Cons.IH] show ?case by simp
  qed (simp add: keeps_def)
  then show "msys_inv s \<Longrightarrow> ?thesis" unfolding release_stop_def by (simp add: inv_on_mw)
qed

lemma msys_start_inv: "msys_start s \<Longrightarrow> msys_inv s"
  by (simp add: msys_start_def msys_inv_def world_ok_def reg_ok_def own_ok_def refs_ok_def)

lemma msys_step_inv: "msys_inv s \<Longrightarrow> msys_step s s' \<Longrightarrow> msys_inv s'"
proof (erule msys_step.cases, goal_cases)
  case (1 keys sz dbc ds host t1 t2 i n d s c s')
  then show ?case using service_start_inv by metis
qed (simp_all add: service_stop_inv stop_all_inv thread_step_inv release_stop_inv)

interpretation msys: step_system msys_start msys_step msys_inv
  by unfold_locales (auto intro: msys_start_inv msys_step_inv)


section \<open>A connection can lose its monitor\<close>

text \<open>
  A monitor without contexts for its disposal time leaves its loop, and only then takes itself out
  of the registry. A connection that starts to be monitored in between finds it there, with its
  task, and no thread is started. The states of such a run, with a clock of one reading a minute.
\<close>

definition race_clock :: clock where
  "race_clock n = 60000000000 * (int n + 1)"

definition race_ctx :: "ref \<Rightarrow> bool \<Rightarrow> int \<Rightarrow> mctx" where
  "race_ctx d act t = (new_context (Some d) {''h:1''} 0 1000 3)\<lparr>start_monitor_time := t, active_context := act\<rparr>"

definition race_mon :: "data_source \<Rightarrow> bool \<Rightarrow> int \<Rightarrow> ref list \<Rightarrow> int \<Rightarrow> monitor" where
  "race_mon D st iv cs t =
     \<lparr>stopped = st, mon_host = HOST_INFO_2 ''h'' 1, connection_check_interval = iv, failure_detection_timeout = 5,
      disposal_time = 60000, contexts = cs, last_context_timestamp = t, connection_proxy = None, mon_ds = D\<rparr>"

definition race_sys :: "mctx list \<Rightarrow> monitor list \<Rightarrow> nat \<Rightarrow> bool \<Rightarrow> int \<Rightarrow> (ref \<times> mon_pc) list \<Rightarrow> msys" where
  "race_sys cs ms n mapped pool thr =
     \<lparr>mw = \<lparr>ctxs = cs, mons = ms, sockets = [], mclock = race_clock, mtick = n, opened = 0, freed = []\<rparr>,
      monitor_map = (if mapped then [''h:1'' \<mapsto> Some 0] else Map.empty), task_map = (if mapped then {0} else {}),
      available_monitors = [], pool_size = pool, threads = thr\<rparr>"

lemmas race_defs = race_sys_def race_mon_def race_ctx_def on_mw_def upd_mon_def upd_ctx_def modify_def get_current_time_def

lemma race_start1:
  assumes "ds_copy 2 (Some reset) reset = Inr D"
  shows "service_start_monitoring 2 (Some 0) True (Some reset) {''h:1''} (HOST_INFO_2 ''h'' 1) 0 5 1000 3 60000 (race_sys [] [] 0 False 0 []) =
    Inr (0, race_sys [race_ctx 0 True 60000000000] [race_mon D True 1000 [0] 60000000000] 1 True 1 [(0, Begin)])"
proof -
  have "new_monitor 2 (HOST_INFO_2 ''h'' 1) 5 60000 reset = Inr (race_mon D True MILLISECONDS_MAX [] 0)"
    using assms by (simp add: new_monitor_def race_mon_def)
  then show ?thesis
    by (simp add: service_start_monitoring_def get_or_create_monitor_def get_node_def get_available_monitor_def
        create_monitor_def populate_monitor_map_def monitor_start_monitoring_def add_task_def Let_def race_defs
        new_context_def MILLISECONDS_MAX_def race_clock_def fun_eq_iff)
qed

lemma race_begin:
  "thread_step env idle 0 (race_sys cs [race_mon D True iv cx t] n True 1 [(0, Begin)]) =
     race_sys cs [race_mon D False iv cx t] n True 1 [(0, Top)]"
  by (simp add: thread_step_def monitor_step_def race_defs)

lemma race_stop:
  "service_stop_monitoring (Some 0) (race_sys [race_ctx d True t] [race_mon D False iv [0] t'] n True 1 [(0, Top)]) =
     race_sys [race_ctx d False t] [race_mon D False MILLISECONDS_MAX [] t'] n True 1 [(0, Top)]"
  by (simp add: service_stop_monitoring_def get_node_def get_monitor_def monitor_stop_monitoring_def
      find_shortest_interval_def invalidate_def new_context_def Let_def race_defs)

lemma race_leave:
  "thread_step env idle 0 (race_sys cs [race_mon D False MILLISECONDS_MAX [] 60000000000] 1 True 1 [(0, Top)]) =
     race_sys cs [race_mon D False MILLISECONDS_MAX [] 60000000000] 2 True 1 [(0, Exit_loop)]"
  by (simp add: thread_step_def monitor_step_def run_top_def Let_def to_ms_def race_clock_def race_defs)

lemma race_start2:
  "service_start_monitoring 2 (Some 1) True (Some reset) {''h:1''} (HOST_INFO_2 ''h'' 1) 0 5 1000 3 60000
     (race_sys [c0] [race_mon D False MILLISECONDS_MAX [] t] 2 True 1 [(0, Exit_loop)]) =
   Inr (1, race_sys [c0, race_ctx 1 True 180000000000] [race_mon D False 1000 [1] 180000000000] 3 True 1 [(0, Exit_loop)])"
  by (simp add: service_start_monitoring_def get_or_create_monitor_def get_node_def get_monitor_def
      populate_monitor_map_def monitor_start_monitoring_def add_task_def Let_def race_defs
      new_context_def MILLISECONDS_MAX_def race_clock_def fun_eq_iff)

lemma race_end:
  "thread_step env False 0 (race_sys cs [race_mon D False iv cx t] n True 1 [(0, Exit_loop)]) =
     race_sys cs [race_mon D False iv cx t] n False 1 [(0, Final)]"
  "thread_step env False 0 (race_sys cs [race_mon D False iv cx t] n False 1 [(0, Final)]) =
     race_sys cs [race_mon D True iv cx t] n False 1 [(0, Finished)]"
  by (simp_all add: thread_step_def monitor_step_def notify_unused_def release_resource_def
      remove_monitor_mapping_def monitor_stop_def Let_def race_defs fun_eq_iff)

text \<open>
  C36: There is a run in which a connection has started to be monitored and is never probed: its
  context is active and registered with a monitor that has no task any more, that no node key maps
  to, and whose only thread has finished.
\<close>

theorem monitored_connection_without_monitor:
  "\<exists>s c m. reachable msys_start msys_step s \<and> c < length (ctxs (mw s)) \<and> active_context (ctxs (mw s) ! c) \<and>
     m < length (mons (mw s)) \<and> c \<in> set (contexts (mons (mw s) ! m)) \<and> m \<notin> task_map s \<and>
     (\<forall>node. monitor_map s node = None) \<and> threads s = [(m, Finished)]"
proof -
  obtain D where D: "ds_copy 2 (Some reset) reset = Inr D" using reset_copy by blast
  define env :: mon_env where "env = \<lparr>env_connected = True, env_ping = 0, env_connect = Conn_live\<rparr>"
  let ?R = "reachable msys_start msys_step"
  have "msys_start (race_sys [] [] 0 False 0 [])" by (simp add: msys_start_def race_sys_def)
  then have "?R (race_sys [] [] 0 False 0 [])" by (rule reachable.start)
  then have "?R (race_sys [race_ctx 0 True 60000000000] [race_mon D True 1000 [0] 60000000000] 1 True 1 [(0, Begin)])"
    by (rule reachable.step) (rule msys_step.start [OF _ race_start1 [OF D]], simp)
  then have "?R (race_sys [race_ctx 0 True 60000000000] [race_mon D False 1000 [0] 60000000000] 1 True 1 [(0, Top)])"
    by (rule reachable.step) (subst race_begin [symmetric, of _ _ _ _ _ _ env False], rule msys_step.thread, simp add: race_sys_def)
  then have "?R (race_sys [race_ctx 0 False 60000000000] [race_mon D False MILLISECONDS_MAX [] 60000000000] 1 True 1 [(0, Top)])"
    by (rule reachable.step) (subst race_stop [symmetric], rule msys_step.stop, simp add: race_sys_def)
  then have "?R (race_sys [race_ctx 0 False 60000000000] [race_mon D False MILLISECONDS_MAX [] 60000000000] 2 True 1 [(0, Exit_loop)])"
    by (rule reachable.step) (subst race_leave [symmetric, of _ _ env False], rule msys_step.thread, simp add: race_sys_def)
  then have "?R (race_sys [race_ctx 0 False 60000000000, race_ctx 1 True 180000000000]
      [race_mon D False 1000 [1] 180000000000] 3 True 1 [(0, Exit_loop)])"
    by (rule reachable.step) (rule msys_step.start [OF _ race_start2], simp)
  then have "?R (race_sys [race_ctx 0 False 60000000000, race_ctx 1 True 180000000000]
      [race_mon D False 1000 [1] 180000000000] 3 False 1 [(0, Final)])"
    by (rule reachable.step) (subst race_end(1) [symmetric, of _ _ _ _ _ _ env], rule msys_step.thread, simp add: race_sys_def)
  then have last: "?R (race_sys [race_ctx 0 False 60000000000, race_ctx 1 True 180000000000]
      [race_mon D True 1000 [1] 180000000000] 3 False 1 [(0, Finished)])" (is "reachable _ _ ?s")
    by (rule reachable.step) (subst race_end(2) [symmetric, of _ _ _ _ _ _ env], rule msys_step.thread, simp add: race_sys_def)
  have "1 < length (ctxs (mw ?s)) \<and> active_context (ctxs (mw ?s) ! 1) \<and> 0 < length (mons (mw ?s)) \<and>
      1 \<in> set (contexts (mons (mw ?s) ! 0)) \<and> 0 \<notin> task_map ?s \<and> (\<forall>node. monitor_map ?s node = None) \<and>
      threads ?s = [(0, Finished)]"
    by (simp add: race_sys_def race_mon_def race_ctx_def new_context_def)
  with last show ?thesis by blast
qed


end
