(* ===== verification/Efm_Proxy.thy ===== *)
theory Efm_Proxy
  imports Monitor_Service
begin

text \<open>
  Enhanced failure monitoring (\<^verbatim>\<open>driver/efm_proxy.cc\<close> over \<^verbatim>\<open>driver/connection_proxy.cc\<close>): the
  proxy that has every call to the server monitored. It delegates to the next proxy of the chain,
  whose state is the type \<open>'p\<close> and whose operations are the record \<open>proxy_ops\<close>. While a call runs,
  other connections and the monitor threads go on; the argument \<open>bg\<close> is what they do to the
  monitoring system in the meantime.
\<close>

section \<open>State\<close>

record 'p proxy_ops =
  op_is_connected :: "'p \<Rightarrow> bool"
  op_get_host :: "'p \<Rightarrow> string"
  op_get_port :: "'p \<Rightarrow> int"
  op_close_socket :: "'p \<Rightarrow> 'p"
  op_set_connection :: "'p \<Rightarrow> 'p \<Rightarrow> 'p"
  op_host_port_rows :: "'p \<Rightarrow> string option list option \<times> 'p"

record 'p efm =
  efm_dbc :: ref
  efm_has_handler :: bool
  efm_ds :: data_source
  efm_node_keys :: "string set"
  efm_service :: bool
  efm_next :: "'p option"

text \<open>The calls the proxy overrides.\<close>

datatype proxy_method =
    Set_character_set | Change_user | Real_connect | Select_db | Query | Real_query | Store_result
  | Use_result | Next_result | More_results | Stmt_next_result | Real_connect_dns_srv | Free_result
  | Fetch_row | Real_escape_string | Bind_param | Stmt_init | Stmt_prepare | Stmt_execute
  | Stmt_fetch | Stmt_fetch_column | Stmt_store_result | Stmt_bind_named_param | Stmt_bind_param
  | Stmt_bind_result | Stmt_close | Stmt_reset | Stmt_free_result | Stmt_send_long_data
  | Stmt_result_metadata

definition connects :: "proxy_method \<Rightarrow> bool" where
  "connects m \<longleftrightarrow> m = Real_connect \<or> m = Real_connect_dns_srv"

section \<open>Operations\<close>

definition new_efm :: "ref option \<Rightarrow> bool \<Rightarrow> data_source option \<Rightarrow> 'p option \<Rightarrow> bool \<Rightarrow> 'p efm res" where
  "new_efm dbc has_handler ds next_proxy has_service =
     (case dbc of
        None \<Rightarrow> Inl (Runtime_error ''DBC cannot be null.'')
      | Some d \<Rightarrow>
          (case ds of
             None \<Rightarrow> Inl (Runtime_error ''DataSource cannot be null.'')
           | Some dv \<Rightarrow> Inr \<lparr>efm_dbc = d, efm_has_handler = has_handler, efm_ds = dv, efm_node_keys = {},
                           efm_service = has_service, efm_next = next_proxy\<rparr>))"

definition detection_on :: "'p efm \<Rightarrow> bool" where
  "detection_on e \<longleftrightarrow> ds_bool (efm_ds e) ''ENABLE_FAILURE_DETECTION''"

definition detection_timeout :: "data_source \<Rightarrow> int" where
  "detection_timeout ds =
     (if ds_int ds ''FAILURE_DETECTION_TIMEOUT'' = 0
      then (if ds_int ds ''NETWORK_TIMEOUT'' = 0 then failure_detection_timeout_default else ds_int ds ''NETWORK_TIMEOUT'')
      else ds_int ds ''FAILURE_DETECTION_TIMEOUT'')"

definition efm_start_monitoring :: "nat \<Rightarrow> 'p proxy_ops \<Rightarrow> 'p efm \<Rightarrow> msys \<Rightarrow> (ref option \<times> msys) res" where
  "efm_start_monitoring sz ops e s =
     (if \<not> detection_on e then Inr (None, s)
      else
        (case efm_next e of
           None \<Rightarrow> Inl Null_deref
         | Some p \<Rightarrow>
             if \<not> efm_service e then Inl Null_deref
             else map_sum id (\<lambda>(c, s). (Some c, s))
                    (service_start_monitoring sz (Some (efm_dbc e)) (efm_has_handler e) (Some (efm_ds e)) (efm_node_keys e)
                       (HOST_INFO_2 (op_get_host ops p) (to_int32 (op_get_port ops p)))
                       (ds_int (efm_ds e) ''FAILURE_DETECTION_TIME'') (detection_timeout (efm_ds e))
                       (ds_int (efm_ds e) ''FAILURE_DETECTION_INTERVAL'') (ds_int (efm_ds e) ''FAILURE_DETECTION_COUNT'')
                       (ds_int (efm_ds e) ''MONITOR_DISPOSAL_TIME'') s)))"

definition efm_stop_monitoring :: "'p proxy_ops \<Rightarrow> ref option \<Rightarrow> 'p efm \<Rightarrow> msys \<Rightarrow> 'p efm \<times> msys" where
  "efm_stop_monitoring ops context e s =
     (case context of
        None \<Rightarrow> (e, s)
      | Some c \<Rightarrow>
          if \<not> detection_on e then (e, s)
          else
            (let s' = service_stop_monitoring (Some c) s
             in (e\<lparr>efm_next := map_option (\<lambda>p. if node_unhealthy (ctxs (mw s') ! c) \<and> op_is_connected ops p
                                             then op_close_socket ops p else p) (efm_next e)\<rparr>, s')))"

text \<open>
  The keys of the node: its host and port as the connection names them and, once connected, as the
  server names itself. During the query failure detection is off, and restored afterwards.
\<close>

definition host_port_key :: "'p proxy_ops \<Rightarrow> 'p \<Rightarrow> string" where
  "host_port_key ops p = op_get_host ops p @ '':'' @ to_string (op_get_port ops p)"

definition generate_node_keys :: "'p proxy_ops \<Rightarrow> 'p efm \<Rightarrow> 'p efm res" where
  "generate_node_keys ops e =
     (case efm_next e of
        None \<Rightarrow> Inl Null_deref
      | Some p \<Rightarrow>
          if op_is_connected ops p then
            (case op_host_port_rows ops p of
               (None, p') \<Rightarrow> Inr (e\<lparr>efm_node_keys := {host_port_key ops p}, efm_next := Some p'\<rparr>)
             | (Some rows, p') \<Rightarrow>
                 if None \<in> set rows then Inl Null_deref
                 else Inr (e\<lparr>efm_node_keys := insert (host_port_key ops p) (the ` set rows), efm_next := Some p'\<rparr>))
          else Inr (e\<lparr>efm_node_keys := {host_port_key ops p}\<rparr>))"

definition set_next_proxy :: "'p proxy_ops \<Rightarrow> 'p option \<Rightarrow> 'p efm \<Rightarrow> 'p efm res" where
  "set_next_proxy ops next_proxy e =
     (if efm_next e \<noteq> None then Inl (Runtime_error ''There is already a next proxy present!'')
      else generate_node_keys ops (e\<lparr>efm_next := next_proxy\<rparr>))"

definition efm_set_connection :: "'p proxy_ops \<Rightarrow> 'p \<Rightarrow> 'p efm \<Rightarrow> msys \<Rightarrow> ('p efm \<times> msys) res" where
  "efm_set_connection ops connection e s =
     (case efm_next e of
        None \<Rightarrow> Inl Null_deref
      | Some p \<Rightarrow>
          (let s' = (if efm_service e \<and> efm_node_keys e \<noteq> {}
                     then stop_monitoring_for_all_connections (efm_node_keys e) s else s)
           in map_sum id (\<lambda>e'. (e', s'))
                (generate_node_keys ops (e\<lparr>efm_next := Some (op_set_connection ops p connection)\<rparr>))))"

text \<open>A call: \<open>call\<close> is what the next proxy does for it.\<close>

definition efm_invoke ::
  "nat \<Rightarrow> 'p proxy_ops \<Rightarrow> (proxy_method \<Rightarrow> 'a \<Rightarrow> 'p \<Rightarrow> 'r \<times> 'p) \<Rightarrow> (msys \<Rightarrow> msys) \<Rightarrow>
   proxy_method \<Rightarrow> 'a \<Rightarrow> 'p efm \<Rightarrow> msys \<Rightarrow> ('r \<times> 'p efm \<times> msys) res" where
  "efm_invoke sz ops call bg m args e s =
     (case efm_next e of
        None \<Rightarrow> Inl Null_deref
      | Some p \<Rightarrow>
          if connects m then
            (case call m args p of (ret, p') \<Rightarrow>
               map_sum id (\<lambda>e'. (ret, e', bg s)) (generate_node_keys ops (e\<lparr>efm_next := Some p'\<rparr>)))
          else
            (case efm_start_monitoring sz ops e s of
               Inl ex \<Rightarrow> Inl ex
             | Inr (context, s1) \<Rightarrow>
                 (case call m args p of (ret, p') \<Rightarrow>
                    Inr (ret, efm_stop_monitoring ops context (e\<lparr>efm_next := Some p'\<rparr>) (bg s1)))))"

section \<open>Contexts that are no longer active\<close>

definition quiets :: "mworld \<Rightarrow> mworld \<Rightarrow> bool" where
  "quiets w w' \<longleftrightarrow> length (ctxs w) \<le> length (ctxs w') \<and>
     (\<forall>c<length (ctxs w). active_context (ctxs w' ! c) \<longrightarrow> active_context (ctxs w ! c))"

lemma quietsI: "length (ctxs w') = length (ctxs w) \<Longrightarrow> (\<And>c. active_context (ctxs w' ! c) \<Longrightarrow> active_context (ctxs w ! c)) \<Longrightarrow> quiets w w'"
  by (simp add: quiets_def)

lemma quiets_refl [simp]: "quiets w w"
  by (simp add: quiets_def)

lemma quiets_trans: "quiets w w' \<Longrightarrow> quiets w' w'' \<Longrightarrow> quiets w w''"
  unfolding quiets_def by (meson less_le_trans order_trans)

lemma quiets_same: "ctxs w' = ctxs w \<Longrightarrow> quiets w w'"
  by (simp add: quiets_def)

lemma quiets_append: "quiets w (w\<lparr>ctxs := ctxs w @ cs\<rparr>)"
  by (simp add: quiets_def nth_append)

lemma quiets_upd_ctx: "(\<And>x. active_context (f x) \<Longrightarrow> active_context x) \<Longrightarrow> quiets w (upd_ctx c f w)"
  by (cases "c < length (ctxs w)")
    (auto simp: quiets_def nth_upd_ctx split: if_splits, simp add: upd_ctx_def modify_def list_update_beyond)

lemma quiets_update_context: "quiets w (update_context t st c w)"
proof -
  have a: "active_context (fst (update_connection_status t1 t2 v (x, so))) = active_context x" for t1 t2 v x so
    by (simp add: update_connection_status_def set_connection_valid_def Let_def mark_invalid_def
        increment_failure_count_def reset_invalid_node_start_time_def)
  have "ctxs (update_context t st c w) =
      ctxs (upd_ctx c (\<lambda>x. fst (update_connection_status t (t + ns_of (snd st)) (fst st) (x, sockets w))) w)"
    by (simp add: update_context_def upd_ctx_def modify_def Let_def case_prod_unfold)
  then show ?thesis using quiets_upd_ctx a by (metis (no_types, lifting) quiets_same quiets_trans)
qed

lemma quiets_run_update: "quiets w (run_update t st m w)"
proof -
  have "quiets w' (fold (update_context t st) cs w')" for cs w'
    by (induction cs arbitrary: w') (simp, metis fold_simps(2) quiets_trans quiets_update_context)
  then show ?thesis by (simp add: run_update_def)
qed

lemma quiets_monitor_step: "quiets (mw s) (mw (snd (monitor_step env idle m pc s)))"
proof (cases pc)
  case Top
  then show ?thesis by (auto intro!: quiets_same simp: monitor_step_def run_top_def Let_def case_prod_unfold)
next
  case (Check_at t)
  then show ?thesis
    by (auto intro!: quiets_same simp: monitor_step_def run_check_def check_connection_status_def Let_def case_prod_unfold monitor_connect_reg)
qed (auto intro!: quiets_same quiets_run_update simp: monitor_step_def notify_unused_inv monitor_stop_def)

lemma quiets_stop: "quiets (mw s) (mw (service_stop_monitoring (Some c) s))"
proof -
  have i: "quiets w (upd_ctx c invalidate w)" for w by (rule quiets_upd_ctx) (simp add: invalidate_def)
  have st: "ctxs (monitor_stop_monitoring m (Some c) w) = ctxs (upd_ctx c invalidate w)" for m w
    by (simp add: monitor_stop_monitoring_def Let_def)
  have "quiets w (monitor_stop_monitoring m (Some c) (upd_ctx c invalidate w))" for m w
    using quiets_trans [OF i quiets_trans [OF i quiets_same [OF st]]] .
  with i show ?thesis by (simp add: service_stop_monitoring_def Let_def split: option.split)
qed

lemma quiets_thread: "quiets (mw s) (mw (thread_step env idle i s))"
  using quiets_monitor_step [of s env idle] by (auto simp: thread_step_def split: prod.split) (metis snd_conv)

lemma quiets_start:
  assumes "service_start_monitoring sz dbc handler ds keys host t1 t2 iv n d s = Inr (c, s')"
  shows "quiets (mw s) (mw s')"
proof -
  obtain db dv where dd: "dbc = Some db" "ds = Some dv" "keys \<noteq> {}"
    using assms by (auto simp: service_start_monitoring_def split: option.splits if_splits)
  obtain mo s1 where g: "get_or_create_monitor sz keys handler host t2 d dv s = Inr (mo, s1)"
    using assms dd by (auto simp: service_start_monitoring_def split: sum.splits)
  have "ctxs (mw s1) = ctxs (mw s)"
    using g by (cases "new_monitor sz host t2 d dv")
      (auto simp: get_or_create_monitor_def Let_def populate_monitor_map_def create_monitor_def
        get_available_monitor_def on_mw_def monitor_stop_def split: if_splits option.splits list.splits sum.splits)
  then have "quiets (mw s) ((mw s1)\<lparr>ctxs := ctxs (mw s1) @ [new_context (Some db) keys t1 iv n]\<rparr>)" (is "quiets _ ?w")
    by (simp add: quiets_def nth_append)
  moreover have "quiets ?w (monitor_start_monitoring m x ?w)" for m x
    by (simp add: quiets_def monitor_start_monitoring_def Let_def case_prod_unfold upd_ctx_field)
  ultimately have "quiets (mw s) (monitor_start_monitoring m x ?w)" for m x by (rule quiets_trans)
  then show ?thesis
    using assms dd g by (auto simp: service_start_monitoring_def Let_def add_task_def on_mw_def split: option.splits if_splits)
qed

lemma quiets_step: "msys_step s s' \<Longrightarrow> quiets (mw s) (mw s')"
proof (erule msys_step.cases, goal_cases)
  case (1 keys sz dbc ds host t1 t2 i n d s c s')
  then show ?case using quiets_start by blast
next
  case (3 s keys)
  then show ?case
    by (auto intro!: quiets_same simp: stop_monitoring_for_all_connections_def Let_def reset_resource_def
        remove_monitor_mapping_def clear_contexts_def split: option.split)
next
  case (5 s)
  have "ctxs (fold monitor_stop ms w) = ctxs w" for ms w
    by (induction ms arbitrary: w) (simp_all add: monitor_stop_def)
  with 5 show ?case by (simp add: quiets_same release_stop_def)
qed (simp_all add: quiets_stop quiets_thread)

lemma quiets_steps: "msys_step\<^sup>*\<^sup>* s s' \<Longrightarrow> quiets (mw s) (mw s')"
  by (induction rule: rtranclp_induct) (auto intro: quiets_trans quiets_step)

lemma reachable_steps: "reachable st sp s \<Longrightarrow> sp\<^sup>*\<^sup>* s s' \<Longrightarrow> reachable st sp s'"
  by (rotate_tac, induction rule: rtranclp_induct) (auto intro: reachable.step)

lemma stop_invalidates:
  assumes "c < length (ctxs (mw s))"
  shows "\<not> active_context (ctxs (mw (service_stop_monitoring (Some c) s)) ! c)"
    "length (ctxs (mw (service_stop_monitoring (Some c) s))) = length (ctxs (mw s))"
  using assms by (simp_all add: service_stop_monitoring_def Let_def monitor_stop_monitoring_def nth_upd_ctx invalidate_def split: option.split)

lemma new_monitor_total:
  assumes "\<forall>X\<in>set STR_OPTIONS_LIST. copyable sz (ds X)"
  shows "\<exists>mo. new_monitor sz host t d ds = Inr mo"
proof -
  obtain ds' where "ds_copy sz (Some ds) reset = Inr ds'" using data_source_copied [OF assms] by blast
  then show ?thesis by (simp add: new_monitor_def)
qed

lemma start_total:
  assumes inv: "msys_inv s" and fin: "finite keys" "keys \<noteq> {}"
    and "\<forall>X\<in>set STR_OPTIONS_LIST. copyable sz (ds X)"
  shows "\<exists>c s'. service_start_monitoring sz (Some dbc) True (Some ds) keys host t1 t2 iv n d s = Inr (c, s')"
proof -
  obtain mo where mo: "new_monitor sz host t2 d ds = Inr mo" using new_monitor_total [OF assms(4)] by blast
  obtain r s1 where g: "get_or_create_monitor sz keys True host t2 d ds s = Inr (r, s1)"
  proof (cases "get_available_monitor s")
    case (Pair a s0)
    then show ?thesis
      using mo by (cases "get_node keys s = []"; cases a)
        (auto simp: get_or_create_monitor_def Let_def create_monitor_def intro: that)
  qed
  from get_or_create_inv [OF inv g fin(1)] obtain m where "r = Some m" by blast
  with g fin(2) show ?thesis by (simp add: service_start_monitoring_def Let_def add_task_def)
qed

text \<open>
  C37: With failure detection on, a call returns what the next proxy returns for it. While it runs
  the connection is monitored by a context of its own, and whatever happens in the monitoring
  system afterwards, no probe changes that context or closes the socket because of it any more;
  the socket is closed once more at the end if the node was judged dead. With failure detection
  off, a call only delegates.
\<close>

theorem monitored_call:
  assumes p: "efm_next e = Some p" "call m args p = (ret, p')" "\<not> connects m"
    and e: "efm_service e" "efm_has_handler e" "finite (efm_node_keys e)" "efm_node_keys e \<noteq> {}"
      "\<forall>X\<in>set STR_OPTIONS_LIST. copyable sz (efm_ds e X)"
    and s: "reachable msys_start msys_step s" "\<forall>s. msys_step\<^sup>*\<^sup>* s (bg s)"
  shows "(detection_on e \<longrightarrow>
      (\<exists>c s1 s2. efm_start_monitoring sz ops e s = Inr (Some c, s1) \<and> active_context (ctxs (mw s1) ! c) \<and>
         connection_to_abort (ctxs (mw s1) ! c) = Some (efm_dbc e) \<and> c = length (ctxs (mw s)) \<and>
         efm_invoke sz ops call bg m args e s =
           Inr (ret, e\<lparr>efm_next := Some (if node_unhealthy (ctxs (mw s2) ! c) \<and> op_is_connected ops p' then op_close_socket ops p' else p')\<rparr>, s2) \<and>
         (\<forall>s3 t1 t2 v so. msys_step\<^sup>*\<^sup>* s2 s3 \<longrightarrow>
            update_connection_status t1 t2 v (ctxs (mw s3) ! c, so) = (ctxs (mw s3) ! c, so)))) \<and>
    (\<not> detection_on e \<longrightarrow> efm_invoke sz ops call bg m args e s = Inr (ret, e\<lparr>efm_next := Some p'\<rparr>, bg s))"
proof (intro conjI impI)
  assume on: "detection_on e"
  have inv: "msys_inv s" using s(1) by (rule msys.reachable_inv)
  let ?start = "service_start_monitoring sz (Some (efm_dbc e)) True (Some (efm_ds e)) (efm_node_keys e)
     (HOST_INFO_2 (op_get_host ops p) (to_int32 (op_get_port ops p))) (ds_int (efm_ds e) ''FAILURE_DETECTION_TIME'')
     (detection_timeout (efm_ds e)) (ds_int (efm_ds e) ''FAILURE_DETECTION_INTERVAL'')
     (ds_int (efm_ds e) ''FAILURE_DETECTION_COUNT'') (ds_int (efm_ds e) ''MONITOR_DISPOSAL_TIME'') s"
  obtain c s1 where st: "?start = Inr (c, s1)" using start_total [OF inv e(3,4,5)] by blast
  from service_start_inv [OF inv e(3) st] have c: "c = length (ctxs (mw s))" "c < length (ctxs (mw s1))"
    "active_context (ctxs (mw s1) ! c)" "connection_to_abort (ctxs (mw s1) ! c) = Some (efm_dbc e)" by metis+
  have start: "efm_start_monitoring sz ops e s = Inr (Some c, s1)"
    using on p e st by (simp add: efm_start_monitoring_def)
  define s2 where "s2 = service_stop_monitoring (Some c) (bg s1)"
  have "c < length (ctxs (mw (bg s1)))" using c(2) s(2) quiets_steps [of s1 "bg s1"] by (auto simp: quiets_def)
  then have quiet: "c < length (ctxs (mw s2))" "\<not> active_context (ctxs (mw s2) ! c)"
    using stop_invalidates [of c "bg s1"] by (simp_all add: s2_def)
  have "\<not> active_context (ctxs (mw s3) ! c)" if "msys_step\<^sup>*\<^sup>* s2 s3" for s3
    using quiets_steps [OF that] quiet by (auto simp: quiets_def)
  then have "update_connection_status t1 t2 v (ctxs (mw s3) ! c, so) = (ctxs (mw s3) ! c, so)"
    if "msys_step\<^sup>*\<^sup>* s2 s3" for s3 t1 t2 v so
    using that by (simp add: update_connection_status_def)
  moreover have "efm_invoke sz ops call bg m args e s =
      Inr (ret, e\<lparr>efm_next := Some (if node_unhealthy (ctxs (mw s2) ! c) \<and> op_is_connected ops p' then op_close_socket ops p' else p')\<rparr>, s2)"
    using on p start by (simp add: efm_invoke_def efm_stop_monitoring_def detection_on_def s2_def Let_def)
  ultimately show "\<exists>c s1 s2. efm_start_monitoring sz ops e s = Inr (Some c, s1) \<and> active_context (ctxs (mw s1) ! c) \<and>
         connection_to_abort (ctxs (mw s1) ! c) = Some (efm_dbc e) \<and> c = length (ctxs (mw s)) \<and>
         efm_invoke sz ops call bg m args e s =
           Inr (ret, e\<lparr>efm_next := Some (if node_unhealthy (ctxs (mw s2) ! c) \<and> op_is_connected ops p' then op_close_socket ops p' else p')\<rparr>, s2) \<and>
         (\<forall>s3 t1 t2 v so. msys_step\<^sup>*\<^sup>* s2 s3 \<longrightarrow>
            update_connection_status t1 t2 v (ctxs (mw s3) ! c, so) = (ctxs (mw s3) ! c, so))"
    using start c by blast
next
  assume "\<not> detection_on e"
  then show "efm_invoke sz ops call bg m args e s = Inr (ret, e\<lparr>efm_next := Some p'\<rparr>, bg s)"
    using p by (simp add: efm_invoke_def efm_start_monitoring_def efm_stop_monitoring_def)
qed

theorem monitored_call_witness:
  "\<exists>s2 e'. efm_invoke 2 \<lparr>op_is_connected = \<lambda>_. True, op_get_host = \<lambda>_. ''h'', op_get_port = \<lambda>_. 1, op_close_socket = id,
       op_set_connection = \<lambda>_ q. q, op_host_port_rows = \<lambda>q. (Some [], q)\<rparr> (\<lambda>_ _ q. (7 :: nat, Suc q)) id Query ''SELECT 1''
      \<lparr>efm_dbc = 0, efm_has_handler = True, efm_ds = reset, efm_node_keys = {''h:1''}, efm_service = True, efm_next = Some 0\<rparr>
      (race_sys [] [] 0 False 0 []) = Inr (7, e', s2) \<and> efm_next e' = Some 1"
proof -
  let ?ops = "\<lparr>op_is_connected = \<lambda>_. True, op_get_host = \<lambda>_. ''h'', op_get_port = \<lambda>_. 1, op_close_socket = id,
       op_set_connection = \<lambda>_ q. q, op_host_port_rows = \<lambda>q. (Some [], q)\<rparr> :: nat proxy_ops"
  let ?e = "\<lparr>efm_dbc = 0, efm_has_handler = True, efm_ds = reset, efm_node_keys = {''h:1''}, efm_service = True, efm_next = Some (0 :: nat)\<rparr>"
  have r: "reachable msys_start msys_step (race_sys [] [] 0 False 0 [])"
    by (rule reachable.start) (simp add: msys_start_def race_sys_def)
  have "ds_bool reset ''ENABLE_FAILURE_DETECTION''" by (simp add: ds_bool_def reset_def set_default_val_def)
  then have on: "detection_on ?e" by (simp add: detection_on_def)
  note monitored_call [where e = ?e and p = 0 and call = "\<lambda>_ _ q. (7 :: nat, Suc q)" and ret = 7 and p' = 1 and bg = id and
      s = "race_sys [] [] 0 False 0 []" and m = Query and args = "''SELECT 1''" and sz = 2 and ops = ?ops, THEN conjunct1]
  from this [OF _ _ _ _ _ _ _ _ r] on reset_copyable [where sz = 2] show ?thesis by (auto simp: connects_def)
qed
end
