(* ===== verification/Host_List.thy ===== *)
theory Host_List
  imports Connection_String Host_Info
begin

text \<open>
  Lists of hosts (\<^verbatim>\<open>parse_host_list\<close> and \<^verbatim>\<open>get_host_info_from_ds\<close> of \<^verbatim>\<open>driver/connect.cc\<close>):
  hosts separated by commas, each with an optional port after a colon.
\<close>

section \<open>The library functions\<close>

definition find_first_of :: "char set \<Rightarrow> string \<Rightarrow> nat \<Rightarrow> nat option" where
  "find_first_of cs s i =
     (let k = i + length (takeWhile (\<lambda>c. c \<notin> cs) (drop i s)) in if k < length s then Some k else None)"

lemma find_first_of_bounds: "find_first_of cs s i = Some k \<Longrightarrow> i \<le> k \<and> k < length s"
  by (auto simp: find_first_of_def Let_def split: if_splits)

text \<open>\<^verbatim>\<open>substr(i, f - i)\<close>, where \<open>None\<close> is \<^verbatim>\<open>npos\<close>.\<close>

definition substr :: "string \<Rightarrow> nat \<Rightarrow> nat option \<Rightarrow> string" where
  "substr s i f = (case f of Some k \<Rightarrow> take (k - i) (drop i s) | None \<Rightarrow> drop i s)"

section \<open>Parsing\<close>

type_synonym srv_host = "string \<times> int"

definition bad_port :: "string \<Rightarrow> bool" where
  "bad_port tmp_port \<longleftrightarrow> (atol tmp_port = 0 \<and> length tmp_port = 0) \<or> atol tmp_port > 65535 \<or> atol tmp_port < 0"

text \<open>The loop from \<open>pos_i\<close> on; an error is the thrown string.\<close>

function host_loop :: "string \<Rightarrow> int \<Rightarrow> nat \<Rightarrow> srv_host list \<Rightarrow> string + srv_host list" where
  "host_loop hosts default_port pos_i list =
     (let pos_f = find_first_of {CHR '','', CHR '':''} hosts pos_i;
          name = substr hosts pos_i pos_f
      in case pos_f of
           None \<Rightarrow> Inr (list @ [(name, default_port)])
         | Some f \<Rightarrow>
             if hosts ! f = CHR '':'' then
               (let pos_g = find_first_of {CHR '',''} hosts (f + 1);
                    tmp_port = substr hosts (f + 1) pos_g
                in if bad_port tmp_port then Inl (''Invalid port value in '' @ hosts)
                   else
                     (case pos_g of
                        None \<Rightarrow> Inr (list @ [(name, atol tmp_port)])
                      | Some g \<Rightarrow> if g < length hosts then host_loop hosts default_port (g + 1) (list @ [(name, atol tmp_port)])
                                 else Inr (list @ [(name, atol tmp_port)])))
             else if f < length hosts then host_loop hosts default_port (f + 1) (list @ [(name, default_port)])
             else Inr (list @ [(name, default_port)]))"
  by pat_completeness auto
termination
  by (relation "measure (\<lambda>(h, d, i, l). Suc (length h) - i)") (auto dest!: find_first_of_bounds [OF sym])

declare host_loop.simps [simp del]

definition parse_host_list :: "string option \<Rightarrow> int \<Rightarrow> string + srv_host list" where
  "parse_host_list hosts_str default_port = host_loop (case hosts_str of Some h \<Rightarrow> h | None \<Rightarrow> []) default_port 0 []"

definition get_host_info_from_ds :: "data_source \<Rightarrow> host_info res" where
  "get_host_info_from_ds ds =
     (case parse_host_list (ds_str ds ''SERVER'') (ds_int ds ''PORT'' mod 2 ^ 32) of
        Inl _ \<Rightarrow> Inl (Runtime_error (''Invalid server '' @ CHR 0x27 # (case ds_str ds ''SERVER'' of Some h \<Rightarrow> h | None \<Rightarrow> []) @ CHR 0x27 # ''.''))
      | Inr [] \<Rightarrow> Inl (Runtime_error ''No host was retrieved from the data source.'')
      | Inr ((name, port) # _) \<Rightarrow> Inr (HOST_INFO_2 name (to_int32 port)))"

section \<open>The reference\<close>

fun split_on :: "char \<Rightarrow> string \<Rightarrow> string list" where
  "split_on c [] = [[]]"
| "split_on c (x # xs) = (if x = c then [] # split_on c xs else (x # hd (split_on c xs)) # tl (split_on c xs))"

definition host_name :: "string \<Rightarrow> string" where
  "host_name seg = takeWhile (\<lambda>c. c \<noteq> CHR '':'') seg"

definition port_text :: "string \<Rightarrow> string option" where
  "port_text seg = (if CHR '':'' \<in> set seg then Some (tl (dropWhile (\<lambda>c. c \<noteq> CHR '':'') seg)) else None)"

definition host_entry :: "int \<Rightarrow> string \<Rightarrow> srv_host" where
  "host_entry default_port seg = (host_name seg, case port_text seg of Some t \<Rightarrow> atol t | None \<Rightarrow> default_port)"

definition entry_ok :: "string \<Rightarrow> bool" where
  "entry_ok seg \<longleftrightarrow> (case port_text seg of Some t \<Rightarrow> t \<noteq> [] \<and> 0 \<le> atol t \<and> atol t \<le> 65535 | None \<Rightarrow> True)"

lemma entry_ok_bad: "entry_ok seg \<longleftrightarrow> (case port_text seg of Some t \<Rightarrow> \<not> bad_port t | None \<Rightarrow> True)"
  by (auto simp: entry_ok_def bad_port_def atol_def is_c_digit_def digits_value_def split: option.splits)

lemma split_on_end: "c \<notin> set a \<Longrightarrow> split_on c a = [a]"
  by (induction a) auto

lemma split_on_sep: "c \<notin> set a \<Longrightarrow> split_on c (a @ c # b) = a # split_on c b"
  by (induction a) auto

lemma find_first_of_None: "find_first_of cs s i = None \<longleftrightarrow> set (drop i s) \<inter> cs = {}"
proof -
  have "set (drop i s) \<inter> cs = {} \<longleftrightarrow> takeWhile (\<lambda>c. c \<notin> cs) (drop i s) = drop i s"
    by (auto simp: takeWhile_eq_all_conv)
  also have "\<dots> \<longleftrightarrow> length (takeWhile (\<lambda>c. c \<notin> cs) (drop i s)) = length s - i"
    by (metis length_drop takeWhile_eq_take take_all order_refl)
  finally show ?thesis
    using length_takeWhile_le [of "\<lambda>c. c \<notin> cs" "drop i s"] by (auto simp: find_first_of_def Let_def)
qed

lemma find_first_of_append:
  assumes "set a \<inter> cs = {}" "c \<in> cs"
  shows "find_first_of cs (pre @ a @ c # b) (length pre) = Some (length pre + length a)"
proof -
  have "takeWhile (\<lambda>c. c \<notin> cs) (a @ c # b) = a" using assms by (subst takeWhile_append2) auto
  then show ?thesis by (simp add: find_first_of_def)
qed

lemma split_port:
  assumes "CHR '':'' \<notin> set n"
  shows "host_name (n @ CHR '':'' # t) = n" "port_text (n @ CHR '':'' # t) = Some t"
proof -
  have "takeWhile (\<lambda>c. c \<noteq> CHR '':'') (n @ CHR '':'' # t) = n" "dropWhile (\<lambda>c. c \<noteq> CHR '':'') (n @ CHR '':'' # t) = CHR '':'' # t"
    using assms by (subst takeWhile_append2 dropWhile_append2; auto)+
  then show "host_name (n @ CHR '':'' # t) = n" "port_text (n @ CHR '':'' # t) = Some t"
    by (simp_all add: host_name_def port_text_def)
qed

text \<open>One entry, followed by others or at the end.\<close>

lemma host_loop_sep:
  assumes "CHR '','' \<notin> set seg"
  shows "host_loop (pre @ seg @ CHR '','' # b) d (length pre) l =
    (if entry_ok seg then host_loop (pre @ seg @ CHR '','' # b) d (length (pre @ seg @ [CHR '','']) ) (l @ [host_entry d seg])
     else Inl (''Invalid port value in '' @ pre @ seg @ CHR '','' # b))"
proof (cases "CHR '':'' \<in> set seg")
  case True
  then obtain n t where seg: "seg = n @ CHR '':'' # t" "CHR '':'' \<notin> set n" by (metis split_list_first)
  have 1: "find_first_of {CHR '','', CHR '':''} (pre @ seg @ CHR '','' # b) (length pre) = Some (length pre + length n)"
    using find_first_of_append [of n "{CHR '','', CHR '':''}" "CHR '':''" pre "t @ CHR '','' # b"] seg assms by auto
  have 2: "find_first_of {CHR '',''} (pre @ seg @ CHR '','' # b) (Suc (length pre + length n)) = Some (Suc (length pre + length n + length t))"
    using find_first_of_append [of t "{CHR '',''}" "CHR '',''" "pre @ n @ [CHR '':'']" b] seg assms by auto
  have "host_name seg = n" "port_text seg = Some t" using split_port seg by simp_all
  then show ?thesis using 1 2 seg
    by (subst host_loop.simps) (simp add: Let_def substr_def nth_append host_entry_def entry_ok_bad add.assoc)
next
  case False
  have 1: "find_first_of {CHR '','', CHR '':''} (pre @ seg @ CHR '','' # b) (length pre) = Some (length pre + length seg)"
    using find_first_of_append [of seg "{CHR '','', CHR '':''}" "CHR '',''" pre b] False assms by auto
  have "host_name seg = seg" "port_text seg = None"
    using False by (auto simp: host_name_def port_text_def)
  then show ?thesis using 1
    by (subst host_loop.simps) (simp add: Let_def substr_def nth_append host_entry_def entry_ok_bad)
qed

lemma host_loop_end:
  assumes "CHR '','' \<notin> set seg"
  shows "host_loop (pre @ seg) d (length pre) l =
    (if entry_ok seg then Inr (l @ [host_entry d seg]) else Inl (''Invalid port value in '' @ pre @ seg))"
proof (cases "CHR '':'' \<in> set seg")
  case True
  then obtain n t where seg: "seg = n @ CHR '':'' # t" "CHR '':'' \<notin> set n" by (metis split_list_first)
  have 1: "find_first_of {CHR '','', CHR '':''} (pre @ seg) (length pre) = Some (length pre + length n)"
    using find_first_of_append [of n "{CHR '','', CHR '':''}" "CHR '':''" pre t] seg assms by auto
  have 2: "find_first_of {CHR '',''} (pre @ seg) (Suc (length pre + length n)) = None"
    using seg assms by (simp add: find_first_of_None)
  have "host_name seg = n" "port_text seg = Some t" using split_port seg by simp_all
  then show ?thesis using 1 2 seg
    by (subst host_loop.simps) (simp add: Let_def substr_def nth_append host_entry_def entry_ok_bad)
next
  case False
  have 1: "find_first_of {CHR '','', CHR '':''} (pre @ seg) (length pre) = None"
    using False assms by (auto simp: find_first_of_None)
  have "host_name seg = seg" "port_text seg = None"
    using False by (auto simp: host_name_def port_text_def)
  then show ?thesis using 1
    by (subst host_loop.simps) (simp add: Let_def substr_def host_entry_def entry_ok_bad)
qed

lemma host_loop_correct:
  "host_loop (pre @ rest) d (length pre) l =
     (if list_all entry_ok (split_on CHR '','' rest) then Inr (l @ map (host_entry d) (split_on CHR '','' rest))
      else Inl (''Invalid port value in '' @ pre @ rest))"
proof (induction "length rest" arbitrary: rest pre l rule: less_induct)
  case less
  show ?case
  proof (cases "CHR '','' \<in> set rest")
    case True
    then obtain seg b where r: "rest = seg @ CHR '','' # b" "CHR '','' \<notin> set seg" by (metis split_list_first)
    have "host_loop ((pre @ seg @ [CHR '','']) @ b) d (length (pre @ seg @ [CHR '',''])) (l @ [host_entry d seg]) =
      (if list_all entry_ok (split_on CHR '','' b) then Inr ((l @ [host_entry d seg]) @ map (host_entry d) (split_on CHR '','' b))
       else Inl (''Invalid port value in '' @ (pre @ seg @ [CHR '','']) @ b))"
      by (rule less) (simp add: r)
    then show ?thesis using host_loop_sep [OF r(2), of pre b d l] r by (simp add: split_on_sep)
  next
    case False
    then show ?thesis using host_loop_end [OF False, of pre d l] by (simp add: split_on_end)
  qed
qed


text \<open>What this means for a list of names and ports, and for an address of IPv6, whose name is lost.\<close>

lemma ipv6_server_lost:
  "parse_host_list (Some ''2001:db8::1'') 3306 = Inr [(''2001'', 0)]"
  "parse_host_list (Some ''::1'') 3306 = Inr [([], 0)]"
  using host_loop_correct [of "[]"]
  by (simp_all add: parse_host_list_def host_entry_def host_name_def port_text_def entry_ok_bad bad_port_def
      atol_def is_c_space_def is_c_digit_def digits_value_def)
end
