(* ===== verification/Failover_Handler.thy ===== *)
theory Failover_Handler
  imports Topology_Service Host_List Failover_Writer Monitor_Context
begin

text \<open>
  The failover handler of a connection (\<^verbatim>\<open>driver/failover_handler.cc\<close>, with
  \<^verbatim>\<open>update_connection\<close> of \<^verbatim>\<open>driver/connection_handler.cc\<close>): it finds out which cluster a
  connection belongs to, connects to the right writer, and decides what a failed statement leads
  to. Its state holds the topology service and its world, and of the connection handle
  (\<^verbatim>\<open>DBC\<close>) what the handler reads: the connection in use, the login timeout, and whether a
  transaction is open.

  Arguments of the operations: \<open>exec\<close> answers the topology query, \<open>read_only\<close> the query whether the
  server is read-only (its first row, or nothing), \<open>resolve\<close> is the resolver's list of addresses of
  a host, \<open>do_connect\<close> is \<^verbatim>\<open>DBC::connect\<close>: the return code and the connection for a data source
  and the flag whether failover is enabled.
\<close>

section \<open>State\<close>

datatype fh_metric =
    M_invalid_initial_connection bool
  | M_cluster_id string
  | M_failure_detection_time int
  | M_reader_failover_time int
  | M_writer_failover_time int
  | M_failover_connects bool

record fh =
  fh_ds :: data_source
  fh_svc :: tsvc
  fh_w :: world
  fh_current_host :: "ref option"
  fh_current_topology :: "ref option"
  fh_cluster_id :: string
  m_is_rds :: bool
  m_is_rds_proxy :: bool
  m_is_rds_custom_cluster :: bool
  m_is_cluster_topology_available :: bool
  is_cluster_info_initialized :: bool
  fh_strict_reader :: bool
  fh_pool_size :: int
  fh_invoke_start :: int
  fh_failover_start :: int
  fh_metrics :: "fh_metric list"
  fh_sh :: shared
  fh_conn :: "conn option"
  fh_login_timeout :: int
  fh_autocommit :: bool
  fh_transaction_open :: bool

definition fh_metric :: "fh_metric \<Rightarrow> fh \<Rightarrow> fh" where
  "fh_metric m h = h\<lparr>fh_metrics := fh_metrics h @ [m]\<rparr>"

text \<open>\<^verbatim>\<open>myodbc_strcasecmp\<close>, true when the strings are equal; a null pointer equals only a null pointer.\<close>

definition myodbc_strcaseeq :: "string option \<Rightarrow> string option \<Rightarrow> bool" where
  "myodbc_strcaseeq s t \<longleftrightarrow> map_option (map to_lower) s = map_option (map to_lower) t"

definition is_failover_mode :: "string \<Rightarrow> data_source \<Rightarrow> bool" where
  "is_failover_mode expected_mode ds \<longleftrightarrow> myodbc_strcaseeq (Some expected_mode) (ds_str ds ''FAILOVER_MODE'')"

definition new_failover_handler ::
  "bool \<Rightarrow> data_source option \<Rightarrow> tsvc option \<Rightarrow> world \<Rightarrow> shared \<Rightarrow> conn option \<Rightarrow> int \<Rightarrow> bool \<Rightarrow> bool \<Rightarrow> fh res" where
  "new_failover_handler dbc ds svc w sh0 conn login_timeout autocommit transaction_open =
     (if \<not> dbc then Inl (Runtime_error ''DBC cannot be null.'')
      else
        (case ds of
           None \<Rightarrow> Inl (Runtime_error ''DataSource cannot be null.'')
         | Some ds \<Rightarrow>
             (case svc of
                None \<Rightarrow> Inl Null_deref
              | Some svc \<Rightarrow>
                  Inr \<lparr>fh_ds = ds, fh_svc = set_refresh_rate (ds_int ds ''TOPOLOGY_REFRESH_RATE'') svc,
                       fh_w = set_gather_metric (ds_bool ds ''GATHER_PERF_METRICS'') w,
                       fh_current_host = None, fh_current_topology = None, fh_cluster_id = ''no_id'',
                       m_is_rds = False, m_is_rds_proxy = False, m_is_rds_custom_cluster = False,
                       m_is_cluster_topology_available = False, is_cluster_info_initialized = False,
                       fh_strict_reader = is_failover_mode ''STRICT READER'' ds, fh_pool_size = 0,
                       fh_invoke_start = 0, fh_failover_start = 0, fh_metrics = [], fh_sh = sh0, fh_conn = conn,
                       fh_login_timeout = login_timeout, fh_autocommit = autocommit, fh_transaction_open = transaction_open\<rparr>)))"

section \<open>Which cluster the connection belongs to\<close>

definition is_failover_enabled :: "fh \<Rightarrow> bool" where
  "is_failover_enabled h \<longleftrightarrow>
     ds_bool (fh_ds h) ''ENABLE_CLUSTER_FAILOVER'' \<and> m_is_cluster_topology_available h \<and> \<not> m_is_rds_proxy h"

definition fh_set_cluster_id :: "string \<Rightarrow> fh \<Rightarrow> fh" where
  "fh_set_cluster_id cid h =
     (case Topology_Service.set_cluster_id cid (fh_svc h) (fh_w h) of
        (svc, w) \<Rightarrow> fh_metric (M_cluster_id cid) (h\<lparr>fh_cluster_id := cid, fh_svc := svc, fh_w := w\<rparr>))"

definition set_cluster_id_port :: "string \<Rightarrow> int \<Rightarrow> fh \<Rightarrow> fh" where
  "set_cluster_id_port host port h = fh_set_cluster_id (host @ '':'' @ to_string port) h"

definition set_template :: "string \<Rightarrow> int \<Rightarrow> fh \<Rightarrow> fh" where
  "set_template host port h =
     (case alloc (HOST_INFO_2 host port) (hosts (fh_w h)) of
        (r, hs) \<Rightarrow> h\<lparr>fh_svc := set_cluster_instance_template r (fh_svc h), fh_w := (fh_w h)\<lparr>hosts := hs\<rparr>\<rparr>)"

definition initialize_topology :: "conn exec \<Rightarrow> fh \<Rightarrow> fh res" where
  "initialize_topology exec h =
     (case get_topology exec (fh_svc h) (fh_conn h) False (fh_w h) of
        Inl e \<Rightarrow> Inl e
      | Inr (t, w) \<Rightarrow>
          (let h = h\<lparr>fh_w := w, fh_current_topology := t\<rparr>
           in case t of
                None \<Rightarrow> Inr h
              | Some r \<Rightarrow>
                  (let n = total_hosts (topos w ! r);
                       h = h\<lparr>m_is_cluster_topology_available := n > 0\<rparr>
                   in Inr (if is_failover_enabled h then h\<lparr>fh_pool_size := int n\<rparr> else h))))"

text \<open>A string option, empty when it is null.\<close>

definition ds_text :: "data_source \<Rightarrow> string \<Rightarrow> string" where
  "ds_text ds X = (case ds_str ds X of Some s \<Rightarrow> s | None \<Rightarrow> [])"

definition set_configured_id :: "fh \<Rightarrow> fh" where
  "set_configured_id h =
     (if ds_text (fh_ds h) ''CLUSTER_ID'' \<noteq> [] then fh_set_cluster_id (ds_text (fh_ds h) ''CLUSTER_ID'') h else h)"

subsection \<open>With a host pattern\<close>

definition invalid_pattern :: "string \<Rightarrow> string \<Rightarrow> exc" where
  "invalid_pattern p why = Runtime_error (''Invalid host pattern: '' @ CHR 0x27 # p @ CHR 0x27 # why)"

definition ERR_NO_PLACEHOLDER :: "string \<Rightarrow> exc" where
  "ERR_NO_PLACEHOLDER p = invalid_pattern p
     '' - the host pattern must contain a '?' character as a placeholder for the DB instance identifiers  of the cluster instances''"

definition ERR_PROXY_PATTERN :: exc where
  "ERR_PROXY_PATTERN =
     Runtime_error ''RDS Proxy url can't be used as an instance pattern.''"

definition ERR_CUSTOM_PATTERN :: exc where
  "ERR_CUSTOM_PATTERN =
     Runtime_error ''RDS Custom Cluster endpoint can't be used as an instance pattern.''"

definition ERR_IP_ADDRESS :: exc where
  "ERR_IP_ADDRESS =
     Runtime_error ''Host Pattern configuration setting is required when IP address is used to connect to a cluster that provides topology information. If you would instead like to connect without failover functionality, set the 'Disable Cluster Failover' configuration property to true.''"

definition ERR_CUSTOM_DOMAIN :: exc where
  "ERR_CUSTOM_DOMAIN =
     Runtime_error ''The provided host appears to be a custom domain. The driver requires the Host Pattern configuration setting to be set for custom domains. If you would instead like to connect without  failover functionality, set the 'Disable Cluster Failover' configuration property to true.''"

definition ERR_NOT_AURORA :: exc where
  "ERR_NOT_AURORA =
     Runtime_error ''The provided host does not appear to match an expected Aurora DNS pattern. Please set the Host Pattern configuration to specify the host pattern for the cluster you are trying to connect to.''"

definition pattern_hosts :: "string \<Rightarrow> int \<Rightarrow> (string \<times> int) res" where
  "pattern_hosts hp_str port =
     (case parse_host_list (Some hp_str) port of
        Inl _ \<Rightarrow> Inl (invalid_pattern hp_str '' - the value could not be parsed'')
      | Inr [] \<Rightarrow> Inl (Runtime_error ''Empty host pattern.'')
      | Inr (p # _) \<Rightarrow> Inr p)"

definition init_from_pattern :: "conn exec \<Rightarrow> string \<Rightarrow> fh \<Rightarrow> fh res" where
  "init_from_pattern exec hp_str h =
     (case pattern_hosts hp_str ((if m_is_default (fh_ds h ''PORT'') then 3306 else ds_int (fh_ds h) ''PORT'') mod 2 ^ 32) of
        Inl e \<Rightarrow> Inl e
      | Inr (host_pattern, port) \<Rightarrow>
          if \<not> is_dns_pattern_valid host_pattern
          then Inl (ERR_NO_PLACEHOLDER host_pattern)
          else
            (let h = (set_template host_pattern (to_int32 port) h)
                       \<lparr>m_is_rds := is_rds_dns host_pattern, m_is_rds_proxy := is_rds_proxy_dns host_pattern,
                        m_is_rds_custom_cluster := is_rds_custom_cluster_dns host_pattern\<rparr>
             in if m_is_rds_proxy h then Inl ERR_PROXY_PATTERN
                else if m_is_rds_custom_cluster h then Inl ERR_CUSTOM_PATTERN
                else
                  initialize_topology exec
                    (if ds_text (fh_ds h) ''CLUSTER_ID'' \<noteq> [] then set_configured_id h
                     else if m_is_rds h \<and> get_rds_cluster_host_url host_pattern \<noteq> []
                     then set_cluster_id_port (get_rds_cluster_host_url host_pattern) (to_int32 port) h
                     else h)))"

subsection \<open>Without one\<close>

definition init_from_ip :: "conn exec \<Rightarrow> fh \<Rightarrow> fh res" where
  "init_from_ip exec h =
     (case initialize_topology exec (set_configured_id h) of
        Inl e \<Rightarrow> Inl e
      | Inr h \<Rightarrow>
          if m_is_cluster_topology_available h
          then Inl ERR_IP_ADDRESS
          else Inr (h\<lparr>m_is_rds := False, m_is_rds_proxy := False\<rparr>))"

definition init_from_custom_domain :: "conn exec \<Rightarrow> string \<Rightarrow> int \<Rightarrow> fh \<Rightarrow> fh res" where
  "init_from_custom_domain exec main_host main_port h =
     (case initialize_topology exec (set_configured_id (set_template main_host main_port h)) of
        Inl e \<Rightarrow> Inl e
      | Inr h \<Rightarrow>
          if m_is_cluster_topology_available h
          then Inl ERR_CUSTOM_DOMAIN
          else Inr h)"

definition init_from_rds :: "conn exec \<Rightarrow> string \<Rightarrow> int \<Rightarrow> fh \<Rightarrow> fh res" where
  "init_from_rds exec main_host main_port h =
     (if get_rds_instance_host_pattern main_host = []
      then Inl ERR_NOT_AURORA
      else
        (let h = set_template (get_rds_instance_host_pattern main_host) main_port h
         in initialize_topology exec
              (if ds_text (fh_ds h) ''CLUSTER_ID'' \<noteq> [] then set_configured_id h
               else if m_is_rds_proxy h then set_cluster_id_port main_host main_port h
               else if get_rds_cluster_host_url main_host \<noteq> []
               then set_cluster_id_port (get_rds_cluster_host_url main_host) main_port h
               else set_cluster_id_port main_host main_port h)))"

definition init_cluster_info :: "conn exec \<Rightarrow> fh \<Rightarrow> fh res" where
  "init_cluster_info exec h =
     (if is_cluster_info_initialized h then Inr h
      else
        (case get_host_info_from_ds (fh_ds h) of
           Inl e \<Rightarrow> Inl e
         | Inr hi \<Rightarrow>
             (let (r, hs) = alloc hi (hosts (fh_w h));
                  h = h\<lparr>fh_w := (fh_w h)\<lparr>hosts := hs\<rparr>, fh_current_host := Some r\<rparr>;
                  main_host = h_host hi; main_port = h_port hi
              in map_sum id (is_cluster_info_initialized_update (\<lambda>_. True))
                   (if ds_text (fh_ds h) ''HOST_PATTERN'' \<noteq> []
                    then init_from_pattern exec (ds_text (fh_ds h) ''HOST_PATTERN'') h
                    else if is_ipv4 main_host \<or> is_ipv6 main_host then init_from_ip exec h
                    else
                      (let h = h\<lparr>m_is_rds := is_rds_dns main_host, m_is_rds_proxy := is_rds_proxy_dns main_host\<rparr>
                       in if \<not> m_is_rds h then init_from_custom_domain exec main_host main_port h
                          else init_from_rds exec main_host main_port h)))))"

section \<open>Connecting to the right writer\<close>

text \<open>
  \<^verbatim>\<open>to_sqlwchar_string\<close>: UTF-8 to UTF-16 by the standard library, which refuses anything that is
  not well-formed with a \<^verbatim>\<open>std::range_error\<close>.
\<close>

definition utf8_tail :: "nat \<Rightarrow> bool" where
  "utf8_tail b \<longleftrightarrow> 0x80 \<le> b \<and> b < 0xc0"

fun from_bytes :: "nat list \<Rightarrow> wstr option" where
  "from_bytes [] = Some []"
| "from_bytes (b # bs) =
     (if b < 0x80 then map_option ((#) b) (from_bytes bs)
      else if b < 0xc2 then None
      else if b < 0xe0 then
        (case bs of
           c # r \<Rightarrow> if utf8_tail c then map_option ((#) ((b - 0xc0) * 64 + (c - 0x80))) (from_bytes r) else None
         | _ \<Rightarrow> None)
      else if b < 0xf0 then
        (case bs of
           c # d # r \<Rightarrow>
             (let u = (b - 0xe0) * 4096 + (c - 0x80) * 64 + (d - 0x80)
              in if utf8_tail c \<and> utf8_tail d \<and> u \<ge> 0x800 \<and> \<not> (0xd800 \<le> u \<and> u < 0xe000)
                 then map_option ((#) u) (from_bytes r) else None)
         | _ \<Rightarrow> None)
      else
        (case bs of
           c # d # e # r \<Rightarrow>
             (let u = (b - 0xf0) * 262144 + (c - 0x80) * 4096 + (d - 0x80) * 64 + (e - 0x80)
              in if utf8_tail c \<and> utf8_tail d \<and> utf8_tail e \<and> 0x10000 \<le> u \<and> u \<le> 0x10ffff
                 then map_option (\<lambda>w. (0xd800 + (u - 0x10000) div 1024) # (0xdc00 + (u - 0x10000) mod 1024) # w) (from_bytes r)
                 else None)
         | _ \<Rightarrow> None))"

definition to_sqlwchar_string :: "string \<Rightarrow> wstr res" where
  "to_sqlwchar_string src =
     (case from_bytes (map of_char src) of
        Some w \<Rightarrow> Inr w
      | None \<Rightarrow> Inl (Runtime_error ''wstring_convert::from_bytes''))"

definition set_server :: "string \<Rightarrow> data_source \<Rightarrow> data_source res" where
  "set_server host ds =
     (case to_sqlwchar_string host of
        Inl e \<Rightarrow> Inl e
      | Inr w \<Rightarrow> map_sum id (\<lambda>v. ds(''SERVER'' := v)) (set_remove_brackets 2 (Some w) (int (length w))))"

text \<open>The last address of the list, whose first one is separate as a list of addresses is not empty.\<close>

definition host_to_IP :: "(string \<Rightarrow> (string \<times> string list) option) \<Rightarrow> string \<Rightarrow> string" where
  "host_to_IP resolve host = (case resolve host of None \<Rightarrow> [] | Some (ip, ips) \<Rightarrow> last (ip # ips))"

definition is_read_only :: "(conn \<Rightarrow> string option option) \<Rightarrow> fh \<Rightarrow> bool res" where
  "is_read_only read_only h =
     (case fh_conn h of
        None \<Rightarrow> Inr False
      | Some c \<Rightarrow>
          (case read_only c of
             None \<Rightarrow> Inr False
           | Some None \<Rightarrow> Inl Null_deref
           | Some (Some v) \<Rightarrow> Inr (v = ''1'')))"

text \<open>The comparison of \<^verbatim>\<open>host\<close> with \<^verbatim>\<open>""\<close> compares pointers and is false.\<close>

definition should_connect_to_new_writer ::
  "conn exec \<Rightarrow> (conn \<Rightarrow> string option option) \<Rightarrow> (string \<Rightarrow> (string \<times> string list) option) \<Rightarrow> fh \<Rightarrow> (bool \<times> fh) res" where
  "should_connect_to_new_writer exec read_only resolve h =
     (case ds_str (fh_ds h) ''SERVER'' of
        None \<Rightarrow> Inr (False, h)
      | Some host \<Rightarrow>
          if \<not> is_rds_writer_cluster_dns host then Inr (False, h)
          else
            (let host_ip = host_to_IP resolve host
             in if host_ip = [] then Inr (False, h)
                else
                  (case init_cluster_info exec h of
                     Inl e \<Rightarrow> Inl e
                   | Inr h \<Rightarrow>
                       (case is_read_only read_only h of
                          Inl e \<Rightarrow> Inl e
                        | Inr ro \<Rightarrow>
                            (case get_topology exec (fh_svc h) (fh_conn h) ro (fh_w h) of
                               Inl e \<Rightarrow> Inl e
                             | Inr (None, w) \<Rightarrow> Inl Null_deref
                             | Inr (Some t, w) \<Rightarrow>
                                 (let h = h\<lparr>fh_w := w\<rparr>
                                  in case get_writer (topos w ! t) of
                                       Inl _ \<Rightarrow> Inr (False, h)
                                     | Inr writer \<Rightarrow>
                                         (let writer_host = h_host (hosts w ! writer)
                                          in if is_rds_cluster_dns writer_host then Inr (False, h)
                                             else if host_to_IP resolve writer_host = [] \<or> host_to_IP resolve writer_host = host_ip
                                             then Inr (False, h)
                                             else map_sum id (\<lambda>ds. (True, h\<lparr>fh_ds := ds\<rparr>)) (set_server writer_host (fh_ds h)))))))))"

definition SQL_SUCCEEDED :: "int \<Rightarrow> bool" where
  "SQL_SUCCEEDED rc \<longleftrightarrow> rc = 0 \<or> rc = 1"

definition get_timeout :: "int \<Rightarrow> int" where
  "get_timeout seconds = (let s = seconds mod 2 ^ 32 in if s > 0 then s else 30)"

definition close_conn :: "fh \<Rightarrow> fh" where
  "close_conn h = h\<lparr>fh_sh := release_new_connection (fh_conn h) (fh_sh h), fh_conn := None\<rparr>"

definition reconnect :: "(data_source \<Rightarrow> bool \<Rightarrow> int \<times> conn option) \<Rightarrow> bool \<Rightarrow> fh \<Rightarrow> int \<times> fh" where
  "reconnect do_connect failover_enabled h =
     (let h = (if is_writer_connected (fh_sh h) (fh_conn h) then close_conn h else h)
      in case do_connect (fh_ds h) failover_enabled of (rc, c) \<Rightarrow> (rc, h\<lparr>fh_conn := c\<rparr>))"

text \<open>The default of the failover mode, once the host is known.\<close>

definition default_failover_mode :: "fh \<Rightarrow> fh res" where
  "default_failover_mode h =
     (if opt_given (fh_ds h ''FAILOVER_MODE'') then Inr h
      else
        (case fh_current_host h of
           None \<Rightarrow> Inl Null_deref
         | Some r \<Rightarrow>
             map_sum id (\<lambda>v. h\<lparr>fh_ds := (fh_ds h)(''FAILOVER_MODE'' := v)\<rparr>)
               (set_remove_brackets 2
                  (Some (wide (if is_rds_reader_cluster_dns (h_host (hosts (fh_w h) ! r))
                               then ''READER OR WRITER'' else ''STRICT WRITER''))) SQL_NTS)))"

definition updated_timeouts :: "fh \<Rightarrow> bool" where
  "updated_timeouts h \<longleftrightarrow>
     get_timeout (ds_int (fh_ds h) ''CONNECT_TIMEOUT'') \<noteq> fh_login_timeout h \<or>
     get_timeout (ds_int (fh_ds h) ''NETWORK_TIMEOUT'') \<noteq> ds_int (fh_ds h) ''READTIMEOUT'' mod 2 ^ 32 \<or>
     get_timeout (ds_int (fh_ds h) ''NETWORK_TIMEOUT'') \<noteq> ds_int (fh_ds h) ''WRITETIMEOUT'' mod 2 ^ 32"

definition init_connection ::
  "(data_source \<Rightarrow> bool \<Rightarrow> int \<times> conn option) \<Rightarrow> conn exec \<Rightarrow> (conn \<Rightarrow> string option option) \<Rightarrow>
   (string \<Rightarrow> (string \<times> string list) option) \<Rightarrow> fh \<Rightarrow> (int \<times> fh) res" where
  "init_connection do_connect exec read_only resolve h =
     (case do_connect (fh_ds h) False of (rc, c) \<Rightarrow>
        (let h = fh_metric (M_invalid_initial_connection (\<not> SQL_SUCCEEDED rc)) (h\<lparr>fh_conn := c\<rparr>)
         in if \<not> SQL_SUCCEEDED rc then Inr (rc, h)
            else
              (case (if ds_bool (fh_ds h) ''ENABLE_CLUSTER_FAILOVER''
                     then (case init_cluster_info exec h of
                             Inl e \<Rightarrow> Inl e
                           | Inr h \<Rightarrow> map_sum id (Pair (is_failover_enabled h \<and> updated_timeouts h)) (default_failover_mode h))
                     else Inr (False, h)) of
                 Inl e \<Rightarrow> Inl e
               | Inr (updated, h) \<Rightarrow>
                   (case should_connect_to_new_writer exec read_only resolve h of
                      Inl e \<Rightarrow> Inl e
                    | Inr (new_writer, h) \<Rightarrow>
                        Inr (if new_writer \<or> updated then reconnect do_connect updated h else (rc, h))))))"

section \<open>Failover\<close>

text \<open>
  The answers of the two failover processes, with what is left of the connections and of the world:
  for the reader process its result, for the writer process its result whose new topology is the
  object \<open>nt\<close>.
\<close>

type_synonym reader_process = "ref option \<Rightarrow> world \<Rightarrow> shared \<Rightarrow> reader_task option res \<times> shared \<times> world"

type_synonym writer_process = "ref option \<Rightarrow> world \<Rightarrow> shared \<Rightarrow> (writer_result \<times> ref option) res \<times> shared \<times> world"

definition update_connection :: "conn option \<Rightarrow> string \<Rightarrow> fh \<Rightarrow> fh res" where
  "update_connection new_connection new_host_name h =
     (case new_connection of
        None \<Rightarrow> Inl Null_deref
      | Some c \<Rightarrow>
          if is_writer_connected (fh_sh h) (Some c)
          then map_sum id (\<lambda>ds. (close_conn h)\<lparr>fh_conn := Some c, fh_ds := ds\<rparr>) (set_server new_host_name (fh_ds h))
          else Inr h)"

definition connection_changed :: "bool \<times> string \<times> string" where
  "connection_changed = (True, ''08S02'', ''The active SQL connection has changed.'')"

definition connection_lost :: "bool \<times> string \<times> string" where
  "connection_lost = (False, ''08S01'', ''The active SQL connection was lost.'')"

text \<open>The filtered topology is computed once for the log and once for the failover.\<close>

definition failover_to_reader :: "reader_process \<Rightarrow> fh \<Rightarrow> ((bool \<times> string \<times> string) \<times> fh) res" where
  "failover_to_reader rproc h =
     (case get_filtered_topology (fh_svc h) (fh_current_topology h) (fh_w h) of
        Inl e \<Rightarrow> Inl e
      | Inr (_, w1) \<Rightarrow>
          (case get_filtered_topology (fh_svc h) (fh_current_topology h) w1 of
             Inl e \<Rightarrow> Inl e
           | Inr (ft, w2) \<Rightarrow>
               (case rproc ft w2 (fh_sh h) of (ans, s', w3) \<Rightarrow>
                  (let h = h\<lparr>fh_w := w3, fh_sh := s'\<rparr>
                   in case ans of
                        Inl e \<Rightarrow> Inl e
                      | Inr None \<Rightarrow> Inr (connection_lost, h)
                      | Inr (Some r) \<Rightarrow>
                          if rt_connected r then
                            (case rt_new_host r of
                               None \<Rightarrow> Inl Null_deref
                             | Some nh \<Rightarrow>
                                 map_sum id (Pair connection_changed)
                                   (update_connection (rt_new_connection r) (h_host (hosts w3 ! nh)) (h\<lparr>fh_current_host := Some nh\<rparr>)))
                          else Inr (connection_lost, h)))))"

definition failover_to_writer :: "writer_process \<Rightarrow> fh \<Rightarrow> ((bool \<times> string \<times> string) \<times> fh) res" where
  "failover_to_writer wproc h =
     (case wproc (fh_current_topology h) (fh_w h) (fh_sh h) of (ans, s', w1) \<Rightarrow>
        (let h = h\<lparr>fh_w := w1, fh_sh := s'\<rparr>
         in case ans of
              Inl e \<Rightarrow> Inl e
            | Inr (r, nt) \<Rightarrow>
                if \<not> w_connected r then Inr (connection_lost, h)
                else
                  (case nt of
                     None \<Rightarrow> Inl Null_deref
                   | Some t \<Rightarrow>
                       (case get_writer (topos w1 ! t) of
                          Inl e \<Rightarrow> Inl e
                        | Inr new_host \<Rightarrow>
                            (let h = (if w_is_new_host r then h\<lparr>fh_current_topology := Some t, fh_current_host := Some new_host\<rparr> else h)
                             in case get_filtered_topology (fh_svc h) (Some t) w1 of
                                  Inl e \<Rightarrow> Inl e
                                | Inr (None, w2) \<Rightarrow> Inl Null_deref
                                | Inr (Some ft, w2) \<Rightarrow>
                                    (let h = h\<lparr>fh_w := w2\<rparr>
                                     in if new_host \<notin> set (get_instances (topos w2 ! ft)) then Inr (connection_lost, h)
                                        else map_sum id (Pair connection_changed)
                                               (update_connection (w_new_connection r) (h_host (hosts w2 ! new_host)) h)))))))"

definition in_transaction :: "fh \<Rightarrow> bool" where
  "in_transaction h \<longleftrightarrow> \<not> fh_autocommit h \<or> fh_transaction_open h"

text \<open>A reading of the steady clock, and the milliseconds since a time with the metric they are reported as.\<close>

definition fh_now :: "fh \<Rightarrow> int \<times> fh" where
  "fh_now h = (case read_steady (fh_w h) of (t, w) \<Rightarrow> (t, h\<lparr>fh_w := w\<rparr>))"

definition report_time :: "(int \<Rightarrow> fh_metric) \<Rightarrow> (fh \<Rightarrow> int) \<Rightarrow> fh \<Rightarrow> fh" where
  "report_time m since h = (case fh_now h of (t, h) \<Rightarrow> fh_metric (m (to_ms (t - since h))) h)"

definition invoke_start_time :: "fh \<Rightarrow> fh" where
  "invoke_start_time h = (case fh_now h of (t, h) \<Rightarrow> h\<lparr>fh_invoke_start := t\<rparr>)"

definition begin_failover :: "fh \<Rightarrow> fh" where
  "begin_failover h =
     (let h = h\<lparr>fh_ds := (fh_ds h)(''ENABLE_FAILURE_DETECTION'' := set_bool False), fh_current_host := None\<rparr>;
          h = report_time M_failure_detection_time fh_invoke_start h
      in case fh_now h of (t, h) \<Rightarrow> h\<lparr>fh_failover_start := t\<rparr>)"

definition reader_first :: "fh \<Rightarrow> bool" where
  "reader_first h \<longleftrightarrow>
     (case fh_current_topology h of None \<Rightarrow> False | Some t \<Rightarrow> total_hosts (topos (fh_w h) ! t) > 1) \<and>
     \<not> is_failover_mode ''STRICT WRITER'' (fh_ds h)"

text \<open>Whether failover was triggered, the error code and the message set, and the state.\<close>

definition trigger_failover_if_needed ::
  "reader_process \<Rightarrow> writer_process \<Rightarrow> string option \<Rightarrow> fh \<Rightarrow> (bool \<times> string option \<times> string option \<times> fh) res" where
  "trigger_failover_if_needed rproc wproc error_code h =
     (let ec = (case error_code of Some e \<Rightarrow> e | None \<Rightarrow> [])
      in if \<not> is_failover_enabled h \<or> ec = [] then Inr (False, error_code, None, h)
         else if take 2 ec = ''08'' then
           (let old_state = fh_ds h ''ENABLE_FAILURE_DETECTION'';
                h1 = begin_failover h
            in case (if reader_first h1
                     then map_sum id (map_prod id (report_time M_reader_failover_time fh_failover_start)) (failover_to_reader rproc h1)
                     else map_sum id (map_prod id (report_time M_writer_failover_time fh_failover_start)) (failover_to_writer wproc h1)) of
                 Inl e \<Rightarrow> Inl e
               | Inr ((success, code, msg), h2) \<Rightarrow>
                   (let h2 = fh_metric (M_failover_connects success) h2;
                        h2 = h2\<lparr>fh_ds := (fh_ds h2)(''ENABLE_FAILURE_DETECTION'' := old_state)\<rparr>
                    in if success \<and> in_transaction h
                       then Inr (True, Some ''08007'', Some ''Connection failure during transaction.'', h2)
                       else Inr (True, Some code, Some msg, h2)))
         else Inr (False, error_code, None, h))"

section \<open>What the handler knows about the cluster\<close>

text \<open>Asking for a topology only adds hosts.\<close>

definition adds_hosts :: "world \<Rightarrow> world \<Rightarrow> bool" where
  "adds_hosts w w' \<longleftrightarrow> (\<exists>xs. hosts w' = hosts w @ xs)"

lemma adds_hosts_same: "hosts w' = hosts w \<Longrightarrow> adds_hosts w w'"
  by (simp add: adds_hosts_def)

lemma adds_hosts_trans: "adds_hosts w w' \<Longrightarrow> adds_hosts w' w'' \<Longrightarrow> adds_hosts w w''"
  by (auto simp: adds_hosts_def)

lemma adds_hosts_nth: "adds_hosts w w' \<Longrightarrow> r < length (hosts w) \<Longrightarrow> hosts w' ! r = hosts w ! r \<and> r < length (hosts w')"
  by (auto simp: adds_hosts_def nth_append)

lemma adds_hosts_create: "create_host svc row w = Inr (r, w') \<Longrightarrow> adds_hosts w w'"
  by (auto simp: create_host_def adds_hosts_def alloc_def Let_def split: prod.splits option.splits if_splits)

lemma adds_hosts_add: "add_host_now r (t, w) = (t', w') \<Longrightarrow> adds_hosts w w'"
  by (auto simp: add_host_now_def read_time_def adds_hosts_def)

lemma adds_hosts_rows: "topology_rows svc rows t insts latest w = Inr (t', insts', latest', w') \<Longrightarrow> adds_hosts w w'"
proof (induction rows arbitrary: t insts latest w)
  case (Cons row rows)
  obtain r w1 where c: "create_host svc row w = Inr (r, w1)"
    using Cons.prems by (cases "create_host svc row w") auto
  have step: "adds_hosts w w1" by (rule adds_hosts_create [OF c])
  obtain t2 insts2 latest2 w2 where n: "topology_rows svc rows t2 insts2 latest2 w2 = Inr (t', insts', latest', w')" "adds_hosts w1 w2"
  proof (cases r)
    case None
    then show ?thesis using Cons.prems c by (intro that) (auto simp: adds_hosts_same)
  next
    case (Some x)
    obtain ex ins where e: "does_instance_exist insts w1 x = (ex, ins)" by fastforce
    obtain t1 w3 where a: "add_host_now x (t, w1) = (t1, w3)" by fastforce
    show ?thesis
      using Cons.prems c Some e a adds_hosts_add [OF a]
      by (cases ex; cases latest; cases "h_is_writer (hosts w1 ! x)") (auto intro: that simp: adds_hosts_same)
  qed
  from adds_hosts_trans [OF step adds_hosts_trans [OF n(2) Cons.IH [OF n(1)]]] show ?case .
qed (simp add: adds_hosts_same)

lemma adds_hosts_topology: "topology_of_rows svc rows w = Inr (t, w') \<Longrightarrow> adds_hosts w w'"
proof -
  assume t: "topology_of_rows svc rows w = Inr (t, w')"
  have rt: "read_time w = (time_clock w (time_tick w), w\<lparr>time_tick := time_tick w + 1\<rparr>)" by (simp add: read_time_def)
  obtain t1 ins l w1 where r: "topology_rows svc rows (CLUSTER_TOPOLOGY_INFO (time_clock w (time_tick w))) [] None
      (w\<lparr>time_tick := time_tick w + 1\<rparr>) = Inr (t1, ins, l, w1)"
    using t by (auto simp: topology_of_rows_def rt split: sum.splits)
  have "adds_hosts w w1" using adds_hosts_rows [OF r] by (simp add: adds_hosts_def)
  moreover have "adds_hosts w1 w'"
    using t r by (auto simp: topology_of_rows_def rt add_host_now_def read_time_def adds_hosts_def split: option.splits if_splits)
  ultimately show "adds_hosts w w'" by (rule adds_hosts_trans)
qed

lemma adds_hosts_query: "query_for_topology exec svc c w = Inr (t, w') \<Longrightarrow> adds_hosts w w'"
proof -
  assume q: "query_for_topology exec svc c w = Inr (t, w')"
  show "adds_hosts w w'"
  proof (cases "try_execute_query exec c")
    case None
    then show ?thesis using q by (auto simp: query_for_topology_def read_steady_def record_metric_def adds_hosts_def Let_def)
  next
    case (Some rows)
    then obtain ti w2 where r: "topology_of_rows svc rows (w\<lparr>steady_tick := steady_tick w + 1\<rparr>) = Inr (ti, w2)"
      using q by (auto simp: query_for_topology_def read_steady_def Let_def split: sum.splits)
    have "hosts w' = hosts w2"
      using q Some r by (auto simp: query_for_topology_def read_steady_def record_metric_def alloc_def Let_def)
    then show ?thesis using adds_hosts_topology [OF r] by (simp add: adds_hosts_def)
  qed
qed

lemma adds_hosts_get: "get_topology exec svc c force w = Inr (t, w') \<Longrightarrow> adds_hosts w w'"
proof -
  assume g: "get_topology exec svc c force w = Inr (t, w')"
  obtain cached w1 where c: "get_from_cache svc w = (cached, w1)" by fastforce
  have w1: "hosts w1 = hosts w" using c by (auto simp: get_from_cache_def record_metric_def split: if_splits option.splits)
  define nw where "nw = (case cached of None \<Rightarrow> (True, w1)
      | Some t \<Rightarrow> if force then (True, w1) else refresh_needed svc (last_updated (topos w1 ! t)) w1)"
  obtain need w2 where n: "nw = (need, w2)" by fastforce
  have w2: "hosts w2 = hosts w"
    using n w1 by (auto simp: nw_def refresh_needed_def read_time_def Let_def split: option.splits if_splits)
  have g': "(if need then (case query_for_topology exec svc c w2 of Inl e \<Rightarrow> Inl e
       | Inr (Some latest, w3) \<Rightarrow> Inr (Some latest, put_to_cache svc latest w3) | Inr (None, w3) \<Rightarrow> Inr (cached, w3))
       else Inr (cached, w2)) = Inr (t, w')"
    using g c n by (simp add: get_topology_def nw_def Let_def)
  then show "adds_hosts w w'"
    using w2 adds_hosts_query [of exec svc c w2]
    by (auto simp: put_to_cache_def adds_hosts_def split: if_splits sum.splits option.splits)
qed

lemma set_id_fields [simp]:
  "cluster_instance_host (fh_svc (fh_set_cluster_id cid h)) = cluster_instance_host (fh_svc h)"
  "cluster_id (fh_svc (fh_set_cluster_id cid h)) = cid" "fh_cluster_id (fh_set_cluster_id cid h) = cid"
  "hosts (fh_w (fh_set_cluster_id cid h)) = hosts (fh_w h)" "fh_ds (fh_set_cluster_id cid h) = fh_ds h"
  "m_is_cluster_topology_available (fh_set_cluster_id cid h) = m_is_cluster_topology_available h"
  by (simp_all add: fh_set_cluster_id_def Topology_Service.set_cluster_id_def record_metric_def fh_metric_def)

lemma set_template_fields [simp]:
  "cluster_instance_host (fh_svc (set_template host port h)) = Some (length (hosts (fh_w h)))"
  "hosts (fh_w (set_template host port h)) = hosts (fh_w h) @ [HOST_INFO_2 host port]"
  "fh_ds (set_template host port h) = fh_ds h"
  "m_is_cluster_topology_available (set_template host port h) = m_is_cluster_topology_available h"
  by (simp_all add: set_template_def alloc_def set_cluster_instance_template_def)

lemma initialize_topology_result:
  assumes "initialize_topology exec h = Inr h'"
  shows "fh_svc h' = fh_svc h" "fh_ds h' = fh_ds h" "fh_cluster_id h' = fh_cluster_id h"
    "adds_hosts (fh_w h) (fh_w h')"
    "m_is_cluster_topology_available h' \<Longrightarrow> \<not> m_is_cluster_topology_available h \<Longrightarrow>
       \<exists>t. fh_current_topology h' = Some t \<and> total_hosts (topos (fh_w h') ! t) > 0 \<and>
         (is_failover_enabled h' \<longrightarrow> fh_pool_size h' = int (total_hosts (topos (fh_w h') ! t)))"
proof -
  obtain t w where g: "get_topology exec (fh_svc h) (fh_conn h) False (fh_w h) = Inr (t, w)"
    using assms by (auto simp: initialize_topology_def split: sum.splits)
  note r = assms [unfolded initialize_topology_def g, simplified]
  show "fh_svc h' = fh_svc h" "fh_ds h' = fh_ds h" "fh_cluster_id h' = fh_cluster_id h"
    using r by (cases t; auto simp: Let_def split: if_splits)+
  have "fh_w h' = w" using r by (cases t) (auto simp: Let_def split: if_splits)
  then show "adds_hosts (fh_w h) (fh_w h')" using adds_hosts_get [OF g] by simp
  show "\<exists>t. fh_current_topology h' = Some t \<and> total_hosts (topos (fh_w h') ! t) > 0 \<and>
         (is_failover_enabled h' \<longrightarrow> fh_pool_size h' = int (total_hosts (topos (fh_w h') ! t)))"
    if "m_is_cluster_topology_available h'" "\<not> m_is_cluster_topology_available h"
    using r that by (cases t) (auto simp: Let_def is_failover_enabled_def split: if_splits)
qed

definition instance_template :: "fh \<Rightarrow> bool" where
  "instance_template h \<longleftrightarrow> (\<exists>tm. cluster_instance_host (fh_svc h) = Some tm \<and> tm < length (hosts (fh_w h)) \<and>
     CHR ''?'' \<in> set (h_host (hosts (fh_w h) ! tm)))"

lemma instance_template_kept:
  assumes "initialize_topology exec h = Inr h'" "instance_template h"
  shows "instance_template h'"
  using assms(2) initialize_topology_result(1) [OF assms(1)] adds_hosts_nth [OF initialize_topology_result(4) [OF assms(1)]]
  by (auto simp: instance_template_def)

lemma instance_template_set: "CHR ''?'' \<in> set host \<Longrightarrow> instance_template (set_template host port h)"
  by (simp add: instance_template_def HOST_INFO_2_def HOST_INFO_def nth_append)

lemma instance_template_id [simp]: "instance_template (fh_set_cluster_id cid h) = instance_template h"
  by (simp add: instance_template_def)

lemma instance_template_flags [simp]:
  "instance_template (h\<lparr>m_is_rds := a\<rparr>) = instance_template h" "instance_template (h\<lparr>m_is_rds_proxy := b\<rparr>) = instance_template h"
  "instance_template (h\<lparr>m_is_rds_custom_cluster := c\<rparr>) = instance_template h"
  "instance_template (h\<lparr>is_cluster_info_initialized := d\<rparr>) = instance_template h"
  by (simp_all add: instance_template_def)

lemma valid_pattern_placeholder: "is_dns_pattern_valid p \<Longrightarrow> CHR ''?'' \<in> set p"
  using find_char_None [of "CHR ''?''" p] by (auto simp: is_dns_pattern_valid_def)

lemma rds_pattern_placeholder: "get_rds_instance_host_pattern host \<noteq> [] \<Longrightarrow> CHR ''?'' \<in> set (get_rds_instance_host_pattern host)"
  by (auto simp: get_rds_instance_host_pattern_def first_nonempty_def instance_host_pattern_of_def
      split: option.splits if_splits)

text \<open>The state the four branches lead to: the configured cluster id, and failover only with a template and a topology.\<close>

definition cluster_known :: "fh \<Rightarrow> fh \<Rightarrow> bool" where
  "cluster_known h h' \<longleftrightarrow> fh_ds h' = fh_ds h \<and>
     (ds_text (fh_ds h) ''CLUSTER_ID'' \<noteq> [] \<longrightarrow>
        cluster_id (fh_svc h') = ds_text (fh_ds h) ''CLUSTER_ID'' \<and> fh_cluster_id h' = ds_text (fh_ds h) ''CLUSTER_ID'') \<and>
     (is_failover_enabled h' \<longrightarrow> instance_template h' \<and>
        (\<exists>t. fh_current_topology h' = Some t \<and> total_hosts (topos (fh_w h') ! t) > 0 \<and>
           fh_pool_size h' = int (total_hosts (topos (fh_w h') ! t))))"

lemma cluster_known_init:
  assumes "initialize_topology exec h1 = Inr h'" "\<not> m_is_cluster_topology_available h1" "fh_ds h1 = fh_ds h"
    and "instance_template h1"
    and "ds_text (fh_ds h) ''CLUSTER_ID'' \<noteq> [] \<Longrightarrow>
      cluster_id (fh_svc h1) = ds_text (fh_ds h) ''CLUSTER_ID'' \<and> fh_cluster_id h1 = ds_text (fh_ds h) ''CLUSTER_ID''"
  shows "cluster_known h h'"
proof -
  have "m_is_cluster_topology_available h'" if "is_failover_enabled h'" using that by (simp add: is_failover_enabled_def)
  then show ?thesis
    using initialize_topology_result [OF assms(1)] assms(2-5) instance_template_kept [OF assms(1,4)]
    by (auto simp: cluster_known_def)
qed

lemma pattern_known:
  assumes "init_from_pattern exec hp h = Inr h'" "\<not> m_is_cluster_topology_available h"
  shows "cluster_known h h'"
proof -
  obtain pat port where p: "pattern_hosts hp ((if m_is_default (fh_ds h ''PORT'') then 3306 else ds_int (fh_ds h) ''PORT'') mod 2 ^ 32) = Inr (pat, port)"
    using assms(1) by (auto simp: init_from_pattern_def split: sum.splits)
  have v: "is_dns_pattern_valid pat" using assms(1) unfolding init_from_pattern_def p by (auto split: if_splits)
  define h0 where "h0 = (set_template pat (to_int32 port) h)\<lparr>m_is_rds := is_rds_dns pat, m_is_rds_proxy := is_rds_proxy_dns pat,
      m_is_rds_custom_cluster := is_rds_custom_cluster_dns pat\<rparr>"
  define h1 where "h1 = (if ds_text (fh_ds h0) ''CLUSTER_ID'' \<noteq> [] then set_configured_id h0
      else if m_is_rds h0 \<and> get_rds_cluster_host_url pat \<noteq> [] then set_cluster_id_port (get_rds_cluster_host_url pat) (to_int32 port) h0
      else h0)"
  have i: "initialize_topology exec h1 = Inr h'"
    using assms(1) v unfolding h1_def h0_def init_from_pattern_def p by (auto simp: Let_def split: if_splits)
  have "instance_template h0" unfolding h0_def
    by (simp add: instance_template_set valid_pattern_placeholder [OF v])
  then have t: "instance_template h1" by (simp add: h1_def set_configured_id_def set_cluster_id_port_def)
  show ?thesis
    by (rule cluster_known_init [OF i _ _ t]) (use assms(2) in \<open>simp_all add: h1_def h0_def set_configured_id_def set_cluster_id_port_def\<close>)
qed

lemma rds_known:
  assumes "init_from_rds exec host port h = Inr h'" "\<not> m_is_cluster_topology_available h"
  shows "cluster_known h h'"
proof -
  have v: "get_rds_instance_host_pattern host \<noteq> []" using assms(1) by (auto simp: init_from_rds_def split: if_splits)
  define h0 where "h0 = set_template (get_rds_instance_host_pattern host) port h"
  define h1 where "h1 = (if ds_text (fh_ds h0) ''CLUSTER_ID'' \<noteq> [] then set_configured_id h0
      else if m_is_rds_proxy h0 then set_cluster_id_port host port h0
      else if get_rds_cluster_host_url host \<noteq> [] then set_cluster_id_port (get_rds_cluster_host_url host) port h0
      else set_cluster_id_port host port h0)"
  have i: "initialize_topology exec h1 = Inr h'"
    using assms(1) v unfolding h1_def h0_def by (simp add: init_from_rds_def Let_def split: if_splits)
  have "instance_template h0" unfolding h0_def by (rule instance_template_set [OF rds_pattern_placeholder [OF v]])
  then have t: "instance_template h1" by (simp add: h1_def set_configured_id_def set_cluster_id_port_def)
  show ?thesis
    by (rule cluster_known_init [OF i _ _ t]) (use assms(2) in \<open>simp_all add: h1_def h0_def set_configured_id_def set_cluster_id_port_def\<close>)
qed

lemma ip_known:
  assumes "init_from_ip exec h = Inr h'"
  shows "cluster_known h h' \<and> \<not> is_failover_enabled h'"
proof -
  obtain h1 where i: "initialize_topology exec (set_configured_id h) = Inr h1"
    using assms by (auto simp: init_from_ip_def split: sum.splits)
  with assms initialize_topology_result(1-3) [OF i] show ?thesis
    by (auto simp: init_from_ip_def cluster_known_def is_failover_enabled_def set_configured_id_def split: if_splits)
qed

lemma custom_domain_known:
  assumes "init_from_custom_domain exec host port h = Inr h'"
  shows "cluster_known h h' \<and> \<not> is_failover_enabled h'"
proof -
  obtain h1 where i: "initialize_topology exec (set_configured_id (set_template host port h)) = Inr h1"
    using assms by (auto simp: init_from_custom_domain_def split: sum.splits)
  with assms initialize_topology_result(1-3) [OF i] show ?thesis
    by (auto simp: init_from_custom_domain_def cluster_known_def is_failover_enabled_def set_configured_id_def split: if_splits)
qed

text \<open>
  C39: When the cluster information could be gathered, failover is enabled only if a topology with
  at least one instance is known and the template of the instances' endpoints has a placeholder for
  the name of the instance, be it configured or derived from the RDS endpoint; the thread pool then
  has one thread per instance. A configured cluster id is the one in use.
\<close>

theorem failover_needs_instance_template:
  assumes "init_cluster_info exec h = Inr h'" "\<not> is_cluster_info_initialized h" "\<not> m_is_cluster_topology_available h"
  shows "is_cluster_info_initialized h' \<and>
    (is_failover_enabled h' \<longrightarrow>
       (\<exists>tm t. cluster_instance_host (fh_svc h') = Some tm \<and> tm < length (hosts (fh_w h')) \<and>
          CHR ''?'' \<in> set (h_host (hosts (fh_w h') ! tm)) \<and> fh_current_topology h' = Some t \<and>
          total_hosts (topos (fh_w h') ! t) > 0 \<and> fh_pool_size h' = int (total_hosts (topos (fh_w h') ! t)))) \<and>
    (ds_text (fh_ds h) ''CLUSTER_ID'' \<noteq> [] \<longrightarrow> cluster_id (fh_svc h') = ds_text (fh_ds h) ''CLUSTER_ID'')"
proof -
  obtain hi where hi: "get_host_info_from_ds (fh_ds h) = Inr hi"
    using assms(1,2) by (auto simp: init_cluster_info_def split: sum.splits)
  define h0 where "h0 = h\<lparr>fh_w := (fh_w h)\<lparr>hosts := hosts (fh_w h) @ [hi]\<rparr>, fh_current_host := Some (length (hosts (fh_w h)))\<rparr>"
  define h1 where "h1 = h0\<lparr>m_is_rds := is_rds_dns (h_host hi), m_is_rds_proxy := is_rds_proxy_dns (h_host hi)\<rparr>"
  define X where "X = (if ds_text (fh_ds h) ''HOST_PATTERN'' \<noteq> [] then init_from_pattern exec (ds_text (fh_ds h) ''HOST_PATTERN'') h0
      else if is_ipv4 (h_host hi) \<or> is_ipv6 (h_host hi) then init_from_ip exec h0
      else if \<not> is_rds_dns (h_host hi) then init_from_custom_domain exec (h_host hi) (h_port hi) h1
      else init_from_rds exec (h_host hi) (h_port hi) h1)"
  have "init_cluster_info exec h = map_sum id (is_cluster_info_initialized_update (\<lambda>_. True)) X"
    using assms(2) hi by (simp add: init_cluster_info_def alloc_def Let_def h0_def h1_def X_def)
  then obtain h2 where h2: "h' = h2\<lparr>is_cluster_info_initialized := True\<rparr>" "X = Inr h2"
    using assms(1) by (cases X) auto
  have "\<not> m_is_cluster_topology_available h0" "\<not> m_is_cluster_topology_available h1" "fh_ds h0 = fh_ds h" "fh_ds h1 = fh_ds h"
    using assms(3) by (simp_all add: h0_def h1_def)
  then have "cluster_known h h2"
    using h2(2) [unfolded X_def] pattern_known [of exec _ h0 h2] ip_known [of exec h0 h2] custom_domain_known [of exec _ _ h1 h2]
      rds_known [of exec _ _ h1 h2]
    by (auto simp: cluster_known_def split: if_splits)
  then show ?thesis by (auto simp: h2(1) cluster_known_def is_failover_enabled_def instance_template_def)
qed

definition ex_handler :: fh where
  "ex_handler =
     \<lparr>fh_ds = reset(''HOST_PATTERN'' := \<lparr>m_is_set = True, m_is_default = False, m_val = OStr (wide ''?.x'') (map of_char ''?.x'') False\<rparr>),
      fh_svc = TOPOLOGY_SERVICE ''c'',
      fh_w = \<lparr>hosts = [], topos = [], topology_cache = [], time_clock = \<lambda>_. 0, time_tick = 0, steady_clock = \<lambda>_. 0,
              steady_tick = 0, metrics = []\<rparr>,
      fh_current_host = None, fh_current_topology = None, fh_cluster_id = ''no_id'', m_is_rds = False, m_is_rds_proxy = False,
      m_is_rds_custom_cluster = False, m_is_cluster_topology_available = False, is_cluster_info_initialized = False,
      fh_strict_reader = False, fh_pool_size = 0, fh_invoke_start = 0, fh_failover_start = 0, fh_metrics = [],
      fh_sh = empty_shared, fh_conn = Some 0, fh_login_timeout = 0, fh_autocommit = True, fh_transaction_open = False\<rparr>"

definition ex_rows :: "conn exec" where
  "ex_rows = (\<lambda>_. Some [(Some ''a'', Some ''s'', None, None)])"

lemma ex_handler_enabled:
  "(case init_cluster_info ex_rows ex_handler of Inr h' \<Rightarrow> is_failover_enabled h' | Inl _ \<Rightarrow> False) = True"
  by code_simp

theorem failover_needs_instance_template_witness:
  "\<exists>h'. init_cluster_info ex_rows ex_handler = Inr h' \<and> is_failover_enabled h' \<and>
     (\<exists>tm. cluster_instance_host (fh_svc h') = Some tm \<and> CHR ''?'' \<in> set (h_host (hosts (fh_w h') ! tm)))"
proof -
  obtain h' where h: "init_cluster_info ex_rows ex_handler = Inr h'" "is_failover_enabled h'"
    using ex_handler_enabled by (auto split: sum.splits)
  have "\<not> is_cluster_info_initialized ex_handler" "\<not> m_is_cluster_topology_available ex_handler" by (simp_all add: ex_handler_def)
  from failover_needs_instance_template [OF h(1) this] h show ?thesis by blast
qed

section \<open>What a failed statement leads to\<close>

lemma report_time_fields [simp]:
  "fh_conn (report_time m since h) = fh_conn h" "fh_sh (report_time m since h) = fh_sh h"
  "fh_ds (report_time m since h) = fh_ds h" "hosts (fh_w (report_time m since h)) = hosts (fh_w h)"
  by (simp_all add: report_time_def fh_now_def fh_metric_def read_steady_def)

lemma begin_failover_fields [simp]:
  "fh_conn (begin_failover h) = fh_conn h" "fh_sh (begin_failover h) = fh_sh h"
  "hosts (fh_w (begin_failover h)) = hosts (fh_w h)" "topos (fh_w (begin_failover h)) = topos (fh_w h)"
  "fh_svc (begin_failover h) = fh_svc h" "fh_current_topology (begin_failover h) = fh_current_topology h"
  "fh_ds (begin_failover h) = (fh_ds h)(''ENABLE_FAILURE_DETECTION'' := set_bool False)"
  by (simp_all add: begin_failover_def report_time_def fh_now_def fh_metric_def read_steady_def)

text \<open>
  The connection of \<open>h'\<close> was opened since \<open>h\<close> and is alive, to a host of the name of \<open>n\<close>; the one
  before is closed. The host \<open>n\<close> is allowed by the custom endpoint and is now the data source's server.
\<close>

definition switched_to :: "(ref \<Rightarrow> string) \<Rightarrow> ref \<Rightarrow> fh \<Rightarrow> fh \<Rightarrow> bool" where
  "switched_to nm n h h' \<longleftrightarrow>
     (\<exists>c host. fh_conn h' = Some c \<and> length (conns (fh_sh h)) \<le> c \<and> live_to (fh_sh h') host c \<and> nm host = nm n) \<and>
     set_option (fh_conn h) \<subseteq> closed (fh_sh h') \<and> allowed_by (fh_svc h) (hosts (fh_w h') ! n) \<and>
     set_server (h_host (hosts (fh_w h') ! n)) (fh_ds h) = Inr (fh_ds h')"

lemma update_connection_switched:
  assumes u: "update_connection (Some c) (h_host (hosts (fh_w h) ! n)) h = Inr h'"
    and c: "live_to (fh_sh h) host c" "nm host = nm n" "length (conns (fh_sh h0)) \<le> c"
    and h: "set_option (fh_conn h0) \<subseteq> {..<length (conns (fh_sh h0))}" "fh_conn h = fh_conn h0" "fh_ds h = fh_ds h0"
    and al: "allowed_by (fh_svc h0) (hosts (fh_w h) ! n)"
  shows "switched_to nm n h0 h'"
proof -
  have "is_writer_connected (fh_sh h) (Some c)" using c(1) by (simp add: is_writer_connected_def live_to_def)
  with u obtain ds where "set_server (h_host (hosts (fh_w h) ! n)) (fh_ds h) = Inr ds" "h' = (close_conn h)\<lparr>fh_conn := Some c, fh_ds := ds\<rparr>"
    by (auto simp: update_connection_def map_sum_def split: sum.splits)
  moreover have "c \<notin> set_option (fh_conn h)" using c(3) h(1,2) by auto
  then have "live_to (release_new_connection (fh_conn h) (fh_sh h)) host c" using c(1) by (simp add: live_to_def conn_to_def)
  ultimately show ?thesis using c al h by (auto simp: switched_to_def close_conn_def)
qed

lemma failover_to_reader_outcome:
  assumes r: "failover_to_reader rproc h = Inr ((ok, code, msg), h')" "shuffles shuf"
    and p: "\<And>ft w s ans s' w'. rproc ft w s = (ans, s', w') \<Longrightarrow>
      reader_failover shuf strict (map_option ((!) (topos w)) ft) (hosts w) s ans s' \<and> map h_host_id (hosts w') = map h_host_id (hosts w)"
    and t: "fh_current_topology h = Some t" "t < length (topos (fh_w h))" "topology_ok (hosts (fh_w h)) (topos (fh_w h) ! t)"
    and h: "set_option (fh_conn h) \<subseteq> {..<length (conns (fh_sh h))}"
  shows "(ok, code, msg) = connection_lost \<and> fh_conn h' = fh_conn h \<and> fh_ds h' = fh_ds h \<or>
    (ok, code, msg) = connection_changed \<and> (\<exists>n. switched_to nm n h h')"
proof -
  obtain f1 w1 where g1: "get_filtered_topology (fh_svc h) (Some t) (fh_w h) = Inr (f1, w1)"
    using r(1) t(1) by (auto simp: failover_to_reader_def split: sum.splits)
  obtain f2 w2 where g2: "get_filtered_topology (fh_svc h) (Some t) w1 = Inr (f2, w2)"
    using r(1) t(1) g1 by (auto simp: failover_to_reader_def split: sum.splits)
  obtain ans s' w3 where rp: "rproc f2 w2 (fh_sh h) = (ans, s', w3)" by (cases "rproc f2 w2 (fh_sh h)")
  note run = r(1) [unfolded failover_to_reader_def t(1) g1 g2 sum.case prod.case rp Let_def]
  show ?thesis
  proof (cases "\<exists>x. ans = Inr (Some x) \<and> rt_connected x")
    case True
    then obtain x where x: "ans = Inr (Some x)" by blast
    note f1 = filtered_allowed [OF g1] and f2 = filtered_allowed [OF g2]
    note pr = p [OF rp, unfolded x]
    obtain f where f: "f2 = Some f" "good_result s' x" "rt_host x \<in> set (get_instances (topos w2 ! f))"
      using reader_failover_found [OF r(2) conjunct1 [OF pr] refl] by auto
    have new: "set_option (rt_new_connection x) \<subseteq> {length (conns (fh_sh h))..}"
      using reader_failover_frame [OF conjunct1 [OF pr]] by (simp add: own_result_def)
    have al: "allowed_by (fh_svc h) (hosts (fh_w h) ! rt_host x)" and mem: "rt_host x \<in> set (get_instances (topos (fh_w h) ! t))"
      using f f1 f2 t(2) by (auto simp: nth_append)
    have "rt_host x < length (hosts (fh_w h))" using t(3) mem by (auto simp: topology_ok_def list_all_iff)
    then have "h_host_id (hosts w3 ! rt_host x) = h_host_id (hosts (fh_w h) ! rt_host x)"
      using pr f1 f2 by (metis (no_types, lifting) length_map nth_map)
    with al have al3: "allowed_by (fh_svc h) (hosts w3 ! rt_host x)" by (auto simp: allowed_by_def allowed_host_def split: option.splits)
    obtain c where c: "rt_new_connection x = Some c" "live_to s' (rt_host x) c" "rt_new_host x = Some (rt_host x)" "rt_connected x"
      using f(2) by (auto simp: good_result_def)
    let ?h = "h\<lparr>fh_w := w3, fh_sh := s', fh_current_host := Some (rt_host x)\<rparr>"
    have "(ok, code, msg) = connection_changed" "update_connection (Some c) (h_host (hosts (fh_w ?h) ! rt_host x)) ?h = Inr h'"
      using run x c by (auto simp: map_sum_def split: sum.splits)
    then show ?thesis
      using update_connection_switched [of c ?h "rt_host x" h' "rt_host x" nm h] c(1,2) new h al3 by auto
  qed (use run in \<open>auto split: sum.splits option.splits if_splits\<close>)
qed

lemma failover_to_writer_outcome:
  assumes r: "failover_to_writer wproc h = Inr ((ok, code, msg), h')"
    and p: "\<And>t w s r nt s' w'. wproc t w s = (Inr (r, nt), s', w') \<Longrightarrow>
      writer_failover_returns env_ok nm (map_option ((!) (topos w)) t) s (Inr r) s' \<and> w_new_topology r = map_option ((!) (topos w')) nt"
    and h: "set_option (fh_conn h) \<subseteq> {..<length (conns (fh_sh h))}"
  shows "(ok, code, msg) = connection_lost \<and> fh_conn h' = fh_conn h \<and> fh_ds h' = fh_ds h \<or>
    (ok, code, msg) = connection_changed \<and> (\<exists>n. switched_to nm n h h')"
proof -
  obtain x nt s' w1 where wp: "wproc (fh_current_topology h) (fh_w h) (fh_sh h) = (Inr (x, nt), s', w1)"
    using r by (cases "wproc (fh_current_topology h) (fh_w h) (fh_sh h)"; cases "fst (wproc (fh_current_topology h) (fh_w h) (fh_sh h))")
      (auto simp: failover_to_writer_def)
  note run = r [unfolded failover_to_writer_def wp prod.case sum.case Let_def]
  note pr = p [OF wp]
  show ?thesis
  proof (cases "w_connected x")
    case True
    obtain orig where ok: "writer_result_ok nm orig s' x" using writer_failover_returned [OF conjunct1 [OF pr] True] by blast
    have new: "set_option (w_new_connection x) \<subseteq> {length (conns (fh_sh h))..}"
      using writer_failover_returns_frame [OF conjunct1 [OF pr]] True by simp
    obtain t n host c where o: "nt = Some t" "get_writer (topos w1 ! t) = Inr n" "w_new_connection x = Some c" "live_to s' host c" "nm host = nm n"
      using ok pr by (auto simp: writer_result_ok_def)
    define h1 where "h1 = (if w_is_new_host x then h\<lparr>fh_w := w1, fh_sh := s', fh_current_topology := Some t, fh_current_host := Some n\<rparr>
        else h\<lparr>fh_w := w1, fh_sh := s'\<rparr>)"
    have h1: "fh_conn h1 = fh_conn h" "fh_ds h1 = fh_ds h" "fh_sh h1 = s'" "fh_svc h1 = fh_svc h" by (simp_all add: h1_def)
    obtain f w2 where g: "get_filtered_topology (fh_svc h) (Some t) w1 = Inr (Some f, w2)"
      using run True o(1,2) by (auto simp: h1(4) split: sum.splits option.splits if_splits)
    have run2: "(if n \<notin> set (get_instances (topos w2 ! f)) then Inr (connection_lost, h1\<lparr>fh_w := w2\<rparr>)
        else map_sum id (Pair connection_changed) (update_connection (Some c) (h_host (hosts w2 ! n)) (h1\<lparr>fh_w := w2\<rparr>))) = Inr ((ok, code, msg), h')"
      using run True o(1-3) g unfolding h1_def by (simp split: if_splits)
    show ?thesis
    proof (cases "n \<in> set (get_instances (topos w2 ! f))")
      case True
      then have "allowed_by (fh_svc h) (hosts w2 ! n)" using filtered_allowed [OF g] by auto
      then show ?thesis
        using True run2 update_connection_switched [of c "h1\<lparr>fh_w := w2\<rparr>" n h' host nm h] o(3-5) new h h1
        by (auto simp: map_sum_def split: sum.splits)
    qed (use run2 h1 in auto)
  qed (use run in auto)
qed

lemma set_server_restore:
  "set_server host (ds(X := v)) = Inr ds' \<Longrightarrow> X \<noteq> ''SERVER'' \<Longrightarrow> set_server host ds = Inr (ds'(X := ds X))"
  by (auto simp: set_server_def map_sum_def fun_upd_twist split: sum.splits)


text \<open>A cluster with a reader and a writer whose reader can be reached, and a handler in strict reader mode.\<close>

definition ex_cluster :: world where
  "ex_cluster = \<lparr>hosts = [HOST_INFO ''r'' 1 UP False, HOST_INFO ''w'' 1 UP True],
     topos = [(CLUSTER_TOPOLOGY_INFO 0)\<lparr>readers := [0], writers := [1]\<rparr>], topology_cache = [],
     time_clock = \<lambda>_. 0, time_tick = 0, steady_clock = \<lambda>_. 0, steady_tick = 0, metrics = []\<rparr>"

definition ex_strict :: fh where
  "ex_strict = ex_handler\<lparr>fh_w := ex_cluster, fh_current_topology := Some 0, m_is_cluster_topology_available := True,
     fh_strict_reader := True, fh_conn := None\<rparr>"

definition ex_reader_process :: "reader_task \<Rightarrow> shared \<Rightarrow> reader_process" where
  "ex_reader_process r s1 = (\<lambda>ft w s.
     if map_option ((!) (topos w)) ft = Some (topos ex_cluster ! 0) \<and> hosts w = hosts ex_cluster \<and> s = empty_shared
     then (Inr (Some r), s1, w) else (Inr None, s, w))"

lemma ex_reader_run: "\<exists>r s'. reader_failover (\<lambda>_ xs. xs) True (Some (topos ex_cluster ! 0)) (hosts ex_cluster) empty_shared (Inr (Some r)) s'"
  by (rule single_reader_found)
    (simp_all add: ex_cluster_def CLUSTER_TOPOLOGY_INFO_def build_hosts_list_def HOST_INFO_def is_host_up_def total_hosts_def)

lemma no_reader_answer: "reader_failover shuf strict topo hs s (Inr None) s"
  by (cases topo) (auto intro: reader_failover.no_topology reader_failover.timed_out reader_failover.no_hosts)

lemma ex_set_server: "\<exists>v. \<forall>ds. set_server ''r'' ds = Inr (ds(''SERVER'' := v))"
proof -
  have "(case to_sqlwchar_string ''r'' of Inl _ \<Rightarrow> False
      | Inr w \<Rightarrow> case set_remove_brackets 2 (Some w) (int (length w)) of Inl _ \<Rightarrow> False | Inr _ \<Rightarrow> True) = True"
    by code_simp
  then show ?thesis by (auto simp: set_server_def map_sum_def split: sum.splits)
qed

lemma ex_strict_enabled: "is_failover_enabled ex_strict = True" "is_failover_mode ''STRICT WRITER'' (fh_ds (begin_failover ex_strict)) = False"
  by code_simp+

end
