(* ===== verification/Sql_Parser.thy ===== *)
theory Sql_Parser
  imports Driver_Prelude
begin

text \<open>
  The parser of statements (\<^verbatim>\<open>driver/parse.cc\<close>): it splits a query into tokens, finds the parameter
  markers, removes the braces of an ODBC escape and tells the type of the query. Pointers into the
  query are offsets. The character set is the argument \<open>cs\<close>: for the bytes from a position to the end
  of the query, whether the character there is a space or a control character, and its number of
  bytes as \<^verbatim>\<open>ctype\<close> returns it (negated for characters without a Unicode code point).
\<close>

section \<open>Data\<close>

datatype query_type =
    myqtSelect | myqtInsert | myqtUpdate | myqtCall | myqtShow | myqtUse | myqtCreateTable
  | myqtCreateProc | myqtCreateFunc | myqtDropProc | myqtDropFunc | myqtOptimize | myqtOther

text \<open>Whether a query of a type returns a result, whether the server can prepare it, and from which version on.\<close>

definition query_types_array :: "query_type \<Rightarrow> bool \<times> bool \<times> string option" where
  "query_types_array t =
     (case t of
        myqtSelect \<Rightarrow> (True, True, None)
      | myqtInsert \<Rightarrow> (False, True, None)
      | myqtUpdate \<Rightarrow> (False, True, None)
      | myqtCall \<Rightarrow> (True, True, Some ''5.5.3'')
      | myqtShow \<Rightarrow> (True, True, None)
      | myqtUse \<Rightarrow> (False, False, None)
      | myqtCreateTable \<Rightarrow> (False, False, None)
      | myqtCreateProc \<Rightarrow> (False, False, None)
      | myqtCreateFunc \<Rightarrow> (False, False, None)
      | myqtDropProc \<Rightarrow> (False, False, None)
      | myqtDropFunc \<Rightarrow> (False, False, None)
      | myqtOptimize \<Rightarrow> (False, True, Some ''5.0.23'')
      | myqtOther \<Rightarrow> (False, True, None))"

text \<open>A rule: keyword, first and last position, the type, the rule for the rest and the alternative.\<close>

datatype rule =
  Rule (r_keyword: string) (r_pos_from: nat) (r_pos_thru: nat) (r_query_type: query_type)
    (r_and: "rule option") (r_or: "rule option")

definition func_rule :: rule where
  "func_rule = Rule ''FUNCTION'' 1 4 myqtCreateFunc None None"

definition proc_rule :: rule where
  "proc_rule = Rule ''PROCEDURE'' 1 4 myqtCreateProc None (Some func_rule)"

definition drop_func_rule :: rule where
  "drop_func_rule = Rule ''FUNCTION'' 1 4 myqtDropFunc None None"

definition drop_proc_rule :: rule where
  "drop_proc_rule = Rule ''PROCEDURE'' 1 4 myqtDropProc None (Some drop_func_rule)"

definition crt_table_rule :: rule where
  "crt_table_rule = Rule ''TABLE'' 1 2 myqtCreateTable None (Some proc_rule)"

definition rules :: "rule list" where
  "rules =
     [Rule ''SELECT'' 0 0 myqtSelect None None,
      Rule ''CALL'' 0 0 myqtCall None None,
      Rule ''INSERT'' 0 0 myqtInsert None None,
      Rule ''UPDATE'' 0 0 myqtUpdate None None,
      Rule ''SHOW'' 0 0 myqtShow None None,
      Rule ''CREATE'' 0 0 myqtOther (Some crt_table_rule) None,
      Rule ''DROP'' 0 0 myqtOther (Some drop_proc_rule) None,
      Rule ''USE'' 0 0 myqtUse None None,
      Rule ''OPTIMIZE'' 0 0 myqtOptimize None None]"

text \<open>A parsed query; \<open>pq_query\<close> holds the bytes up to the end of the query, nothing for a null pointer.\<close>

record parsed_query =
  pq_query :: "string option"
  last_char :: "nat option"
  token2 :: "nat list"
  param_pos :: "nat list"
  pq_type :: query_type
  is_batch :: "nat option"

record parser =
  p_pos :: nat
  bytes_at_pos :: nat
  p_space :: bool
  p_ctrl :: bool
  p_quote :: "string option"
  p_query :: parsed_query
  hash_comment :: bool
  dash_comment :: bool
  c_style_comment :: bool

type_synonym charset = "string \<Rightarrow> (bool \<times> bool) \<times> int"

definition MY_PARSED_QUERY :: parsed_query where
  "MY_PARSED_QUERY = \<lparr>pq_query = None, last_char = None, token2 = [], param_pos = [], pq_type = myqtOther, is_batch = None\<rparr>"

text \<open>Without an end the query is a string that ends with its first zero.\<close>

definition reset_query :: "string option \<Rightarrow> bool \<Rightarrow> parsed_query \<Rightarrow> parsed_query" where
  "reset_query query has_end pq =
     pq\<lparr>token2 := [], param_pos := [], last_char := None, is_batch := None, pq_type := myqtOther,
        pq_query := map_option (\<lambda>s. if has_end then s else takeWhile (\<lambda>c. c \<noteq> CHR 0x00) s) query\<rparr>"

definition pq_text :: "parsed_query \<Rightarrow> string" where
  "pq_text pq = (case pq_query pq of Some s \<Rightarrow> s | None \<Rightarrow> [])"

abbreviation text_of :: "parser \<Rightarrow> string" where
  "text_of p \<equiv> pq_text (p_query p)"

text \<open>A copy has a buffer, also where the original query is a null pointer.\<close>

definition assign_query :: "parsed_query \<Rightarrow> parsed_query \<Rightarrow> parsed_query" where
  "assign_query src pq =
     (reset_query (Some (pq_text src)) True pq)
       \<lparr>last_char := last_char src, is_batch := is_batch src, pq_type := pq_type src, token2 := token2 src, param_pos := param_pos src\<rparr>"

text \<open>Positions of tokens and markers, nothing for a null pointer.\<close>

definition get_token :: "nat \<Rightarrow> parsed_query \<Rightarrow> nat option" where
  "get_token index pq = (if index < length (token2 pq) then Some (token2 pq ! index) else None)"

definition get_param_pos :: "nat \<Rightarrow> parsed_query \<Rightarrow> nat option" where
  "get_param_pos index pq = (if index < length (param_pos pq) then Some (param_pos pq ! index) else None)"

definition token_count :: "parsed_query \<Rightarrow> nat" where
  "token_count pq = length (token2 pq)"

definition returns_result :: "parsed_query \<Rightarrow> bool" where
  "returns_result pq = fst (query_types_array (pq_type pq))"

definition is_select_statement :: "parsed_query \<Rightarrow> bool" where
  "is_select_statement pq \<longleftrightarrow> pq_type pq = myqtSelect"

definition is_call_procedure :: "parsed_query \<Rightarrow> bool" where
  "is_call_procedure pq \<longleftrightarrow> pq_type pq = myqtCall"

section \<open>Comparison of strings\<close>

definition to_upper :: "char \<Rightarrow> char" where
  "to_upper c = (let n = of_char c :: nat in if 97 \<le> n \<and> n \<le> 122 then char_of (n - 32) else c)"

text \<open>A string of the language ends with a zero; what is compared behind it is a zero.\<close>

fun myodbc_casecmp :: "string \<Rightarrow> string \<Rightarrow> nat \<Rightarrow> nat" where
  "myodbc_casecmp s t 0 = 0"
| "myodbc_casecmp s t (Suc n) =
     (if to_upper (case s of c # _ \<Rightarrow> c | [] \<Rightarrow> CHR 0x00) = to_upper (case t of c # _ \<Rightarrow> c | [] \<Rightarrow> CHR 0x00)
      then myodbc_casecmp (tl s) (tl t) n else Suc n)"

definition bytes_left :: "parsed_query \<Rightarrow> nat \<Rightarrow> int" where
  "bytes_left pq pos = int (length (pq_text pq)) - int pos"

text \<open>The null pointer is not equal to any keyword.\<close>

definition case_compare :: "parsed_query \<Rightarrow> nat option \<Rightarrow> string \<Rightarrow> bool" where
  "case_compare pq pos str \<longleftrightarrow>
     (case pos of
        None \<Rightarrow> False
      | Some p \<Rightarrow> bytes_left pq p \<ge> int (length str) \<and> myodbc_casecmp (drop p (pq_text pq)) str (length str) = 0)"

definition parser_compare :: "parser \<Rightarrow> string \<Rightarrow> bool" where
  "parser_compare p str \<longleftrightarrow>
     bytes_left (p_query p) (p_pos p) \<ge> int (length str) \<and> take (length str) (drop (p_pos p) (text_of p)) = str"

definition get_cursor_name :: "parsed_query \<Rightarrow> nat option" where
  "get_cursor_name pq =
     (let tcount = token_count pq
      in if tcount > 4 \<and> case_compare pq (get_token (tcount - 4) pq) ''WHERE'' \<and>
            case_compare pq (get_token (tcount - 3) pq) ''CURRENT'' \<and> case_compare pq (get_token (tcount - 2) pq) ''OF''
         then get_token (tcount - 1) pq else None)"

section \<open>Statements by their first words\<close>

text \<open>The digits of an unsigned number and what follows, as \<^verbatim>\<open>sscanf\<close> reads \<^verbatim>\<open>%u\<close>; nothing without digits.\<close>

definition scan_u :: "string \<Rightarrow> (nat \<times> string) option" where
  "scan_u s =
     (let t = dropWhile is_c_space s;
          neg = (t \<noteq> [] \<and> hd t = CHR ''-'');
          u = (if t \<noteq> [] \<and> (hd t = CHR ''-'' \<or> hd t = CHR ''+'') then tl t else t);
          v = int (digits_value (takeWhile is_c_digit u))
      in if takeWhile is_c_digit u = [] then None
         else Some (nat ((if neg then - v else v) mod 2 ^ 32), dropWhile is_c_digit u))"

definition scan_dot_u :: "string \<Rightarrow> (nat \<times> string) option" where
  "scan_dot_u s = (case s of c # r \<Rightarrow> if c = CHR ''.'' then scan_u r else None | [] \<Rightarrow> None)"

text \<open>Numbers that are missing stay zero.\<close>

definition version_numbers :: "string \<Rightarrow> nat \<times> nat \<times> nat" where
  "version_numbers s =
     (case scan_u s of
        None \<Rightarrow> (0, 0, 0)
      | Some (major, r) \<Rightarrow>
          (case scan_dot_u r of
             None \<Rightarrow> (major, 0, 0)
           | Some (minor, r) \<Rightarrow>
               (case scan_dot_u r of None \<Rightarrow> (major, minor, 0) | Some (build, _) \<Rightarrow> (major, minor, build))))"

definition is_minimum_version :: "string \<Rightarrow> string \<Rightarrow> bool" where
  "is_minimum_version server_version version =
     (case (version_numbers server_version, version_numbers version) of
        ((major1, minor1, build1), (major2, minor2, build2)) \<Rightarrow>
          major1 > major2 \<or> major1 = major2 \<and> (minor1 > minor2 \<or> minor1 = minor2 \<and> build1 \<ge> build2))"

definition preparable_on_server :: "string \<Rightarrow> parsed_query \<Rightarrow> bool" where
  "preparable_on_server server_version pq =
     (case query_types_array (pq_type pq) of
        (_, preparable, version) \<Rightarrow>
          preparable \<and> (case version of None \<Rightarrow> True | Some v \<Rightarrow> is_minimum_version server_version v))"

definition stmt_returns_result :: "parsed_query \<Rightarrow> bool" where
  "stmt_returns_result pq = fst (query_types_array (pq_type pq))"

definition skip_leading_spaces :: "string \<Rightarrow> string" where
  "skip_leading_spaces s = dropWhile is_c_space s"

definition is_set_names_statement :: "string \<Rightarrow> bool" where
  "is_set_names_statement query \<longleftrightarrow> myodbc_casecmp (skip_leading_spaces query) ''SET NAMES'' 9 = 0"

text \<open>A keyword with a space behind it, and the words after the space.\<close>

definition after_keyword :: "string \<Rightarrow> string \<Rightarrow> string option" where
  "after_keyword k query =
     (if myodbc_casecmp query k (length k) = 0 \<and> length k < length query \<and> is_c_space (query ! length k)
      then Some (skip_leading_spaces (drop (Suc (length k)) query)) else None)"

definition is_drop_procedure :: "string \<Rightarrow> bool" where
  "is_drop_procedure query = (case after_keyword ''DROP'' query of Some r \<Rightarrow> myodbc_casecmp r ''PROCEDURE'' 9 = 0 | None \<Rightarrow> False)"

definition is_drop_function :: "string \<Rightarrow> bool" where
  "is_drop_function query = (case after_keyword ''DROP'' query of Some r \<Rightarrow> myodbc_casecmp r ''FUNCTION'' 8 = 0 | None \<Rightarrow> False)"

definition is_create_procedure :: "string \<Rightarrow> bool" where
  "is_create_procedure query =
     (case after_keyword ''CREATE'' query of
        Some r \<Rightarrow> myodbc_casecmp r ''DEFINER'' 7 = 0 \<or> myodbc_casecmp r ''PROCEDURE'' 9 = 0
      | None \<Rightarrow> False)"

definition is_create_function :: "string \<Rightarrow> bool" where
  "is_create_function query = (case after_keyword ''CREATE'' query of Some r \<Rightarrow> myodbc_casecmp r ''FUNCTION'' 8 = 0 | None \<Rightarrow> False)"

definition is_use_db :: "string \<Rightarrow> bool" where
  "is_use_db query \<longleftrightarrow> after_keyword ''USE'' query \<noteq> None"

section \<open>Steps of the tokenizer\<close>

definition end_not_reached :: "parser \<Rightarrow> bool" where
  "end_not_reached p \<longleftrightarrow> p_pos p < length (text_of p)"

definition get_ctype :: "charset \<Rightarrow> parser \<Rightarrow> parser" where
  "get_ctype cs p =
     (if end_not_reached p
      then (case cs (drop (p_pos p) (text_of p)) of
              ((spc, ctr), byte_count) \<Rightarrow>
                p\<lparr>p_space := spc, p_ctrl := ctr,
                  bytes_at_pos := nat (if byte_count < 0 then - byte_count else byte_count)\<rparr>)
      else p\<lparr>bytes_at_pos := 0\<rparr>)"

text \<open>The type of the character before the first call is arbitrary; it is not read while the query is at its end.\<close>

definition init_parser :: "charset \<Rightarrow> parsed_query \<Rightarrow> parser" where
  "init_parser cs pq =
     get_ctype cs \<lparr>p_pos = 0, bytes_at_pos = 0, p_space = False, p_ctrl = False, p_quote = None, p_query = pq,
                   hash_comment = False, dash_comment = False, c_style_comment = False\<rparr>"

definition step_char :: "charset \<Rightarrow> parser \<Rightarrow> parser" where
  "step_char cs p =
     (let p = p\<lparr>p_pos := p_pos p + (if bytes_at_pos p \<noteq> 0 then bytes_at_pos p else 1)\<rparr>
      in if end_not_reached p then get_ctype cs p else p)"

definition at_char :: "parser \<Rightarrow> string \<Rightarrow> bool" where
  "at_char p str \<longleftrightarrow> bytes_at_pos p = length str \<and> take (bytes_at_pos p) (drop (p_pos p) (text_of p)) = str"

definition is_escape :: "parser \<Rightarrow> bool" where
  "is_escape p = at_char p [CHR 0x5C]"

definition quotes :: "string list" where
  "quotes = [[CHR 0x27], [CHR 0x22], [CHR 0x60]]"

definition is_quote :: "parser \<Rightarrow> string option" where
  "is_quote p = find (at_char p) quotes"

definition is_closing_quote :: "parser \<Rightarrow> bool" where
  "is_closing_quote p = (case p_quote p of Some q \<Rightarrow> at_char p q | None \<Rightarrow> False)"

definition is_param_marker :: "parser \<Rightarrow> bool" where
  "is_param_marker p = at_char p ''?''"

definition is_comment :: "parser \<Rightarrow> bool \<times> parser" where
  "is_comment p =
     (let p = p\<lparr>hash_comment := False, dash_comment := False, c_style_comment := False\<rparr>
      in if parser_compare p ''#'' then (True, p\<lparr>hash_comment := True\<rparr>)
         else if parser_compare p ''-- '' then (True, p\<lparr>dash_comment := True\<rparr>)
         else if parser_compare p ''/*!'' then (False, p)
         else if parser_compare p ''/*'' then (True, p\<lparr>c_style_comment := True\<rparr>)
         else (False, p))"

definition query_sep :: "string list" where
  "query_sep = ['';'', [CHR 0x5C, CHR ''g'']]"

definition is_query_separator :: "charset \<Rightarrow> parser \<Rightarrow> parser option" where
  "is_query_separator cs p =
     (case find (parser_compare p) query_sep of
        Some sep \<Rightarrow> Some (get_ctype cs (p\<lparr>p_pos := p_pos p + length sep\<rparr>))
      | None \<Rightarrow> None)"

definition add_token :: "parser \<Rightarrow> parser" where
  "add_token p =
     (if end_not_reached p then p\<lparr>p_query := (p_query p)\<lparr>token2 := token2 (p_query p) @ [p_pos p]\<rparr>\<rparr> else p)"

definition add_parameter :: "parser \<Rightarrow> parser" where
  "add_parameter p = p\<lparr>p_query := (p_query p)\<lparr>param_pos := param_pos (p_query p) @ [p_pos p]\<rparr>\<rparr>"

definition set_last_char :: "nat option \<Rightarrow> parser \<Rightarrow> parser" where
  "set_last_char c p = p\<lparr>p_query := (p_query p)\<lparr>last_char := c\<rparr>\<rparr>"

lemma step_text [simp]:
  "text_of (get_ctype cs p) = text_of p" "text_of (step_char cs p) = text_of p" "text_of (add_token p) = text_of p"
  "text_of (add_parameter p) = text_of p" "text_of (set_last_char c p) = text_of p"
  by (auto simp: get_ctype_def step_char_def add_token_def add_parameter_def set_last_char_def pq_text_def Let_def split: prod.split)

lemma ctype_fields [simp]:
  "p_pos (get_ctype cs p) = p_pos p" "p_quote (get_ctype cs p) = p_quote p" "p_query (get_ctype cs p) = p_query p"
  "p_pos (add_token p) = p_pos p" "p_pos (add_parameter p) = p_pos p" "p_pos (set_last_char c p) = p_pos p"
  "p_quote (add_token p) = p_quote p" "p_quote (set_last_char c p) = p_quote p" "p_quote (add_parameter p) = p_quote p"
  by (auto simp: get_ctype_def add_token_def add_parameter_def set_last_char_def Let_def split: prod.split)

lemma step_char_fields [simp]:
  "p_pos (step_char cs p) = p_pos p + (if bytes_at_pos p \<noteq> 0 then bytes_at_pos p else 1)"
  "p_quote (step_char cs p) = p_quote p" "p_query (step_char cs p) = p_query p"
  by (simp_all add: step_char_def Let_def)

section \<open>Loops\<close>

function skip_spaces :: "charset \<Rightarrow> parser \<Rightarrow> parser" where
  "skip_spaces cs p =
     (if end_not_reached p \<and> (p_space p \<or> p_ctrl p) then skip_spaces cs (step_char cs p) else p)"
  by pat_completeness auto
termination
  by (relation "measure (\<lambda>(cs, p). length (text_of p) - p_pos p)") (auto simp: end_not_reached_def)

function skip_comment :: "charset \<Rightarrow> parser \<Rightarrow> parser" where
  "skip_comment cs p =
     (if end_not_reached p \<and>
         (hash_comment p \<and> \<not> parser_compare p [CHR 0x0A] \<or> dash_comment p \<and> \<not> parser_compare p [CHR 0x0A] \<or>
          c_style_comment p \<and> \<not> parser_compare p ''*/'')
      then skip_comment cs (step_char cs p) else p)"
  by pat_completeness auto
termination
  by (relation "measure (\<lambda>(cs, p). length (text_of p) - p_pos p)") (auto simp: end_not_reached_def)

text \<open>The position of the last closing quote, if there is one, with the parser behind it.\<close>

function find_closing_quote :: "charset \<Rightarrow> parser \<Rightarrow> nat option \<Rightarrow> nat option \<times> parser" where
  "find_closing_quote cs p closing_quote =
     (if end_not_reached p
      then if is_escape p then find_closing_quote cs (step_char cs (step_char cs p)) closing_quote
           else if is_closing_quote p
           then (let closing_quote = Some (p_pos p); p1 = get_ctype cs (step_char cs p)
                 in if bytes_at_pos p1 = 0 \<or> is_quote p1 = None then (closing_quote, p1)
                    else find_closing_quote cs (step_char cs (p1\<lparr>p_quote := is_quote p1\<rparr>)) closing_quote)
           else find_closing_quote cs (step_char cs p) closing_quote
      else (closing_quote, p))"
  by pat_completeness auto
termination
  by (relation "measure (\<lambda>(cs, p, c). length (text_of p) - p_pos p)") (auto simp: end_not_reached_def pq_text_def)

declare skip_spaces.simps [simp del] skip_comment.simps [simp del] find_closing_quote.simps [simp del]

lemma skip_spaces_fields [simp]:
  "p_query (skip_spaces cs p) = p_query p" "p_quote (skip_spaces cs p) = p_quote p"
  by (induction cs p rule: skip_spaces.induct; subst skip_spaces.simps; simp)+

lemma skip_spaces_pos: "p_pos p \<le> p_pos (skip_spaces cs p)"
proof (induction cs p rule: skip_spaces.induct)
  case (1 cs p)
  then show ?case by (subst skip_spaces.simps) (fastforce split: if_splits)
qed

lemma skip_comment_fields [simp]:
  "p_query (skip_comment cs p) = p_query p" "p_quote (skip_comment cs p) = p_quote p"
  by (induction cs p rule: skip_comment.induct; subst skip_comment.simps; simp)+

lemma skip_comment_pos: "p_pos p \<le> p_pos (skip_comment cs p)"
proof (induction cs p rule: skip_comment.induct)
  case (1 cs p)
  then show ?case by (subst skip_comment.simps) (fastforce split: if_splits)
qed

lemma find_closing_quote_query [simp]: "p_query (snd (find_closing_quote cs p c)) = p_query p"
proof (induction cs p c rule: find_closing_quote.induct)
  case (1 cs p c)
  then show ?case by (subst find_closing_quote.simps) (auto simp: Let_def)
qed

lemma find_closing_quote_mono: "p_pos p \<le> p_pos (snd (find_closing_quote cs p c))"
proof (induction cs p c rule: find_closing_quote.induct)
  case (1 cs p c)
  then show ?case by (subst find_closing_quote.simps) (fastforce simp: Let_def split: if_splits)
qed

lemma find_closing_quote_pos:
  assumes "end_not_reached p"
  shows "p_pos p < p_pos (snd (find_closing_quote cs p c))"
proof -
  have "p_pos p < p_pos (snd (find_closing_quote cs p' c'))" if "p_pos p < p_pos p'" for p' c'
    using that find_closing_quote_mono [of p' cs c'] by linarith
  then show ?thesis using assms by (subst find_closing_quote.simps) (simp add: Let_def)
qed

lemma parser_compare_iff:
  assumes "str \<noteq> []"
  shows "parser_compare p str \<longleftrightarrow> (\<exists>r. drop (p_pos p) (text_of p) = str @ r)"
proof
  assume "parser_compare p str"
  then have "drop (p_pos p) (text_of p) = str @ drop (length str) (drop (p_pos p) (text_of p))"
    unfolding parser_compare_def by (metis append_take_drop_id)
  then show "\<exists>r. drop (p_pos p) (text_of p) = str @ r" by blast
next
  assume "\<exists>r. drop (p_pos p) (text_of p) = str @ r"
  then obtain r where r: "drop (p_pos p) (text_of p) = str @ r" by blast
  then have "length (text_of p) - p_pos p = length str + length r" by (metis length_append length_drop)
  moreover have "0 < length str" using assms by simp
  ultimately have "int (length str) \<le> int (length (text_of p)) - int (p_pos p)" by linarith
  then show "parser_compare p str" using r by (simp add: parser_compare_def bytes_left_def)
qed

lemma end_not_reached_drop: "end_not_reached p \<longleftrightarrow> drop (p_pos p) (text_of p) \<noteq> []"
  by (auto simp: end_not_reached_def)

lemma comment_not_end:
  assumes "is_comment p = (True, p')"
  shows "p_pos p' = p_pos p" "p_query p' = p_query p" "end_not_reached p'"
    "hash_comment p' \<and> \<not> parser_compare p' [CHR 0x0A] \<or> dash_comment p' \<and> \<not> parser_compare p' [CHR 0x0A] \<or>
       c_style_comment p' \<and> \<not> parser_compare p' ''*/''"
  using assms
  by (auto simp: is_comment_def Let_def parser_compare_iff end_not_reached_drop split: if_splits)

lemma skip_comment_progress: "is_comment p = (True, p') \<Longrightarrow> p_pos p < p_pos (skip_comment cs p')"
  using comment_not_end [of p p'] skip_comment_pos [of "step_char cs p'" cs]
  by (subst skip_comment.simps) (auto split: if_splits)

lemma is_comment_fields: "is_comment p = (b, p') \<Longrightarrow> p_pos p' = p_pos p \<and> p_query p' = p_query p \<and> p_quote p' = p_quote p \<and>
    bytes_at_pos p' = bytes_at_pos p \<and> p_space p' = p_space p \<and> p_ctrl p' = p_ctrl p"
  by (auto simp: is_comment_def Let_def split: if_splits)

lemma is_query_separator_pos: "is_query_separator cs p = Some p' \<Longrightarrow> p_pos p < p_pos p' \<and> p_query p' = p_query p \<and> p_quote p' = p_quote p"
  by (auto simp: is_query_separator_def query_sep_def split: option.splits if_splits)

subsection \<open>The tokenizer\<close>

text \<open>After spaces, a token starts.\<close>

definition after_spaces :: "charset \<Rightarrow> parser \<Rightarrow> parser" where
  "after_spaces cs p = (if p_space p then add_token (skip_spaces cs (step_char cs p)) else p)"

text \<open>An opening quote or a parameter marker at the position.\<close>

definition take_char :: "parser \<Rightarrow> parser" where
  "take_char p =
     (case is_quote p of
        Some q \<Rightarrow> add_token (p\<lparr>p_quote := Some q\<rparr>)
      | None \<Rightarrow> if is_param_marker p then add_parameter p else p)"

lemma after_spaces_fields [simp]: "text_of (after_spaces cs p) = text_of p" "p_quote (after_spaces cs p) = p_quote p"
  by (simp_all add: after_spaces_def)

lemma after_spaces_pos: "p_pos p \<le> p_pos (after_spaces cs p)"
  using skip_spaces_pos [of "step_char cs p" cs] by (auto simp: after_spaces_def split: if_splits)

lemma take_char_fields [simp]: "p_pos (take_char p) = p_pos p" "text_of (take_char p) = text_of p"
  "bytes_at_pos (take_char p) = bytes_at_pos p"
  by (auto simp: take_char_def add_token_def add_parameter_def pq_text_def split: option.split)

lemma progress_less:
  "end_not_reached p \<Longrightarrow> p_pos p < p_pos p' \<Longrightarrow> text_of p' = text_of p \<Longrightarrow>
     length (text_of p') - p_pos p' < length (text_of p) - p_pos p"
  by (simp add: end_not_reached_def)

function tokenize_loop :: "charset \<Rightarrow> parser \<Rightarrow> parser" where
  "tokenize_loop cs p =
     (if \<not> end_not_reached p then p
      else if p_quote p \<noteq> None
      then (case find_closing_quote cs p None of (c, p1) \<Rightarrow> tokenize_loop cs ((set_last_char c p1)\<lparr>p_quote := None\<rparr>))
      else
        (let p1 = after_spaces cs p
         in if \<not> end_not_reached p1 then p1
            else
              (case is_query_separator cs p1 of
                 Some p2 \<Rightarrow> tokenize_loop cs (add_token (skip_spaces cs p2))
               | None \<Rightarrow>
                   (let p2 = set_last_char (Some (p_pos p1)) p1
                    in if is_quote p2 \<noteq> None then tokenize_loop cs (step_char cs (take_char p2))
                       else
                         (case is_comment p2 of
                            (True, p3) \<Rightarrow> tokenize_loop cs (skip_comment cs p3)
                          | (False, p3) \<Rightarrow> tokenize_loop cs (step_char cs (take_char p3)))))))"
  by pat_completeness auto
termination
proof (relation "measure (\<lambda>(cs, p). length (text_of p) - p_pos p)", goal_cases)
  case (2 cs p c p1)
  then have "p1 = snd (find_closing_quote cs p None)" by (metis snd_conv)
  then show ?case using 2 find_closing_quote_pos [of p cs None] progress_less [of p "(set_last_char c p1)\<lparr>p_quote := None\<rparr>"]
    by (simp add: set_last_char_def pq_text_def)
next
  case (6 cs p p1 p2)
  then show ?case using progress_less [of p "add_token (skip_spaces cs p2)"] after_spaces_pos [of p cs]
      is_query_separator_pos [of cs p1 p2] skip_spaces_pos [of p2 cs] by auto
next
  case (3 cs p p1 p2)
  then show ?case using progress_less [of p "step_char cs (take_char p2)"] after_spaces_pos [of p cs] by auto
next
  case (4 cs p p1 p2 b p3)
  then have "is_comment p2 = (True, p3)" by simp
  then show ?case using 4 progress_less [of p "skip_comment cs p3"] after_spaces_pos [of p cs] skip_comment_progress [of p2 p3 cs]
      is_comment_fields [of p2 True p3] by auto
next
  case (5 cs p p1 p2 b p3)
  then have "is_comment p2 = (False, p3)" by simp
  then show ?case using 5 progress_less [of p "step_char cs (take_char p3)"] after_spaces_pos [of p cs]
      is_comment_fields [of p2 False p3] by auto
qed simp
declare tokenize_loop.simps [simp del]

definition prepared :: "parser \<Rightarrow> parser" where
  "prepared p1 = set_last_char (Some (p_pos p1)) p1"

definition outside :: "charset \<Rightarrow> parser \<Rightarrow> parser \<Rightarrow> bool" where
  "outside cs p p1 \<longleftrightarrow> end_not_reached p \<and> p_quote p = None \<and> p1 = after_spaces cs p"

text \<open>The iterations of the tokenizer, as an induction rule over its start and its result.\<close>

lemma tokenize_rule [case_names fin quoted spaces separator opens comment plain]:
  fixes P :: "parser \<Rightarrow> parser \<Rightarrow> bool"
  assumes fin: "\<And>p. \<not> end_not_reached p \<Longrightarrow> P p p"
    and quoted: "\<And>p q c p1 r. end_not_reached p \<Longrightarrow> p_quote p = Some q \<Longrightarrow> find_closing_quote cs p None = (c, p1) \<Longrightarrow>
      P ((set_last_char c p1)\<lparr>p_quote := None\<rparr>) r \<Longrightarrow> P p r"
    and spaces: "\<And>p p1. outside cs p p1 \<Longrightarrow> \<not> end_not_reached p1 \<Longrightarrow> P p p1"
    and separator: "\<And>p p1 p2 r. outside cs p p1 \<Longrightarrow> end_not_reached p1 \<Longrightarrow> is_query_separator cs p1 = Some p2 \<Longrightarrow>
      P (add_token (skip_spaces cs p2)) r \<Longrightarrow> P p r"
    and opens: "\<And>p p1 p2 q r. outside cs p p1 \<Longrightarrow> end_not_reached p1 \<Longrightarrow> is_query_separator cs p1 = None \<Longrightarrow> p2 = prepared p1 \<Longrightarrow>
      is_quote p2 = Some q \<Longrightarrow> P (step_char cs (take_char p2)) r \<Longrightarrow> P p r"
    and comment: "\<And>p p1 p2 p3 r. outside cs p p1 \<Longrightarrow> end_not_reached p1 \<Longrightarrow> is_query_separator cs p1 = None \<Longrightarrow> p2 = prepared p1 \<Longrightarrow>
      is_quote p2 = None \<Longrightarrow> is_comment p2 = (True, p3) \<Longrightarrow> P (skip_comment cs p3) r \<Longrightarrow> P p r"
    and plain: "\<And>p p1 p2 p3 r. outside cs p p1 \<Longrightarrow> end_not_reached p1 \<Longrightarrow> is_query_separator cs p1 = None \<Longrightarrow> p2 = prepared p1 \<Longrightarrow>
      is_quote p2 = None \<Longrightarrow> is_comment p2 = (False, p3) \<Longrightarrow> P (step_char cs (take_char p3)) r \<Longrightarrow> P p r"
  shows "P p (tokenize_loop cs p)"
proof (induction cs\<equiv>cs p rule: tokenize_loop.induct)
  case (1 p)
  define p1 where "p1 = after_spaces cs p"
  define p2 where "p2 = set_last_char (Some (p_pos p1)) p1"
  note loop = tokenize_loop.simps [of cs p, folded p1_def, unfolded Let_def, folded p2_def]
  show ?case
  proof (cases "end_not_reached p \<and> p_quote p = None")
    case False
    then consider "\<not> end_not_reached p" | q where "end_not_reached p" "p_quote p = Some q" by auto
    then show ?thesis
    proof cases
      case (2 q)
      obtain c q1 where fc: "find_closing_quote cs p None = (c, q1)" by fastforce
      show ?thesis using quoted [OF 2 fc 1(1) [OF _ _ fc [symmetric]]] 2 fc loop by simp
    qed (use fin loop in simp)
  next
    case True
    then have out: "outside cs p p1" by (simp add: outside_def p1_def)
    show ?thesis
    proof (cases "end_not_reached p1 \<and> is_query_separator cs p1 = None")
      case False
      then consider "\<not> end_not_reached p1" | q where "end_not_reached p1" "is_query_separator cs p1 = Some q" by auto
      then show ?thesis
      proof cases
        case (2 q)
        show ?thesis using separator [OF out 2 1(5) [OF _ _ p1_def _ 2(2)]] 2 True loop by simp
      qed (use spaces [OF out] True loop in simp)
    next
      case in_text: True
      show ?thesis
      proof (cases "is_quote p2")
        case (Some q)
        have "P (step_char cs (take_char p2)) (tokenize_loop cs (step_char cs (take_char p2)))"
          by (rule 1(2) [OF _ _ p1_def _ _ p2_def]) (use True in_text Some in simp_all)
        from opens [OF out _ _ _ Some this] in_text show ?thesis using True Some loop by (simp add: prepared_def p2_def)
      next
        case None
        obtain b p3 where cm: "is_comment p2 = (b, p3)" by fastforce
        show ?thesis
        proof (cases b)
          case True
          have "P (skip_comment cs p3) (tokenize_loop cs (skip_comment cs p3))"
            by (rule 1(3) [OF _ _ p1_def _ _ p2_def _ cm [symmetric]]) (use \<open>end_not_reached p \<and> p_quote p = None\<close> in_text None True in simp_all)
          from comment [OF out _ _ _ None _ this] in_text show ?thesis
            using \<open>end_not_reached p \<and> p_quote p = None\<close> None True cm loop by (simp add: prepared_def p2_def)
        next
          case False
          have "P (step_char cs (take_char p3)) (tokenize_loop cs (step_char cs (take_char p3)))"
            by (rule 1(4) [OF _ _ p1_def _ _ p2_def _ cm [symmetric]]) (use True in_text None False in simp_all)
          from plain [OF out _ _ _ None _ this] in_text show ?thesis
            using True None False cm loop by (simp add: prepared_def p2_def)
        qed
      qed
    qed
  qed
qed

definition tokenize :: "charset \<Rightarrow> parser \<Rightarrow> parser" where
  "tokenize cs p = tokenize_loop cs (add_token (skip_spaces cs p))"

section \<open>The type of a query\<close>

text \<open>
  The positions a keyword is looked for. They are read from the first rule of the table, whatever
  the rule; the last one is the smaller of two unsigned numbers, of which the number of tokens less
  one wraps.
\<close>

definition rule_positions :: "parsed_query \<Rightarrow> nat list" where
  "rule_positions pq =
     (let r = hd rules; thru = (if r_pos_thru r > 0 then r_pos_thru r else r_pos_from r);
          last_token = nat ((int (token_count pq) - 1) mod 2 ^ 64)
      in [r_pos_from r ..< Suc (min thru last_token)])"

fun process_rule :: "rule \<Rightarrow> parsed_query \<Rightarrow> query_type option" where
  "process_rule (Rule keyword _ _ qt and_rule or_rule) pq =
     (if pq_query pq \<noteq> None \<and> list_ex (\<lambda>i. case_compare pq (get_token i pq) keyword) (rule_positions pq)
      then (case and_rule of Some r \<Rightarrow> process_rule r pq | None \<Rightarrow> Some qt)
      else (case or_rule of Some r \<Rightarrow> process_rule r pq | None \<Rightarrow> None))"

fun detect_query_type :: "rule list \<Rightarrow> parsed_query \<Rightarrow> query_type \<times> parsed_query" where
  "detect_query_type [] pq = (myqtOther, pq)"
| "detect_query_type (r # rs) pq =
     (case process_rule r pq of
        Some qt \<Rightarrow> (qt, pq\<lparr>pq_type := qt\<rparr>)
      | None \<Rightarrow> detect_query_type rs pq)"

section \<open>Braces\<close>

definition blank :: "nat \<Rightarrow> parsed_query \<Rightarrow> parsed_query" where
  "blank i pq = pq\<lparr>pq_query := map_option (\<lambda>s. s[i := CHR '' '']) (pq_query pq)\<rparr>"

definition embraced :: "parsed_query \<Rightarrow> (nat \<times> nat) option" where
  "embraced pq =
     (case (get_token 0 pq, last_char pq) of
        (Some t, Some l) \<Rightarrow> if pq_text pq ! t = CHR ''{'' \<and> pq_text pq ! l = CHR ''}'' then Some (t, l) else None
      | _ \<Rightarrow> None)"

definition remove_braces :: "charset \<Rightarrow> parser \<Rightarrow> bool \<times> parser" where
  "remove_braces cs p =
     (case embraced (p_query p) of
        None \<Rightarrow> (False, p)
      | Some (t, l) \<Rightarrow>
          (let p = get_ctype cs (p\<lparr>p_query := blank l (blank t (p_query p)), p_pos := t\<rparr>);
               toks = (if p_space p then tl (token2 (p_query p)) else token2 (p_query p));
               toks = (if toks \<noteq> [] \<and> l = last toks then butlast toks else toks)
           in (True, p\<lparr>p_query := (p_query p)\<lparr>token2 := toks, last_char := None\<rparr>\<rparr>)))"

definition parse :: "charset \<Rightarrow> parsed_query \<Rightarrow> parsed_query" where
  "parse cs pq =
     (case remove_braces cs (tokenize cs (init_parser cs pq)) of
        (_, p) \<Rightarrow> snd (detect_query_type rules (p_query p)))"

definition parse_statement :: "charset \<Rightarrow> string \<Rightarrow> parsed_query" where
  "parse_statement cs s = parse cs (reset_query (Some s) True MY_PARSED_QUERY)"

text \<open>ASCII, the character set of the examples: spaces and control characters as the library classifies them.\<close>

definition ascii :: charset where
  "ascii s =
     (let c = of_char (hd s) :: nat
      in ((c = 32 \<or> 9 \<le> c \<and> c \<le> 13, c < 32 \<or> c = 127), 1))"

section \<open>Which parameter markers count\<close>

text \<open>
  The reference reads a query from left to right, one character after the other, and knows only
  whether it is in a string or quoted name, in a comment, or outside.
\<close>

datatype scan_mode = Plain | Quoted string | Line_comment | Block_comment

definition width :: "charset \<Rightarrow> string \<Rightarrow> nat" where
  "width cs s = (let n = nat \<bar>snd (cs s)\<bar> in if n = 0 then 1 else n)"

definition one_char :: "charset \<Rightarrow> string \<Rightarrow> string \<Rightarrow> bool" where
  "one_char cs s c \<longleftrightarrow> nat \<bar>snd (cs s)\<bar> = 1 \<and> take 1 s = c"

definition quote_at :: "charset \<Rightarrow> string \<Rightarrow> string option" where
  "quote_at cs s = find (one_char cs s) quotes"

definition starts :: "string \<Rightarrow> string \<Rightarrow> bool" where
  "starts m s \<longleftrightarrow> take (length m) s = m"

lemma width_pos [simp]: "0 < width cs s"
  by (simp add: width_def Let_def)

function markers :: "charset \<Rightarrow> scan_mode \<Rightarrow> nat \<Rightarrow> string \<Rightarrow> nat list" where
  "markers cs m i s =
     (if s = [] then []
      else
        (let n = width cs s; s' = drop n s; i' = i + n
         in case m of
              Plain \<Rightarrow>
                if starts '';'' s then markers cs Plain (i + 1) (drop 1 s)
                else if starts [CHR 0x5C, CHR ''g''] s then markers cs Plain (i + 2) (drop 2 s)
                else if quote_at cs s \<noteq> None then markers cs (Quoted (the (quote_at cs s))) i' s'
                else if starts ''#'' s \<or> starts ''-- '' s then markers cs Line_comment i' s'
                else if starts ''/*'' s \<and> \<not> starts ''/*!'' s then markers cs Block_comment i' s'
                else if one_char cs s ''?'' then i # markers cs Plain i' s'
                else markers cs Plain i' s'
            | Quoted q \<Rightarrow>
                if one_char cs s [CHR 0x5C] then markers cs (Quoted q) (i' + width cs s') (drop (width cs s') s')
                else if one_char cs s q
                then (if quote_at cs s' \<noteq> None
                      then markers cs (Quoted (the (quote_at cs s'))) (i' + width cs s') (drop (width cs s') s')
                      else markers cs Plain i' s')
                else markers cs (Quoted q) i' s'
            | Line_comment \<Rightarrow> if starts [CHR 0x0A] s then markers cs Plain i' s' else markers cs Line_comment i' s'
            | Block_comment \<Rightarrow> if starts ''*/'' s then markers cs Plain i' s' else markers cs Block_comment i' s'))"
  by pat_completeness auto
termination
  by (relation "measure (\<lambda>(cs, m, i, s). length s)") (auto simp: Let_def)

declare markers.simps [simp del]

lemma markers_Nil [simp]: "markers cs m i [] = []"
  by (simp add: markers.simps)

text \<open>Spaces and control characters are not special.\<close>

definition others :: "string set" where
  "others = {s. hd s \<notin> set [CHR 0x27, CHR 0x22, CHR 0x60, CHR ''?'', CHR ''#'', CHR ''-'', CHR ''/'', CHR '';'', CHR 0x5C]}"

definition charset_ok :: "charset \<Rightarrow> bool" where
  "charset_ok cs \<longleftrightarrow> (\<forall>s. s \<noteq> [] \<longrightarrow> fst (fst (cs s)) \<or> snd (fst (cs s)) \<longrightarrow> s \<in> others)"

lemma markers_other:
  assumes "s \<noteq> []" "s \<in> others"
  shows "markers cs Plain i s = markers cs Plain (i + width cs s) (drop (width cs s) s)"
proof -
  obtain c r where "s = c # r" using assms(1) by (cases s) auto
  then show ?thesis using assms(2)
    by (subst markers.simps) (simp add: others_def starts_def quote_at_def one_char_def quotes_def Let_def)
qed

subsection \<open>The tokenizer's state against the reference\<close>

abbreviation rest_of :: "parser \<Rightarrow> string" where
  "rest_of p \<equiv> drop (p_pos p) (text_of p)"

definition fresh :: "charset \<Rightarrow> parser \<Rightarrow> bool" where
  "fresh cs p \<longleftrightarrow> (end_not_reached p \<longrightarrow>
     (p_space p, p_ctrl p) = fst (cs (rest_of p)) \<and> bytes_at_pos p = nat \<bar>snd (cs (rest_of p))\<bar>)"

definition markers_from :: "charset \<Rightarrow> scan_mode \<Rightarrow> parser \<Rightarrow> nat list" where
  "markers_from cs m p = markers cs m (p_pos p) (rest_of p)"

lemma markers_from_end: "\<not> end_not_reached p \<Longrightarrow> markers_from cs m p = []"
  by (simp add: markers_from_def end_not_reached_drop)

lemma fresh_get_ctype [simp]: "fresh cs (get_ctype cs p)"
  by (auto simp: fresh_def get_ctype_def end_not_reached_def pq_text_def split: prod.split)

lemma fresh_step [simp]: "fresh cs (step_char cs p)"
proof -
  have "fresh cs p" if "\<not> end_not_reached p" for p using that by (simp add: fresh_def)
  then show ?thesis by (simp add: step_char_def Let_def)
qed

lemma fresh_cong:
  "p_pos p' = p_pos p \<Longrightarrow> text_of p' = text_of p \<Longrightarrow> bytes_at_pos p' = bytes_at_pos p \<Longrightarrow> p_space p' = p_space p \<Longrightarrow>
   p_ctrl p' = p_ctrl p \<Longrightarrow> fresh cs p' = fresh cs p"
  by (simp add: fresh_def end_not_reached_def)

lemma step_markers:
  assumes "fresh cs p" "end_not_reached p"
  shows "markers_from cs m (step_char cs p) = markers cs m (p_pos p + width cs (rest_of p)) (drop (width cs (rest_of p)) (rest_of p))"
proof -
  have "p_pos (step_char cs p) = p_pos p + width cs (rest_of p)" using assms by (simp add: fresh_def width_def Let_def)
  then show ?thesis by (simp add: markers_from_def add.commute)
qed

lemma at_char_one: "fresh cs p \<Longrightarrow> end_not_reached p \<Longrightarrow> length str = 1 \<Longrightarrow> at_char p str \<longleftrightarrow> one_char cs (rest_of p) str"
  by (auto simp: at_char_def one_char_def fresh_def)

lemma is_quote_at: "fresh cs p \<Longrightarrow> end_not_reached p \<Longrightarrow> is_quote p = quote_at cs (rest_of p)"
  by (simp add: is_quote_def quote_at_def quotes_def at_char_one)

lemma compare_starts: "str \<noteq> [] \<Longrightarrow> parser_compare p str \<longleftrightarrow> starts str (rest_of p)"
  by (auto simp: parser_compare_iff starts_def) (metis append_take_drop_id)

lemma fresh_class:
  "fresh cs p \<Longrightarrow> end_not_reached p \<Longrightarrow> p_space p = fst (fst (cs (rest_of p))) \<and> p_ctrl p = snd (fst (cs (rest_of p)))"
  by (cases "fst (cs (rest_of p))") (simp add: fresh_def)

lemma skip_spaces_markers:
  assumes "charset_ok cs" "fresh cs p"
  shows "fresh cs (skip_spaces cs p) \<and> markers_from cs Plain (skip_spaces cs p) = markers_from cs Plain p"
  using assms
proof (induction cs p rule: skip_spaces.induct)
  case (1 cs p)
  show ?case
  proof (cases "end_not_reached p \<and> (p_space p \<or> p_ctrl p)")
    case True
    then have ne: "rest_of p \<noteq> []" by (simp add: end_not_reached_drop)
    have "rest_of p \<in> others" using True fresh_class [OF 1(3)] ne 1(2) unfolding charset_ok_def by blast
    from markers_other [OF ne this, of cs "p_pos p"] step_markers [OF 1(3)] True
    have "markers_from cs Plain p = markers_from cs Plain (step_char cs p)" by (simp add: markers_from_def)
    with 1(1) [OF True 1(2) fresh_step] True show ?thesis by (subst (1 2) skip_spaces.simps) simp
  next
    case False
    then have "skip_spaces cs p = p" by (subst skip_spaces.simps) auto
    then show ?thesis using 1(3) by simp
  qed
qed

lemma step_flags [simp]:
  "hash_comment (step_char cs p) = hash_comment p" "dash_comment (step_char cs p) = dash_comment p"
  "c_style_comment (step_char cs p) = c_style_comment p"
  by (auto simp: step_char_def get_ctype_def Let_def split: prod.split)

lemma starts_hd: "starts (c # m) s \<Longrightarrow> s \<noteq> [] \<and> hd s = c"
  by (cases s) (auto simp: starts_def)

lemma starts_clash: "starts (c # m) s \<Longrightarrow> starts (d # n) s \<Longrightarrow> c = d"
  using starts_hd by blast

lemma skip_line_comment:
  assumes "fresh cs p" "hash_comment p \<or> dash_comment p" "\<not> c_style_comment p"
  shows "fresh cs (skip_comment cs p) \<and> markers_from cs Plain (skip_comment cs p) = markers_from cs Line_comment p"
  using assms
proof (induction cs p rule: skip_comment.induct)
  case (1 cs p)
  show ?case
  proof (cases "end_not_reached p \<and> \<not> parser_compare p [CHR 0x0A]")
    case True
    then have "markers_from cs Line_comment p = markers_from cs Line_comment (step_char cs p)"
      using step_markers [OF 1(2)] compare_starts [of "[CHR 0x0A]" p]
      by (subst markers_from_def, subst markers.simps) (simp add: Let_def end_not_reached_drop)
    with 1 True show ?thesis by (subst (1 2) skip_comment.simps) simp
  next
    case False
    have "markers_from cs Plain p = markers_from cs Line_comment p"
    proof (cases "end_not_reached p")
      case True
      then have s: "starts [CHR 0x0A] (rest_of p)" using False compare_starts [of "[CHR 0x0A]" p] by simp
      then have "rest_of p \<in> others" "rest_of p \<noteq> []" using starts_hd [OF s] by (simp_all add: others_def)
      from markers_other [OF this(2,1)] s starts_hd [OF s] show ?thesis
        by (simp add: markers_from_def markers.simps [of cs Line_comment] Let_def)
    qed (simp add: markers_from_end)
    moreover have "skip_comment cs p = p" using False 1(4) by (subst skip_comment.simps) auto
    ultimately show ?thesis using 1(2) by simp
  qed
qed

lemma skip_block_comment:
  assumes "fresh cs p" "\<not> hash_comment p" "\<not> dash_comment p" "c_style_comment p"
  shows "fresh cs (skip_comment cs p) \<and> markers_from cs Plain (skip_comment cs p) = markers_from cs Block_comment p"
  using assms
proof (induction cs p rule: skip_comment.induct)
  case (1 cs p)
  show ?case
  proof (cases "end_not_reached p \<and> \<not> parser_compare p ''*/''")
    case True
    then have "markers_from cs Block_comment p = markers_from cs Block_comment (step_char cs p)"
      using step_markers [OF 1(2)] compare_starts [of "''*/''" p]
      by (subst markers_from_def, subst markers.simps) (simp add: Let_def end_not_reached_drop)
    with 1 True show ?thesis by (subst (1 2) skip_comment.simps) simp
  next
    case False
    have "markers_from cs Plain p = markers_from cs Block_comment p"
    proof (cases "end_not_reached p")
      case True
      then have s: "starts ''*/'' (rest_of p)" using False compare_starts [of "''*/''" p] by simp
      then have "rest_of p \<in> others" "rest_of p \<noteq> []" using starts_hd [OF s] by (simp_all add: others_def)
      from markers_other [OF this(2,1)] s starts_hd [OF s] show ?thesis
        by (simp add: markers_from_def markers.simps [of cs Block_comment] Let_def)
    qed (simp add: markers_from_end)
    moreover have "skip_comment cs p = p" using False 1(3,4) by (subst skip_comment.simps) auto
    ultimately show ?thesis using 1(2) by simp
  qed
qed

text \<open>Two characters further, the second one of whatever width.\<close>

lemma two_steps:
  assumes "fresh cs p" "end_not_reached p" "fresh cs p1" "p_pos p1 = p_pos (step_char cs p)" "text_of p1 = text_of p"
  shows "markers_from cs m (step_char cs p1) =
    (let n = width cs (rest_of p); s' = drop n (rest_of p)
     in markers cs m (p_pos p + n + width cs s') (drop (width cs s') s'))"
proof -
  have pos: "p_pos p1 = p_pos p + width cs (rest_of p)" using assms(1,2,4) by (simp add: fresh_def width_def Let_def)
  then have r: "rest_of p1 = drop (width cs (rest_of p)) (rest_of p)" using assms(5) by (simp add: add.commute)
  show ?thesis
  proof (cases "end_not_reached p1")
    case True
    from step_markers [OF assms(3) True, of m, unfolded r, unfolded pos] show ?thesis unfolding Let_def .
  next
    case False
    then have "\<not> end_not_reached (step_char cs p1)" "rest_of p1 = []" by (auto simp: end_not_reached_def)
    then show ?thesis using r by (simp add: markers_from_end Let_def)
  qed
qed

lemma fresh_set [simp]: "fresh cs (p\<lparr>p_quote := q\<rparr>) = fresh cs p" "fresh cs (set_last_char l p) = fresh cs p" "fresh cs (add_token p) = fresh cs p"
    "fresh cs (add_parameter p) = fresh cs p"
  by (rule fresh_cong; simp add: set_last_char_def add_token_def add_parameter_def pq_text_def)+

lemma find_closing_quote_markers:
  assumes "fresh cs p" "p_quote p = Some q" "length q = 1" "find_closing_quote cs p c = (c', p')"
  shows "fresh cs p' \<and> markers_from cs Plain p' = markers_from cs (Quoted q) p"
  using assms
proof (induction cs p c arbitrary: q rule: find_closing_quote.induct)
  case (1 cs p c)
  note pre = 1(4-7)
  show ?case
  proof (cases "end_not_reached p")
    case False
    then have "p' = p" using pre(4) by (simp add: find_closing_quote.simps [of cs p])
    then show ?thesis using False by (simp add: markers_from_end fresh_def)
  next
    case True
    note more = True
    have ne: "rest_of p \<noteq> []" using more by (simp add: end_not_reached_drop)
    have esc: "is_escape p \<longleftrightarrow> one_char cs (rest_of p) [CHR 0x5C]" using at_char_one [OF pre(1) more] by (simp add: is_escape_def)
    have clo: "is_closing_quote p \<longleftrightarrow> one_char cs (rest_of p) q" using at_char_one [OF pre(1) more pre(3)] pre(2) by (simp add: is_closing_quote_def)
    define M where "M = markers_from cs (Quoted q) p"
    note M_eq = M_def [unfolded markers_from_def, unfolded markers.simps [of cs "Quoted q" "p_pos p" "rest_of p"], simplified ne if_False Let_def scan_mode.case]
    consider (escape) "is_escape p" | (closing) "\<not> is_escape p" "is_closing_quote p" | (other) "\<not> is_escape p" "\<not> is_closing_quote p" by blast
    then have "fresh cs p' \<and> markers_from cs Plain p' = M"
    proof cases
      case escape
      have "markers_from cs (Quoted q) (step_char cs (step_char cs p)) = M"
        using two_steps [OF pre(1) more, of "step_char cs p" "Quoted q"] M_eq escape esc by (simp add: Let_def)
      moreover have "find_closing_quote cs (step_char cs (step_char cs p)) c = (c', p')"
        using pre(4) more escape by (simp add: find_closing_quote.simps [of cs p])
      ultimately show ?thesis using 1(1) [OF more escape, of q] pre by simp
    next
      case closing
      define p1 where "p1 = get_ctype cs (step_char cs p)"
      have p1: "fresh cs p1" "p_pos p1 = p_pos (step_char cs p)" "text_of p1 = text_of p" by (simp_all add: p1_def)
      have r1: "rest_of p1 = drop (width cs (rest_of p)) (rest_of p)"
        using pre(1) more p1(2,3) by (simp add: fresh_def width_def Let_def add.commute)
      have q1: "bytes_at_pos p1 = 0 \<or> is_quote p1 = None \<longleftrightarrow> quote_at cs (rest_of p1) = None" "is_quote p1 \<noteq> None \<Longrightarrow> is_quote p1 = quote_at cs (rest_of p1)"
        using is_quote_at [OF p1(1)] p1(1) by (cases "end_not_reached p1"; auto simp: quote_at_def one_char_def quotes_def is_quote_def at_char_def end_not_reached_drop fresh_def)+
      show ?thesis
      proof (cases "quote_at cs (rest_of p1) = None")
        case True
        then have "(c', p') = (Some (p_pos p), p1)" using pre(4) more closing q1(1) by (simp add: find_closing_quote.simps [of cs p] p1_def Let_def)
        moreover have "M = markers_from cs Plain p1"
          using M_eq closing esc clo True r1 p1(2) pre(1) more
          by (simp add: markers_from_def fresh_def width_def Let_def)
        ultimately show ?thesis using p1(1) by simp
      next
        case False
        then obtain q' where q': "quote_at cs (rest_of p1) = Some q'" by blast
        then have len: "length q' = 1" by (auto simp: quote_at_def quotes_def split: if_splits)
        have iq: "is_quote p1 = Some q'" "bytes_at_pos p1 \<noteq> 0" using q1 q' by auto
        let ?p2 = "p1\<lparr>p_quote := Some q'\<rparr>"
        have "markers_from cs (Quoted q') (step_char cs ?p2) = M"
          using two_steps [OF pre(1) more, of ?p2 "Quoted q'"] p1 M_eq closing esc clo q' r1 by (simp add: Let_def)
        moreover have "find_closing_quote cs (step_char cs ?p2) (Some (p_pos p)) = (c', p')"
          using pre(4) more closing iq by (simp add: find_closing_quote.simps [of cs p] p1_def Let_def)
        ultimately show ?thesis using 1(2) [OF more closing refl p1_def, of q'] iq len by simp
      qed
    next
      case other
      have "markers_from cs (Quoted q) (step_char cs p) = M" using step_markers [OF pre(1) more] M_eq other esc clo by simp
      moreover have "find_closing_quote cs (step_char cs p) c = (c', p')"
        using pre(4) more other by (simp add: find_closing_quote.simps [of cs p])
      ultimately show ?thesis using 1(3) [OF more other, of q] pre by simp
    qed
    then show ?thesis by (simp add: M_def)
  qed
qed

definition mode_of :: "parser \<Rightarrow> scan_mode" where
  "mode_of p = (case p_quote p of None \<Rightarrow> Plain | Some q \<Rightarrow> Quoted q)"

definition quote_ok :: "parser \<Rightarrow> bool" where
  "quote_ok p \<longleftrightarrow> (case p_quote p of None \<Rightarrow> True | Some q \<Rightarrow> length q = 1)"

abbreviation params :: "parser \<Rightarrow> nat list" where
  "params p \<equiv> param_pos (p_query p)"

lemma param_fields [simp]:
  "params (add_token p) = params p" "params (set_last_char c p) = params p" "markers_from cs m (add_token p) = markers_from cs m p"
  "markers_from cs m (set_last_char c p) = markers_from cs m p" "markers_from cs m (p\<lparr>p_quote := q\<rparr>) = markers_from cs m p"
  "markers_from cs m (add_parameter p) = markers_from cs m p"
  by (simp_all add: add_token_def add_parameter_def set_last_char_def markers_from_def pq_text_def)

lemma after_spaces_markers:
  assumes "charset_ok cs" "fresh cs p" "end_not_reached p"
  shows "fresh cs (after_spaces cs p) \<and> markers_from cs Plain (after_spaces cs p) = markers_from cs Plain p \<and>
    params (after_spaces cs p) = params p"
proof (cases "p_space p")
  case True
  have ne: "rest_of p \<noteq> []" using assms(3) by (simp add: end_not_reached_drop)
  have "rest_of p \<in> others" using True fresh_class [OF assms(2,3)] ne assms(1) unfolding charset_ok_def by blast
  from markers_other [OF ne this, of cs "p_pos p"] step_markers [OF assms(2,3)]
  have "markers_from cs Plain p = markers_from cs Plain (step_char cs p)" by (simp add: markers_from_def)
  with skip_spaces_markers [OF assms(1), of "step_char cs p"] True show ?thesis by (simp add: after_spaces_def)
qed (use assms(2) in \<open>simp add: after_spaces_def\<close>)

lemma separator_markers:
  assumes "is_query_separator cs p = Some p2"
  shows "fresh cs p2 \<and> markers_from cs Plain p2 = markers_from cs Plain p \<and> params p2 = params p"
proof -
  obtain sep where sep: "find (parser_compare p) query_sep = Some sep" "p2 = get_ctype cs (p\<lparr>p_pos := p_pos p + length sep\<rparr>)"
    using assms by (auto simp: is_query_separator_def split: option.splits)
  have eq: "markers_from cs Plain p2 = markers cs Plain (p_pos p + length sep) (drop (length sep) (rest_of p))"
    using sep(2) by (simp add: markers_from_def add.commute pq_text_def)
  have "sep = '';'' \<and> starts '';'' (rest_of p) \<or> sep = [CHR 0x5C, CHR ''g''] \<and> starts [CHR 0x5C, CHR ''g''] (rest_of p) \<and> \<not> starts '';'' (rest_of p)"
    using sep(1) by (auto simp: query_sep_def compare_starts split: if_splits)
  then have "markers_from cs Plain p = markers cs Plain (p_pos p + length sep) (drop (length sep) (rest_of p))"
    by (subst markers_from_def, subst markers.simps) (auto simp: Let_def dest: starts_hd)
  with eq sep(2) show ?thesis by simp
qed

lemma separator_last: "is_query_separator cs (set_last_char c p) = None \<longleftrightarrow> is_query_separator cs p = None"
  by (auto simp: is_query_separator_def query_sep_def compare_starts split: option.splits if_splits)

lemma no_separator: "is_query_separator cs p = None \<Longrightarrow> \<not> starts '';'' (rest_of p) \<and> \<not> starts [CHR 0x5C, CHR ''g''] (rest_of p)"
  by (auto simp: is_query_separator_def query_sep_def compare_starts split: option.splits if_splits)

lemma comment_markers:
  assumes c: "is_comment p = (True, p3)" and f: "fresh cs p" and s: "is_query_separator cs p = None" "quote_at cs (rest_of p) = None"
  shows "fresh cs (skip_comment cs p3) \<and> markers_from cs Plain (skip_comment cs p3) = markers_from cs Plain p"
proof -
  have f3: "fresh cs p3" "rest_of p3 = rest_of p" "p_pos p3 = p_pos p"
    using is_comment_fields [OF c] f fresh_cong [of p3 p cs] by simp_all
  have ne: "rest_of p \<noteq> []" using comment_not_end [OF c] by (simp add: end_not_reached_drop)
  note P = markers.simps [of cs Plain "p_pos p" "rest_of p"]
  consider (line) "hash_comment p3 \<or> dash_comment p3" "\<not> c_style_comment p3" "starts ''#'' (rest_of p) \<or> starts ''-- '' (rest_of p)"
    | (block) "\<not> hash_comment p3" "\<not> dash_comment p3" "c_style_comment p3" "\<not> (starts ''#'' (rest_of p) \<or> starts ''-- '' (rest_of p))"
        "starts ''/*'' (rest_of p)" "\<not> starts ''/*!'' (rest_of p)"
    using c by (auto simp: is_comment_def Let_def compare_starts split: if_splits)
  then show ?thesis
  proof cases
    case line
    then have "\<not> starts [CHR 0x0A] (rest_of p)" using starts_clash by fastforce
    then have "markers_from cs Line_comment p3 = markers_from cs Plain p"
      using f3 ne P line(3) no_separator [OF s(1)] s(2) markers.simps [of cs Line_comment "p_pos p" "rest_of p"]
      by (simp add: markers_from_def Let_def)
    with skip_line_comment [OF f3(1) line(1,2)] show ?thesis by simp
  next
    case block
    then have "\<not> starts ''*/'' (rest_of p)" using starts_clash by fastforce
    then have "markers_from cs Block_comment p3 = markers_from cs Plain p"
      using f3 ne P block(4-6) no_separator [OF s(1)] s(2) markers.simps [of cs Block_comment "p_pos p" "rest_of p"]
      by (simp add: markers_from_def Let_def)
    with skip_block_comment [OF f3(1) block(1-3)] show ?thesis by simp
  qed
qed

lemma plain_markers:
  assumes c: "is_comment p = (False, p3)" and f: "fresh cs p" and s: "is_query_separator cs p = None" "is_quote p = None"
    and m: "end_not_reached p"
  shows "params (take_char p3) @ markers_from cs Plain (step_char cs (take_char p3)) = params p @ markers_from cs Plain p"
proof -
  note i = is_comment_fields [OF c]
  have q: "is_quote p3 = None" "is_param_marker p3 = is_param_marker p" using i s(2) by (simp_all add: is_quote_def at_char_def is_param_marker_def find_None_iff)
  have f3: "fresh cs (take_char p3)" "end_not_reached (take_char p3)" "rest_of (take_char p3) = rest_of p" "p_pos (take_char p3) = p_pos p"
    using f m i q(1) fresh_cong [of p3 p cs] by (auto simp: take_char_def end_not_reached_def)
  have nc: "\<not> (starts ''#'' (rest_of p) \<or> starts ''-- '' (rest_of p))" "\<not> (starts ''/*'' (rest_of p) \<and> \<not> starts ''/*!'' (rest_of p))"
    using c by (auto simp: is_comment_def Let_def compare_starts split: if_splits)
  have ne: "rest_of p \<noteq> []" using m by (simp add: end_not_reached_drop)
  have qa: "quote_at cs (rest_of p) = None" using is_quote_at [OF f m] s(2) by simp
  have "params (take_char p3) = (if one_char cs (rest_of p) ''?'' then params p @ [p_pos p] else params p)"
    using at_char_one [OF f m, of "''?''"] q i by (simp add: take_char_def is_param_marker_def add_parameter_def)
  with step_markers [OF f3(1,2), of Plain] ne nc qa no_separator [OF s(1)] i show ?thesis
    by (auto simp: markers_from_def [of cs Plain p] markers.simps [of cs Plain "p_pos p" "rest_of p"] Let_def)
qed

lemma quote_markers:
  assumes "is_quote p = Some q" "fresh cs p" "is_query_separator cs p = None" "end_not_reached p"
  shows "quote_ok (step_char cs (take_char p)) \<and> params (take_char p) = params p \<and>
    markers_from cs (mode_of (step_char cs (take_char p))) (step_char cs (take_char p)) = markers_from cs Plain p"
proof -
  have t: "take_char p = add_token (p\<lparr>p_quote := Some q\<rparr>)" using assms(1) by (simp add: take_char_def)
  have len: "length q = 1" using assms(1) by (auto simp: is_quote_def quotes_def split: if_splits)
  have f: "fresh cs (take_char p)" "end_not_reached (take_char p)" using assms(2,4) t by (simp_all add: end_not_reached_def)
  have "rest_of p \<noteq> []" using assms(4) by (simp add: end_not_reached_drop)
  moreover have qa: "quote_at cs (rest_of p) = Some q" using is_quote_at [OF assms(2,4)] assms(1) by simp
  ultimately have "markers_from cs (Quoted q) (step_char cs (take_char p)) = markers_from cs Plain p"
    using step_markers [OF f, of "Quoted q"] no_separator [OF assms(3)]
    by (simp add: qa markers_from_def [of cs Plain p] markers.simps [of cs Plain "p_pos p" "rest_of p"] Let_def)
  then show ?thesis using t len by (simp add: quote_ok_def mode_of_def)
qed

lemma tokenize_loop_markers:
  assumes "charset_ok cs"
  shows "fresh cs p \<longrightarrow> quote_ok p \<longrightarrow> params (tokenize_loop cs p) = params p @ markers_from cs (mode_of p) p"
  supply outside_def [simp] prepared_def [simp]
proof (induction p rule: tokenize_rule [where cs = cs])
  case (fin p)
  then show ?case by (simp add: markers_from_end)
next
  case (quoted p q c p1 r)
  have "params p1 = params p" using find_closing_quote_query [of cs p None] quoted(3) by simp
  then show ?case using quoted find_closing_quote_markers [of cs p q None c p1] by (auto simp: quote_ok_def mode_of_def)
next
  case (spaces p p1)
  then show ?case using after_spaces_markers [OF assms, of p] markers_from_end [of p1] by (simp add: mode_of_def)
next
  case (separator p p1 p2 r)
  note sep = separator_markers [OF separator(3)]
  have "p_quote p2 = None" using is_query_separator_pos [OF separator(3)] separator(1) by simp
  then show ?case
    using separator sep skip_spaces_markers [OF assms conjunct1 [OF sep]] after_spaces_markers [OF assms, of p]
    by (simp add: quote_ok_def mode_of_def)
next
  case (opens p p1 p2 q r)
  have "is_query_separator cs p2 = None" "end_not_reached p2" using opens by (simp_all add: separator_last end_not_reached_def)
  then show ?case using opens quote_markers [OF opens(5), of cs] after_spaces_markers [OF assms, of p] by (simp add: mode_of_def)
next
  case (comment p p1 p2 p3 r)
  have "is_query_separator cs p2 = None" "end_not_reached p2" using comment by (simp_all add: separator_last end_not_reached_def)
  then show ?case
    using comment comment_markers [OF comment(6), of cs] is_quote_at [of cs p2] after_spaces_markers [OF assms, of p] is_comment_fields [OF comment(6)]
    by (simp add: quote_ok_def mode_of_def)
next
  case (plain p p1 p2 p3 r)
  have s: "is_query_separator cs p2 = None" "end_not_reached p2" using plain by (simp_all add: separator_last end_not_reached_def)
  have "is_quote p3 = None" using is_comment_fields [OF plain(6)] plain(5) by (simp add: is_quote_def at_char_def find_None_iff)
  then have "p_quote (take_char p3) = None" using is_comment_fields [OF plain(6)] plain by (simp add: take_char_def)
  then show ?case
    using plain s plain_markers [OF plain(6), of cs] after_spaces_markers [OF assms, of p] by (simp add: quote_ok_def mode_of_def)
qed

lemma parse_params: "param_pos (parse cs pq) = params (tokenize cs (init_parser cs pq))"
proof -
  have "param_pos (snd (detect_query_type rs pq)) = param_pos pq" for rs pq
    by (induction rs pq rule: detect_query_type.induct) (auto split: option.split)
  then show ?thesis by (auto simp: parse_def remove_braces_def blank_def Let_def split: option.split)
qed

text \<open>
  C4: The parameter markers of a statement are exactly the question marks outside of strings, quoted
  names and comments, in their order, whatever the character set, provided that its spaces and
  control characters are not special characters of the syntax; a doubled or escaped quote does not
  end a string.
\<close>

theorem parse_finds_markers:
  assumes "charset_ok cs"
  shows "param_pos (parse_statement cs s) = markers cs Plain 0 s"
proof -
  define pq where "pq = reset_query (Some s) True MY_PARSED_QUERY"
  have pq: "pq_text pq = s" "param_pos pq = []" by (simp_all add: pq_def reset_query_def pq_text_def)
  define p where "p = init_parser cs pq"
  have p: "fresh cs p" "p_quote p = None" "p_query p = pq" "p_pos p = 0" by (simp_all add: p_def init_parser_def)
  have "params (tokenize cs p) = params p @ markers_from cs Plain p"
    using tokenize_loop_markers [OF assms, of "add_token (skip_spaces cs p)"] skip_spaces_markers [OF assms p(1)] p
    by (simp add: tokenize_def quote_ok_def mode_of_def)
  then show ?thesis using pq p by (simp add: parse_statement_def parse_params markers_from_def flip: pq_def p_def)
qed

lemma ascii_ok: "charset_ok ascii"
proof -
  have "c \<notin> {CHR 0x27, CHR 0x22, CHR 0x60, CHR ''?'', CHR ''#'', CHR ''-'', CHR ''/'', CHR '';'', CHR 0x5C}"
    if "(of_char c :: nat) \<le> 32 \<or> (of_char c :: nat) = 127" for c
    using that by auto
  then show ?thesis by (auto simp: charset_ok_def ascii_def others_def Let_def)
qed

theorem parse_finds_markers_witness:
  "param_pos (parse_statement ascii ''select ?, (?)'') = [7, 11]"
proof -
  have "markers ascii Plain 0 ''select ?, (?)'' = [7, 11]" by code_simp
  with parse_finds_markers [OF ascii_ok, of "''select ?, (?)''"] show ?thesis by simp
qed

text \<open>
  A comment is not closed as the server closes it: after \<^verbatim>\<open>*/\<close> the parser goes on at the star, so
  that a star behind it opens another comment, and \<^verbatim>\<open>/*/\<close> is a whole comment.
\<close>

lemma marker_behind_comment_lost: "param_pos (parse_statement ascii ''select 2/*c*/*?'') = []"
  by code_simp

lemma marker_in_comment_found: "param_pos (parse_statement ascii ''select 1 /*/ ? */'') = [13]"
  by code_simp

section \<open>Which type a statement gets\<close>

definition has_keyword :: "string \<Rightarrow> string \<Rightarrow> bool" where
  "has_keyword k s \<longleftrightarrow> map to_upper (take (length k) s) = k"

definition keyword_type :: "string \<Rightarrow> query_type" where
  "keyword_type s =
     (if has_keyword ''SELECT'' s then myqtSelect
      else if has_keyword ''CALL'' s then myqtCall
      else if has_keyword ''INSERT'' s then myqtInsert
      else if has_keyword ''UPDATE'' s then myqtUpdate
      else if has_keyword ''SHOW'' s then myqtShow
      else if has_keyword ''USE'' s then myqtUse
      else if has_keyword ''OPTIMIZE'' s then myqtOptimize
      else myqtOther)"

lemma casecmp_zero:
  "myodbc_casecmp s k (length k) = 0 \<and> length k \<le> length s \<longleftrightarrow> map to_upper (take (length k) s) = map to_upper k"
proof (induction k arbitrary: s)
  case (Cons c k)
  show ?case
  proof (cases s)
    case (Cons d r)
    then show ?thesis using Cons.IH [of r] by auto
  qed simp
qed simp

lemma case_compare_keyword:
  assumes "map to_upper k = k" "k \<noteq> []"
  shows "case_compare pq (Some t) k \<longleftrightarrow> has_keyword k (drop t (pq_text pq))"
proof -
  have "int (length k) \<le> int (length (pq_text pq)) - int t \<longleftrightarrow> length k \<le> length (drop t (pq_text pq))"
    using assms(2) by (cases k) auto
  then show ?thesis using casecmp_zero [of "drop t (pq_text pq)" k] assms(1)
    by (auto simp: case_compare_def has_keyword_def bytes_left_def)
qed

lemma rule_positions_first: "rule_positions pq = [0]"
  by (simp add: rule_positions_def rules_def Let_def)

lemma first_token_rule:
  "process_rule (Rule k f t qt a r) pq =
     (if pq_query pq \<noteq> None \<and> case_compare pq (get_token 0 pq) k
      then (case a of Some r' \<Rightarrow> process_rule r' pq | None \<Rightarrow> Some qt)
      else (case r of Some r' \<Rightarrow> process_rule r' pq | None \<Rightarrow> None))"
  by (simp add: rule_positions_first)

lemma keyword_clash: "has_keyword (c # k) s \<Longrightarrow> has_keyword (d # l) s \<Longrightarrow> c = d"
  by (cases s) (auto simp: has_keyword_def)

lemma detect_by_keyword:
  assumes "pq_query pq \<noteq> None" "get_token 0 pq = Some t" "pq_type pq = myqtOther"
  shows "pq_type (snd (detect_query_type rules pq)) = keyword_type (drop t (pq_text pq))"
proof -
  define s where "s = drop t (pq_text pq)"
  have kw: "case_compare pq (get_token 0 pq) k = has_keyword k s" if "map to_upper k = k" "k \<noteq> []" for k
    using that assms(2) case_compare_keyword s_def by simp
  have cmp: "case_compare pq (get_token 0 pq) ''SELECT'' = has_keyword ''SELECT'' s" "case_compare pq (get_token 0 pq) ''CALL'' = has_keyword ''CALL'' s"
    "case_compare pq (get_token 0 pq) ''INSERT'' = has_keyword ''INSERT'' s" "case_compare pq (get_token 0 pq) ''UPDATE'' = has_keyword ''UPDATE'' s"
    "case_compare pq (get_token 0 pq) ''SHOW'' = has_keyword ''SHOW'' s" "case_compare pq (get_token 0 pq) ''CREATE'' = has_keyword ''CREATE'' s"
    "case_compare pq (get_token 0 pq) ''DROP'' = has_keyword ''DROP'' s" "case_compare pq (get_token 0 pq) ''USE'' = has_keyword ''USE'' s"
    "case_compare pq (get_token 0 pq) ''OPTIMIZE'' = has_keyword ''OPTIMIZE'' s" "case_compare pq (get_token 0 pq) ''TABLE'' = has_keyword ''TABLE'' s"
    "case_compare pq (get_token 0 pq) ''PROCEDURE'' = has_keyword ''PROCEDURE'' s" "case_compare pq (get_token 0 pq) ''FUNCTION'' = has_keyword ''FUNCTION'' s"
    by (rule kw; simp add: to_upper_def)+
  have sub: "process_rule crt_table_rule pq = None" if "has_keyword ''CREATE'' s"
    using assms(1) keyword_clash [OF that, of "CHR ''T''"] keyword_clash [OF that, of "CHR ''P''"] keyword_clash [OF that, of "CHR ''F''"]
    by (auto simp: crt_table_rule_def proc_rule_def func_rule_def first_token_rule cmp simp del: process_rule.simps)
  have sub2: "process_rule drop_proc_rule pq = None" if "has_keyword ''DROP'' s"
    using assms(1) keyword_clash [OF that, of "CHR ''P''"] keyword_clash [OF that, of "CHR ''F''"]
    by (auto simp: drop_proc_rule_def drop_func_rule_def first_token_rule cmp simp del: process_rule.simps)
  show ?thesis
    using assms(1,3) sub sub2
    by (simp add: rules_def first_token_rule cmp keyword_type_def s_def [symmetric] del: process_rule.simps)
qed

lemma detect_no_token: "get_token 0 pq = None \<Longrightarrow> pq_type (snd (detect_query_type rules pq)) = pq_type pq"
  by (simp add: rules_def first_token_rule case_compare_def crt_table_rule_def drop_proc_rule_def del: process_rule.simps)

lemma kept_fields [simp]:
  "pq_query (p_query (add_token p)) = pq_query (p_query p)" "pq_type (p_query (add_token p)) = pq_type (p_query p)"
  "pq_query (p_query (set_last_char c p)) = pq_query (p_query p)" "pq_type (p_query (set_last_char c p)) = pq_type (p_query p)"
  "pq_query (p_query (take_char p)) = pq_query (p_query p)" "pq_type (p_query (take_char p)) = pq_type (p_query p)"
  "pq_query (p_query (after_spaces cs p)) = pq_query (p_query p)" "pq_type (p_query (after_spaces cs p)) = pq_type (p_query p)"
  by (auto simp: add_token_def set_last_char_def take_char_def after_spaces_def add_parameter_def split: option.split)

lemma tokenize_keeps:
  "pq_query (p_query (tokenize_loop cs p)) = pq_query (p_query p) \<and> pq_type (p_query (tokenize_loop cs p)) = pq_type (p_query p)"
proof (induction p rule: tokenize_rule [where cs = cs])
  case (quoted p q c p1 r)
  then show ?case using find_closing_quote_query [of cs p None] by simp
qed (auto simp: outside_def prepared_def dest!: is_query_separator_pos is_comment_fields)

lemma detect_keeps: "token2 (snd (detect_query_type rs pq)) = token2 pq \<and> pq_query (snd (detect_query_type rs pq)) = pq_query pq"
  by (induction rs pq rule: detect_query_type.induct) (auto split: option.split)

text \<open>
  C6: The type of a statement is decided by the keyword its first token starts with, without regard
  to case; only SELECT, CALL, INSERT, UPDATE, SHOW, USE and OPTIMIZE count. No statement is
  recognized as one that creates or drops a table, a procedure or a function.
\<close>

theorem type_by_first_keyword:
  "pq_type (parse_statement cs s) =
     (case token2 (parse_statement cs s) of
        [] \<Rightarrow> myqtOther
      | t # _ \<Rightarrow> keyword_type (drop t (pq_text (parse_statement cs s))))"
proof -
  define pq where "pq = reset_query (Some s) True MY_PARSED_QUERY"
  obtain b p where p: "remove_braces cs (tokenize cs (init_parser cs pq)) = (b, p)" by fastforce
  have parse: "parse_statement cs s = snd (detect_query_type rules (p_query p))" using p by (simp add: parse_statement_def parse_def pq_def)
  have "pq_query pq \<noteq> None" "pq_type pq = myqtOther" by (simp_all add: pq_def reset_query_def)
  then have "pq_query (p_query (tokenize cs (init_parser cs pq))) \<noteq> None" "pq_type (p_query (tokenize cs (init_parser cs pq))) = myqtOther"
    by (simp_all add: tokenize_def tokenize_keeps init_parser_def)
  then have q: "pq_query (p_query p) \<noteq> None" "pq_type (p_query p) = myqtOther"
    using p by (auto simp: remove_braces_def blank_def Let_def split: option.splits)
  note k = detect_keeps [of rules "p_query p"]
  show ?thesis
  proof (cases "token2 (p_query p)")
    case Nil
    then show ?thesis using q(2) k by (simp add: parse detect_no_token get_token_def)
  next
    case (Cons t ts)
    then have "get_token 0 (p_query p) = Some t" by (simp add: get_token_def)
    from detect_by_keyword [OF q(1) this q(2)] k Cons show ?thesis by (simp add: parse pq_text_def)
  qed
qed

text \<open>
  The braces of an ODBC escape: what is tested for a space after they were blanked is the blank
  itself, so the first token is dropped whether or not it was only the brace.
\<close>

lemma call_in_braces:
  "token2 (parse_statement ascii ''{call p(?)}'') = [6]" "pq_type (parse_statement ascii ''{call p(?)}'') = myqtOther"
  "pq_type (parse_statement ascii ''{ call p(?)}'') = myqtCall"
  by code_simp+
end
