(* ===== verification/Limit_Scroller.thy ===== *)
theory Limit_Scroller
  imports Sql_Parser
begin

text \<open>
  Fetching a result in parts: the clause \<^verbatim>\<open>LIMIT\<close> of a query is found (\<^verbatim>\<open>driver/utility.cc\<close>, with the
  token search of \<^verbatim>\<open>driver/parse.cc\<close>) and replaced by one whose offset moves on with every part
  (the scroller of \<^verbatim>\<open>driver/my_stmt.cc\<close>). Positions are offsets into the query. \<open>cs\<close> is the character
  set as for the parser, \<open>num\<close> tells whether the character at the start of some bytes is a digit.
\<close>

text \<open>Unsigned numbers of 32 and 64 bits.\<close>

definition u32 :: "nat \<Rightarrow> nat" where
  "u32 n = nat (int n mod 2 ^ 32)"

definition u64 :: "nat \<Rightarrow> nat" where
  "u64 n = nat (int n mod 2 ^ 64)"

lemma unsigned [simp]: "u32 n = n mod 2 ^ 32" "u64 n = n mod 2 ^ 64"
  by (simp_all add: u32_def u64_def nat_mod_distrib)

section \<open>Search of tokens\<close>

definition myodbc_isspace :: "charset \<Rightarrow> string \<Rightarrow> nat \<Rightarrow> nat \<Rightarrow> bool" where
  "myodbc_isspace cs q b e = fst (fst (cs (take (e - b) (drop b q))))"

definition myodbc_isnum :: "(string \<Rightarrow> bool) \<Rightarrow> string \<Rightarrow> nat \<Rightarrow> nat \<Rightarrow> bool" where
  "myodbc_isnum num q b e = num (take (e - b) (drop b q))"

text \<open>The token in front of a position and where the search goes on; bytes above 127 are negative characters.\<close>

fun prev_token_loop :: "charset \<Rightarrow> string \<Rightarrow> nat \<Rightarrow> nat \<Rightarrow> nat \<Rightarrow> nat \<times> nat" where
  "prev_token_loop cs q start fin 0 = (start, start)"
| "prev_token_loop cs q start fin (Suc p) =
     (if Suc p = start then (start, start)
      else if (of_char (q ! p) :: nat) \<ge> 128 \<or> \<not> myodbc_isspace cs q p fin then prev_token_loop cs q start fin p
      else (Suc p, p))"

definition mystr_get_prev_token :: "charset \<Rightarrow> string \<Rightarrow> nat \<Rightarrow> nat \<Rightarrow> nat \<times> nat" where
  "mystr_get_prev_token cs q query start = prev_token_loop cs q start query query"

lemma prev_token_less: "prev_token_loop cs q start fin p = (t, b) \<Longrightarrow> t = start \<or> t = Suc b \<and> b < p"
  by (induction p) (auto split: if_splits)

function find_token :: "charset \<Rightarrow> string \<Rightarrow> nat \<Rightarrow> nat \<Rightarrow> string \<Rightarrow> nat option" where
  "find_token cs q begin bef target =
     (case mystr_get_prev_token cs q bef begin of
        (token, bef') \<Rightarrow>
          if token = begin then None
          else if myodbc_casecmp (drop token q) target (length target) = 0 then Some token
          else find_token cs q begin bef' target)"
  by pat_completeness auto
termination
  by (relation "measure (\<lambda>(cs, q, begin, bef, target). bef)")
    (auto simp: mystr_get_prev_token_def dest: prev_token_less [OF sym])

text \<open>
  The token after a position, and where it ends. The character at the position is skipped; nothing
  when the search for the end of the token starts behind the end of the string.
\<close>

function next_token_loop :: "charset \<Rightarrow> string \<Rightarrow> nat \<Rightarrow> nat" where
  "next_token_loop cs q pos =
     (if pos \<ge> length q then length q
      else if Suc pos < length q \<and> 0 < (of_char (q ! Suc pos) :: nat) \<and> (of_char (q ! Suc pos) :: nat) < 128 \<and>
              myodbc_isspace cs q (Suc pos) (Suc (Suc pos))
      then next_token_loop cs q (Suc pos) else Suc pos)"
  by pat_completeness auto
termination
  by (relation "measure (\<lambda>(cs, q, pos). length q - pos)") auto

function token_end :: "charset \<Rightarrow> string \<Rightarrow> nat \<Rightarrow> nat" where
  "token_end cs q pos =
     (if pos < length q \<and> ((of_char (q ! pos) :: nat) \<ge> 128 \<or> \<not> myodbc_isspace cs q pos (length q))
      then token_end cs q (Suc pos) else pos)"
  by pat_completeness auto
termination
  by (relation "measure (\<lambda>(cs, q, pos). length q - pos)") auto

declare next_token_loop.simps [simp del] token_end.simps [simp del]

definition mystr_get_next_token :: "charset \<Rightarrow> string \<Rightarrow> nat \<Rightarrow> (nat \<times> nat) option" where
  "mystr_get_next_token cs q pos =
     (if pos \<ge> length q then Some (length q, length q)
      else
        (let t = next_token_loop cs q pos
         in if t \<ge> length q then None else Some (t, token_end cs q (Suc t))))"

lemma next_token_greater: "pos < length q \<Longrightarrow> pos < next_token_loop cs q pos"
proof (induction cs q pos rule: next_token_loop.induct)
  case (1 cs q pos)
  then show ?case by (subst next_token_loop.simps) (auto dest: Suc_lessD)
qed

lemma token_end_ge: "pos \<le> token_end cs q pos"
proof (induction cs q pos rule: token_end.induct)
  case (1 cs q pos)
  then show ?case by (subst token_end.simps) auto
qed

lemma next_token_progress: "mystr_get_next_token cs q pos = Some (t, e) \<Longrightarrow> t \<noteq> length q \<Longrightarrow> pos < length q \<and> pos < e"
  using next_token_greater [of pos q cs] token_end_ge [of "Suc (next_token_loop cs q pos)" cs q]
  by (auto simp: mystr_get_next_token_def Let_def split: if_splits)

text \<open>Nothing for a search that leaves the string, and a position or nothing for one that does not.\<close>

function find_first_token :: "charset \<Rightarrow> string \<Rightarrow> nat \<Rightarrow> string \<Rightarrow> nat option option" where
  "find_first_token cs q begin target =
     (case mystr_get_next_token cs q begin of
        None \<Rightarrow> None
      | Some (t, e) \<Rightarrow>
          if t = length q then Some None
          else if myodbc_casecmp (drop t q) target (length target) = 0 then Some (Some t)
          else find_first_token cs q e target)"
  by pat_completeness auto
termination
  by (relation "measure (\<lambda>(cs, q, begin, target). length q - begin)") (auto dest!: next_token_progress)

section \<open>The clause\<close>

record limit_clause =
  l_offset :: nat
  l_row_count :: nat
  l_begin :: nat
  l_end :: nat

function span_while :: "(nat \<Rightarrow> bool) \<Rightarrow> nat \<Rightarrow> nat \<Rightarrow> nat" where
  "span_while P pos fin = (if pos < fin \<and> P pos then span_while P (Suc pos) fin else pos)"
  by pat_completeness auto
termination
  by (relation "measure (\<lambda>(P, pos, fin). fin - pos)") auto

text \<open>
  Where the numbers end, the offset and the number of rows; nothing when a number has more digits
  than the buffer of thirty bytes holds.
\<close>

definition get_limit_numbers :: "charset \<Rightarrow> (string \<Rightarrow> bool) \<Rightarrow> string \<Rightarrow> nat \<Rightarrow> (nat \<times> nat \<times> nat) option" where
  "get_limit_numbers cs num q pos =
     (let fin = length q;
          p1 = span_while (\<lambda>p. myodbc_isspace cs q p fin) pos fin;
          p2 = span_while (\<lambda>p. myodbc_isnum num q p fin) p1 fin
      in if p2 = p1 then Some (p1, 0, 0)
         else if p2 - p1 > 29 then None
         else
           (let offs = nat (atol (take (p2 - p1) (drop p1 q)));
                p3 = span_while (\<lambda>p. \<not> myodbc_isnum num q p fin) p2 fin
            in if p3 = fin then Some (p3, 0, u32 offs)
               else
                 (let p4 = span_while (\<lambda>p. myodbc_isnum num q p fin) p3 fin
                  in if p4 - p3 > 29 then None
                     else Some (p4, offs, u32 (nat (atol (take (p4 - p3) (drop p3 q))))))))"

fun locking_loop :: "charset \<Rightarrow> string \<Rightarrow> nat \<Rightarrow> nat \<Rightarrow> string list \<Rightarrow> nat option" where
  "locking_loop cs q token bef [] = Some token"
| "locking_loop cs q token bef (w # ws) =
     (case mystr_get_prev_token cs q bef 0 of
        (t, b) \<Rightarrow> if myodbc_casecmp (drop t q) w (length w) \<noteq> 0 then None else locking_loop cs q t b ws)"

definition check_row_locking :: "charset \<Rightarrow> string \<Rightarrow> bool \<Rightarrow> nat option" where
  "check_row_locking cs q is_share_mode =
     locking_loop cs q 0 (length q) (if is_share_mode then [''MODE'', ''SHARE'', ''IN'', ''LOCK''] else [''UPDATE'', ''FOR''])"

text \<open>The last character that is neither a space nor a zero; the query ends with a zero.\<close>

fun last_char_loop :: "charset \<Rightarrow> string \<Rightarrow> nat \<Rightarrow> nat" where
  "last_char_loop cs q 0 = 0"
| "last_char_loop cs q (Suc p) =
     (if Suc p \<ge> length q \<or> q ! Suc p = CHR 0x00 \<or> myodbc_isspace cs q (Suc p) (length q)
      then last_char_loop cs q p else Suc p)"

text \<open>Nothing where the code would leave the query.\<close>

definition find_position4limit :: "charset \<Rightarrow> (string \<Rightarrow> bool) \<Rightarrow> string \<Rightarrow> limit_clause option" where
  "find_position4limit cs num q =
     (case find_token cs q 0 (length q) ''LIMIT'' of
        Some limit_pos \<Rightarrow>
          (case get_limit_numbers cs num q (limit_pos + 5) of
             None \<Rightarrow> None
           | Some (e, offs, rows) \<Rightarrow> Some \<lparr>l_offset = offs, l_row_count = rows, l_begin = limit_pos, l_end = e\<rparr>)
      | None \<Rightarrow>
          (let locking = (case check_row_locking cs q False of Some t \<Rightarrow> Some t | None \<Rightarrow> check_row_locking cs q True)
           in case locking of
                Some t \<Rightarrow> if t = 0 then None else Some \<lparr>l_offset = 0, l_row_count = 0, l_begin = t - 1, l_end = t - 1\<rparr>
              | None \<Rightarrow>
                  (let p = last_char_loop cs q (length q);
                       e = (if p < length q \<and> q ! p = CHR '';'' then p else length q)
                   in Some \<lparr>l_offset = 0, l_row_count = 0, l_begin = e, l_end = e\<rparr>)))"

section \<open>The scroller\<close>

record scroller =
  sc_query :: string
  sc_offset_pos :: nat
  sc_row_count :: nat
  sc_start_offset :: nat
  sc_next_offset :: nat
  sc_total_rows :: nat
  sc_buf_len :: nat

definition MY_LIMIT_SCROLLER :: scroller where
  "MY_LIMIT_SCROLLER = \<lparr>sc_query = [], sc_offset_pos = 0, sc_row_count = 0, sc_start_offset = 0, sc_next_offset = 0,
     sc_total_rows = 0, sc_buf_len = 1024\<rparr>"

definition scroller_reset :: "scroller \<Rightarrow> scroller" where
  "scroller_reset s = s\<lparr>sc_next_offset := 0, sc_offset_pos := 0\<rparr>"

definition scroller_exists :: "scroller \<Rightarrow> bool" where
  "scroller_exists s \<longleftrightarrow> sc_offset_pos s > 0"

definition calc_prefetch_number :: "nat \<Rightarrow> nat \<Rightarrow> nat \<Rightarrow> nat" where
  "calc_prefetch_number selected app_fetchs max_rows =
     (if selected = 0 then 0
      else
        (let result = selected;
             result = (if app_fetchs > 1 \<and> app_fetchs > selected then u32 app_fetchs else result);
             result = (if app_fetchs > 1 \<and> selected mod app_fetchs > 0
                       then u32 (app_fetchs * (selected div app_fetchs + 1)) else result)
         in if max_rows > 0 \<and> max_rows < result then u32 max_rows else result))"

text \<open>A number printed with a width, and bytes written over those of a buffer.\<close>

definition pad :: "nat \<Rightarrow> nat \<Rightarrow> string" where
  "pad w n = replicate (w - length (string_of_nat n)) (CHR '' '') @ string_of_nat n"

definition overwrite :: "nat \<Rightarrow> string \<Rightarrow> string \<Rightarrow> string" where
  "overwrite pos t s = take pos s @ t @ drop (pos + length t) s"

text \<open>
  Nothing when the buffer would be reallocated: the pointers of the scroller are those of the old
  buffer then.
\<close>

definition scroller_create :: "charset \<Rightarrow> (string \<Rightarrow> bool) \<Rightarrow> nat \<Rightarrow> string \<Rightarrow> scroller \<Rightarrow> scroller option" where
  "scroller_create cs num max_rows query s =
     (case find_position4limit cs num query of
        None \<Rightarrow> None
      | Some limit \<Rightarrow>
          (let clause = (l_begin limit \<noteq> l_end limit);
               total_rows = (if clause then if max_rows > 0 then min (l_row_count limit) max_rows else l_row_count limit
                             else max_rows);
               row_count = (if sc_row_count s > total_rows \<and> clause then u32 total_rows else sc_row_count s);
               query_len = length query + (7 + 21 + 11);
               offset_pos = l_begin limit + 7;
               b = replicate query_len (CHR '' '');
               b = overwrite 0 (take (l_begin limit) query) b;
               b = overwrite (l_begin limit) '' LIMIT '' b;
               b = overwrite (offset_pos + 20) ('','' @ pad 10 row_count @ [CHR 0x00]) b;
               b = overwrite (offset_pos + 31) (drop (l_end limit) query) b
           in if query_len + 1 > sc_buf_len s then None
              else Some (s\<lparr>sc_query := b, sc_offset_pos := offset_pos, sc_row_count := row_count,
                           sc_start_offset := l_offset limit, sc_next_offset := l_offset limit, sc_total_rows := total_rows\<rparr>)))"

definition scroller_move :: "scroller \<Rightarrow> scroller" where
  "scroller_move s =
     (let b = overwrite (sc_offset_pos s) (pad 20 (sc_next_offset s) @ [CHR 0x00]) (sc_query s);
          b = overwrite (sc_offset_pos s + 20) '','' b
      in s\<lparr>sc_query := b, sc_next_offset := u64 (sc_next_offset s + sc_row_count s)\<rparr>)"

text \<open>An unsigned result read as a signed number of 64 bits.\<close>

definition to_int64 :: "int \<Rightarrow> int" where
  "to_int64 i = (let j = i mod 2 ^ 64 in if j \<ge> 2 ^ 63 then j - 2 ^ 64 else j)"

text \<open>The query to be executed, or that there are no more rows.\<close>

definition scroller_prefetch :: "scroller \<Rightarrow> scroller option" where
  "scroller_prefetch s =
     (if sc_total_rows s > 0 \<and> sc_next_offset s \<ge> u64 (sc_total_rows s + sc_start_offset s)
      then
        (let count = to_int64 (int (sc_total_rows s) - (int (sc_next_offset s) - int (sc_row_count s) - int (sc_start_offset s)))
         in if count > 0
            then Some (s\<lparr>sc_query := overwrite (sc_offset_pos s + 21) (pad 10 (u32 (nat count)) @ '' '') (sc_query s)\<rparr>)
            else None)
      else Some s)"

definition scrollable :: "charset \<Rightarrow> string \<Rightarrow> parsed_query \<Rightarrow> bool" where
  "scrollable cs q pq \<longleftrightarrow>
     is_select_statement pq \<and>
     (let (_, bef) = mystr_get_prev_token cs q (length q) 0;
          (prev, _) = mystr_get_prev_token cs q bef 0
      in prev \<noteq> 0 \<and>
         (myodbc_casecmp (drop prev q) ''FROM'' 4 = 0 \<or> find_token cs q 0 (prev - 1) ''FROM'' \<noteq> None))"

text \<open>
  The queries executed: the one after creation, then one for every further part until there are no
  more rows; at most \<open>n\<close> further ones.
\<close>

fun further_parts :: "nat \<Rightarrow> scroller \<Rightarrow> string list" where
  "further_parts 0 s = []"
| "further_parts (Suc n) s =
     (case scroller_prefetch (scroller_move s) of None \<Rightarrow> [] | Some s' \<Rightarrow> sc_query s' # further_parts n s')"

definition executed_queries :: "nat \<Rightarrow> scroller \<Rightarrow> string list" where
  "executed_queries n s = sc_query (scroller_move s) # further_parts n (scroller_move s)"

section \<open>The parts cover the result\<close>

function parts_of :: "nat \<Rightarrow> nat \<Rightarrow> nat \<Rightarrow> (nat \<times> nat) list" where
  "parts_of rows off left =
     (if left = 0 \<or> rows = 0 then [] else (off, min rows left) # parts_of rows (off + rows) (left - rows))"
  by pat_completeness auto
termination
  by (relation "measure (\<lambda>(rows, off, left). left)") auto

declare parts_of.simps [simp del] find_token.simps [simp del] span_while.simps [simp del]

lemma parts_of_rows:
  assumes "0 < rows"
  shows "concat (map (\<lambda>(off, cnt). [off ..< off + cnt]) (parts_of rows off left)) = [off ..< off + left]"
  using assms
proof (induction rows off left rule: parts_of.induct)
  case (1 rows off left)
  show ?case
  proof (cases "left = 0")
    case False
    then have "concat (map (\<lambda>(off, cnt). [off ..< off + cnt]) (parts_of rows off left)) =
        [off ..< off + min rows left] @ [off + rows ..< off + rows + (left - rows)]"
      using 1 by (subst parts_of.simps) simp
    also have "\<dots> = [off ..< off + left]"
      using upt_add_eq_append [of off "off + rows" "left - rows"] by (cases "rows \<le> left") (simp_all add: min_def)
    finally show ?thesis .
  qed (simp add: parts_of.simps)
qed

lemma length_pad: "n < 10 ^ w \<Longrightarrow> 0 < w \<Longrightarrow> length (pad w n) = w"
  using length_digits [of n w] by (simp add: pad_def)

lemma overwrite_part: "n = length a \<Longrightarrow> length b = length t \<Longrightarrow> overwrite n t (a @ b @ c) = a @ t @ c"
  by (simp add: overwrite_def)

lemma overwrite_rest: "n = length a \<Longrightarrow> overwrite n t (a @ r) = a @ t @ drop (length t) r"
  by (simp add: overwrite_def)

definition part_text :: "string \<Rightarrow> nat \<times> nat \<Rightarrow> string" where
  "part_text prefix = (\<lambda>(off, cnt). prefix @ '' LIMIT '' @ pad 20 off @ '','' @ pad 10 cnt)"

text \<open>The text of the query: a prefix, any twenty characters for the offset, the number of rows, and something more.\<close>

definition laid_out :: "string \<Rightarrow> nat \<Rightarrow> scroller \<Rightarrow> bool" where
  "laid_out prefix cnt s \<longleftrightarrow> sc_offset_pos s = length prefix + 7 \<and>
     (\<exists>n rest. sc_query s = prefix @ '' LIMIT '' @ n @ '','' @ pad 10 cnt @ rest \<and> length n = 20 \<and> rest \<noteq> [])"

lemma find_token_le: "find_token cs q b bef target = Some t \<Longrightarrow> t \<le> bef"
proof (induction cs q b bef target rule: find_token.induct)
  case (1 cs q b bef target)
  obtain tok bef' where p: "mystr_get_prev_token cs q bef b = (tok, bef')" by fastforce
  have "tok = b \<or> tok \<le> bef \<and> bef' < bef" using prev_token_less p by (fastforce simp: mystr_get_prev_token_def)
  then show ?case using 1 p by (subst (asm) find_token.simps) (fastforce split: if_splits)
qed

lemma locking_loop_le: "locking_loop cs q t b ws = Some t' \<Longrightarrow> t \<le> n \<Longrightarrow> b \<le> n \<Longrightarrow> t' \<le> n"
proof (induction ws arbitrary: t b)
  case (Cons w ws)
  obtain tok bef' where p: "mystr_get_prev_token cs q b 0 = (tok, bef')" by fastforce
  have "prev_token_loop cs q 0 b x = (tok, bef') \<Longrightarrow> x \<le> n \<Longrightarrow> tok \<le> n \<and> bef' \<le> n" for x
    by (induction x) (auto split: if_splits)
  then have "tok \<le> n" "bef' \<le> n" using p Cons.prems(3) by (auto simp: mystr_get_prev_token_def)
  then show ?case using Cons p by (auto split: if_splits)
qed simp

lemma position_in_query: "find_position4limit cs num q = Some limit \<Longrightarrow> l_begin limit \<le> length q"
proof -
  assume f: "find_position4limit cs num q = Some limit"
  have "last_char_loop cs q n \<le> n" for n by (induction n) auto
  moreover have "t - 1 \<le> length q" if "check_row_locking cs q b = Some t" for t b
    using locking_loop_le [of cs q 0 "length q" _ t "length q"] that by (fastforce simp: check_row_locking_def)
  ultimately show ?thesis using f find_token_le [of cs q 0 "length q" "''LIMIT''"]
    by (auto simp: find_position4limit_def Let_def split: option.splits if_splits)
qed

lemma scroller_created:
  assumes "scroller_create cs num max_rows q s0 = Some s" "sc_row_count s < 2 ^ 32"
  obtains limit r where "find_position4limit cs num q = Some limit"
    "sc_query s = take (l_begin limit) q @ '' LIMIT '' @ replicate 20 (CHR '' '') @ '','' @ pad 10 (sc_row_count s) @ r"
    "sc_offset_pos s = l_begin limit + 7" "sc_next_offset s = sc_start_offset s" "sc_start_offset s = l_offset limit" "r \<noteq> []"
proof -
  obtain limit where l: "find_position4limit cs num q = Some limit"
    using assms(1) by (auto simp: scroller_create_def split: option.splits)
  define rc where "rc = sc_row_count s"
  define A where "A = take (l_begin limit) q"
  have A: "length A = l_begin limit" using position_in_query [OF l] by (simp add: A_def)
  have tA: "take (length A) q = A" unfolding A by (simp add: A_def)
  obtain d where d: "length q = length A + d" using A position_in_query [OF l] le_Suc_ex by metis
  have "rc < 10 ^ 10" using assms(2) by (simp add: rc_def)
  then have pd: "length (pad 10 rc) = 10" by (simp add: length_pad)
  have spc: "replicate (length q + 39) (CHR '' '') = replicate (length A) (CHR '' '') @ replicate 7 (CHR '' '') @ replicate 20 (CHR '' '') @
      replicate 12 (CHR '' '') @ replicate d (CHR '' '')"
    by (simp add: d flip: replicate_add)
  have 1: "overwrite 0 A (replicate (length q + 39) (CHR '' '')) = A @ replicate 7 (CHR '' '') @ replicate 20 (CHR '' '') @
      replicate 12 (CHR '' '') @ replicate d (CHR '' '')"
    unfolding spc using overwrite_part [of 0 "[]" "replicate (length A) (CHR '' '')" A] by simp
  have 2: "overwrite (length A) '' LIMIT '' (A @ replicate 7 (CHR '' '') @ R) = A @ '' LIMIT '' @ R" for R
    by (rule overwrite_part) simp_all
  have 3: "overwrite (length A + 7 + 20) ('','' @ pad 10 rc @ [CHR 0x00]) (A @ '' LIMIT '' @ replicate 20 (CHR '' '') @ replicate 12 (CHR '' '') @ R)
      = A @ '' LIMIT '' @ replicate 20 (CHR '' '') @ '','' @ pad 10 rc @ CHR 0x00 # R" for R
    using overwrite_part [of "length A + 7 + 20" "A @ '' LIMIT '' @ replicate 20 (CHR '' '')" "replicate 12 (CHR '' '')" "'','' @ pad 10 rc @ [CHR 0x00]" R] pd by simp
  have 4: "overwrite (length A + 7 + 31) D (A @ '' LIMIT '' @ replicate 20 (CHR '' '') @ '','' @ pad 10 rc @ R)
      = A @ '' LIMIT '' @ replicate 20 (CHR '' '') @ '','' @ pad 10 rc @ D @ drop (length D) R" for D R
    using overwrite_rest [of "length A + 7 + 31" "A @ '' LIMIT '' @ replicate 20 (CHR '' '') @ '','' @ pad 10 rc" D R] pd by simp
  have sq: "sc_query s = overwrite (l_begin limit + 7 + 31) (drop (l_end limit) q) (overwrite (l_begin limit + 7 + 20) ('','' @ pad 10 rc @ [CHR 0x00])
      (overwrite (l_begin limit) '' LIMIT '' (overwrite 0 (take (l_begin limit) q) (replicate (length q + 39) (CHR '' '')))))"
    using assms(1) l by (auto simp: scroller_create_def Let_def rc_def split: if_splits)
  have "sc_query s = A @ '' LIMIT '' @ replicate 20 (CHR '' '') @ '','' @ pad 10 rc @ drop (l_end limit) q @ drop (length (drop (l_end limit) q)) (CHR 0x00 # replicate d (CHR '' ''))"
    unfolding sq A [symmetric] tA 1 2 3 4 ..
  moreover have "drop (l_end limit) q @ drop (length (drop (l_end limit) q)) (CHR 0x00 # replicate d (CHR '' '')) \<noteq> []"
    by (cases "drop (l_end limit) q") auto
  ultimately show ?thesis using that l assms(1) by (auto simp: scroller_create_def Let_def A_def rc_def split: if_splits)
qed

lemma move_text:
  assumes "laid_out prefix cnt s" "sc_next_offset s < 2 ^ 64" "cnt < 2 ^ 32"
  shows "take (sc_offset_pos s + 31) (sc_query (scroller_move s)) = part_text prefix (sc_next_offset s, cnt)"
    "laid_out prefix cnt (scroller_move s)"
proof -
  obtain n rest where l: "sc_query s = prefix @ '' LIMIT '' @ n @ '','' @ pad 10 cnt @ rest" "length n = 20" "rest \<noteq> []"
    and op: "sc_offset_pos s = length prefix + 7"
    using assms(1) by (auto simp: laid_out_def)
  have pd: "length (pad 20 (sc_next_offset s)) = 20" "length (pad 10 cnt) = 10" using assms(2,3) by (simp_all add: length_pad)
  let ?P = "prefix @ '' LIMIT ''" and ?N = "pad 20 (sc_next_offset s)"
  have 1: "overwrite (length prefix + 7) (?N @ [CHR 0x00]) (?P @ (n @ '','') @ pad 10 cnt @ rest) = ?P @ (?N @ [CHR 0x00]) @ pad 10 cnt @ rest"
    by (rule overwrite_part) (simp_all add: pd l(2))
  have 2: "overwrite (length prefix + 7 + 20) '','' ((?P @ ?N) @ [CHR 0x00] @ pad 10 cnt @ rest) = (?P @ ?N) @ '','' @ pad 10 cnt @ rest"
    by (rule overwrite_part) (simp_all add: pd)
  have q: "sc_query (scroller_move s) = ?P @ ?N @ '','' @ pad 10 cnt @ rest"
    using 1 2 l(1) op by (simp add: scroller_move_def)
  then show "take (sc_offset_pos s + 31) (sc_query (scroller_move s)) = part_text prefix (sc_next_offset s, cnt)"
    using pd op by (simp add: part_text_def)
  show "laid_out prefix cnt (scroller_move s)"
    using q pd l(3) op by (auto simp: laid_out_def scroller_move_def Let_def)
qed

lemma prefetch_text:
  assumes "laid_out prefix rows s" "take (sc_offset_pos s + 31) (sc_query s) = part_text prefix (off, rows)" "off < 2 ^ 64" "cnt < 2 ^ 32" "rows < 2 ^ 32"
  shows "take (sc_offset_pos s + 31) (overwrite (sc_offset_pos s + 21) (pad 10 cnt @ '' '') (sc_query s)) = part_text prefix (off, cnt)"
proof -
  have op: "sc_offset_pos s = length prefix + 7" using assms(1) by (simp add: laid_out_def)
  have pd: "length (pad 20 off) = 20" "length (pad 10 cnt) = 10" "length (pad 10 rows) = 10" using assms(3-5) by (simp_all add: length_pad)
  define r where "r = drop (sc_offset_pos s + 31) (sc_query s)"
  let ?P = "prefix @ '' LIMIT '' @ pad 20 off @ '',''"
  have "sc_query s = part_text prefix (off, rows) @ r" using assms(2) append_take_drop_id r_def by metis
  then have q: "sc_query s = ?P @ pad 10 rows @ r" by (simp add: part_text_def)
  have "overwrite (sc_offset_pos s + 21) (pad 10 cnt @ '' '') (?P @ pad 10 rows @ r) = ?P @ (pad 10 cnt @ '' '') @ drop 11 (pad 10 rows @ r)"
    using overwrite_rest [of "sc_offset_pos s + 21" ?P "pad 10 cnt @ '' ''" "pad 10 rows @ r"] pd op by simp
  then show ?thesis using q pd op by (simp add: part_text_def)
qed

lemma move_fields [simp]:
  "sc_row_count (scroller_move s) = sc_row_count s" "sc_total_rows (scroller_move s) = sc_total_rows s"
  "sc_start_offset (scroller_move s) = sc_start_offset s" "sc_offset_pos (scroller_move s) = sc_offset_pos s"
  "sc_next_offset (scroller_move s) = (sc_next_offset s + sc_row_count s) mod 2 ^ 64"
  by (simp_all add: scroller_move_def Let_def)

text \<open>Of the state, what decides which part comes next.\<close>

definition scroll_state :: "nat \<Rightarrow> nat \<Rightarrow> nat \<Rightarrow> nat \<Rightarrow> scroller \<Rightarrow> bool" where
  "scroll_state rows start tot off s \<longleftrightarrow> sc_row_count s = rows \<and> sc_start_offset s = start \<and> sc_total_rows s = tot \<and>
     sc_next_offset s = off \<and> 0 < rows \<and> 0 < tot \<and> start \<le> off"

lemma to_int64_id: "- (2 ^ 63) \<le> i \<Longrightarrow> i < 2 ^ 63 \<Longrightarrow> to_int64 i = i"
proof -
  assume i: "- (2 ^ 63) \<le> i" "i < 2 ^ 63"
  show ?thesis
  proof (cases "0 \<le> i")
    case True
    then have "i mod 2 ^ 64 = i" using i by simp
    then show ?thesis using i by (simp add: to_int64_def)
  next
    case False
    have "i mod 2 ^ 64 = (i + 2 ^ 64) mod 2 ^ 64" by simp
    also have "\<dots> = i + 2 ^ 64" using i False by (intro mod_pos_pos_trivial) auto
    finally show ?thesis using i False by (simp add: to_int64_def)
  qed
qed

lemma prefetch_after_move:
  assumes "scroll_state rows start tot off s" "off + 2 * rows + tot < 2 ^ 63" "start + tot \<le> off"
  shows "scroller_prefetch (scroller_move s) = None"
proof -
  have m: "sc_row_count (scroller_move s) = rows" "sc_start_offset (scroller_move s) = start" "sc_total_rows (scroller_move s) = tot"
    "sc_next_offset (scroller_move s) = off + rows" "0 < tot"
    using assms(1,2) by (simp_all add: scroll_state_def)
  have "to_int64 (int tot - (int (off + rows) - int rows - int start)) = int tot - (int off - int start)"
    by (subst to_int64_id) (use assms in \<open>simp_all add: scroll_state_def\<close>)
  then show ?thesis unfolding scroller_prefetch_def m using assms m(5) by (simp add: Let_def)
qed

lemma prefetch_next:
  assumes "scroll_state rows start tot off s" "off + 2 * rows + tot < 2 ^ 63" "off < start + tot" "rows < 2 ^ 32" "laid_out prefix rows s"
  obtains s' where "scroller_prefetch (scroller_move s) = Some s'" "scroll_state rows start tot (off + rows) s'"
    "take (sc_offset_pos s + 31) (sc_query s') = part_text prefix (off, min rows (start + tot - off))"
    "sc_offset_pos s' = sc_offset_pos s" "off + rows < start + tot \<Longrightarrow> laid_out prefix rows s'"
proof -
  let ?m = "scroller_move s"
  have off: "sc_next_offset s = off" "off < 2 ^ 64" using assms(1,2) by (simp_all add: scroll_state_def)
  note mt = move_text [OF assms(5), unfolded off(1), OF off(2) assms(4)]
  have m: "sc_row_count ?m = rows" "sc_start_offset ?m = start" "sc_total_rows ?m = tot" "sc_next_offset ?m = off + rows" "0 < tot"
    using assms(1,2) by (simp_all add: scroll_state_def)
  have st: "scroll_state rows start tot (off + rows) ?m" using assms(1,2) by (simp add: scroll_state_def)
  show ?thesis
  proof (cases "off + rows < start + tot")
    case True
    moreover have "(tot + start) mod 2 ^ 64 = tot + start" using assms(1,2) by (simp add: scroll_state_def)
    ultimately have "scroller_prefetch ?m = Some ?m" unfolding scroller_prefetch_def m by simp
    moreover have "min rows (start + tot - off) = rows" using True by simp
    ultimately show ?thesis using that st mt by simp
  next
    case False
    define cnt where "cnt = start + tot - off"
    have cnt: "0 < cnt" "cnt \<le> rows" "cnt < 2 ^ 32" using assms(3,4) False by (simp_all add: cnt_def)
    have i: "int tot - (int (off + rows) - int rows - int start) = int cnt" using assms(3) by (simp add: cnt_def)
    let ?s = "?m\<lparr>sc_query := overwrite (sc_offset_pos ?m + 21) (pad 10 cnt @ '' '') (sc_query ?m)\<rparr>"
    have "to_int64 (int cnt) = int cnt" by (rule to_int64_id) (use cnt(3) in simp_all)
    then have "scroller_prefetch ?m = Some ?s"
      unfolding scroller_prefetch_def m i using False assms(2) cnt m(5) by (simp add: Let_def)
    moreover have "take (sc_offset_pos s + 31) (sc_query ?s) = part_text prefix (off, cnt)"
      using prefetch_text [of prefix rows ?m off cnt] mt off(2) cnt(3) assms(4) by simp
    moreover have "min rows (start + tot - off) = cnt" using cnt(2) by (simp add: cnt_def)
    moreover have "scroll_state rows start tot (off + rows) ?s" using st unfolding scroll_state_def by auto
    ultimately show ?thesis using that [of ?s] False by simp
  qed
qed

lemma further_parts_text:
  assumes "scroll_state rows start tot off s" "start + 2 * tot + 3 * rows < 2 ^ 63" "rows < 2 ^ 32" "off < start + tot \<Longrightarrow> laid_out prefix rows s"
    "length (parts_of rows off (start + tot - off)) \<le> n" "off \<le> start + tot + rows"
  shows "map (take (sc_offset_pos s + 31)) (further_parts n s) = map (part_text prefix) (parts_of rows off (start + tot - off))"
  using assms
proof (induction n arbitrary: s off)
  case 0
  then show ?case by (simp add: parts_of.simps)
next
  case (Suc n)
  show ?case
  proof (cases "off < start + tot")
    case False
    then show ?thesis using prefetch_after_move [OF Suc.prems(1)] Suc.prems(2,6) by (simp add: parts_of.simps)
  next
    case True
    obtain s' where s': "scroller_prefetch (scroller_move s) = Some s'" "scroll_state rows start tot (off + rows) s'"
      "take (sc_offset_pos s + 31) (sc_query s') = part_text prefix (off, min rows (start + tot - off))"
      "sc_offset_pos s' = sc_offset_pos s" "off + rows < start + tot \<Longrightarrow> laid_out prefix rows s'"
      using prefetch_next [OF Suc.prems(1) _ True Suc.prems(3) Suc.prems(4) [OF True]] Suc.prems(2) True by auto
    have r: "0 < rows" using Suc.prems(1) by (simp add: scroll_state_def)
    have p: "parts_of rows off (start + tot - off) = (off, min rows (start + tot - off)) # parts_of rows (off + rows) (start + tot - (off + rows))"
      using True r by (subst parts_of.simps) simp
    then have "length (parts_of rows (off + rows) (start + tot - (off + rows))) \<le> n" using Suc.prems(5) by simp
    then have "map (take (sc_offset_pos s' + 31)) (further_parts n s') = map (part_text prefix) (parts_of rows (off + rows) (start + tot - (off + rows)))"
      using Suc.IH [OF s'(2) Suc.prems(2,3) s'(5)] True by simp
    then show ?thesis using s'(1,3,4) p by simp
  qed
qed

lemma calc_prefetch_le: "0 < max_rows \<Longrightarrow> calc_prefetch_number selected app_fetchs max_rows \<le> max_rows"
  by (auto simp: calc_prefetch_number_def Let_def intro: order_trans [OF mod_less_eq_dividend])

lemma calc_prefetch_bound: "selected < 2 ^ 32 \<Longrightarrow> calc_prefetch_number selected app_fetchs max_rows < 2 ^ 32"
  by (auto simp: calc_prefetch_number_def Let_def)


definition digit_at :: "string \<Rightarrow> bool" where
  "digit_at s \<longleftrightarrow> s \<noteq> [] \<and> is_c_digit (hd s)"

lemma ex_scroller:
  "(case scroller_create ascii digit_at 0 ''select * from t limit 3,25'' (MY_LIMIT_SCROLLER\<lparr>sc_row_count := calc_prefetch_number 10 1 0\<rparr>) of
      Some s \<Rightarrow> (sc_row_count s, sc_start_offset s, sc_total_rows s) = (10, 3, 25) | None \<Rightarrow> False) = True"
  by code_simp


text \<open>
  The second form of the clause is read as the first one, so its two numbers are exchanged; and what
  follows a single number is taken for the rest of the clause and dropped.
\<close>

lemma limit_offset_exchanged:
  "find_position4limit ascii digit_at ''select * from t limit 10 offset 5'' = Some \<lparr>l_offset = 10, l_row_count = 5, l_begin = 16, l_end = 33\<rparr>"
  by code_simp

lemma locking_clause_dropped:
  "find_position4limit ascii digit_at ''select * from t limit 10 for update'' = Some \<lparr>l_offset = 0, l_row_count = 10, l_begin = 16, l_end = 35\<rparr>"
  by code_simp

lemma trailing_space_overrun: "find_first_token ascii ''STRICT_ALL_TABLES '' 0 ''ANSI_QUOTES'' = None"
  by code_simp
end
