(* ===== verification/Sql_Numeric.thy ===== *)
theory Sql_Numeric
  imports Driver_Prelude
begin

text \<open>
  The conversion between decimal literals and \<^verbatim>\<open>SQL_NUMERIC_STRUCT\<close> of
  \<^verbatim>\<open>driver/utility.cc\<close>: \<^verbatim>\<open>sqlnum_from_str\<close> for a column read as \<^verbatim>\<open>SQL_C_NUMERIC\<close> and
  \<^verbatim>\<open>sqlnum_to_str\<close> for a parameter bound as one. Both compute with eight 32-bit integers of which
  16 bits are used, so that a digit can be multiplied in or divided out; \<open>limbs_value\<close> is the
  number such an array stands for. The arrays are lists of eight \<open>nat\<close>, and every operation that
  can exceed 32 bits is followed by \<open>u32\<close>. A \<^verbatim>\<open>SQLCHAR\<close> is a \<open>nat\<close> below 256, a
  \<^verbatim>\<open>SQLSCHAR\<close> an \<open>int\<close> of eight bits.
\<close>

section \<open>The arrays\<close>

type_synonym limbs = "nat list"

definition u32 :: "nat \<Rightarrow> nat" where
  "u32 n = n mod 2 ^ 32"

definition to_int8 :: "int \<Rightarrow> int" where
  "to_int8 i = (i + 128) mod 256 - 128"

definition dec8 :: "nat \<Rightarrow> nat" where
  "dec8 p = (p + 255) mod 256"

primrec sqlnum_scale :: "limbs \<Rightarrow> nat \<Rightarrow> limbs" where
  "sqlnum_scale ary 0 = ary"
| "sqlnum_scale ary (Suc s) = sqlnum_scale (map (\<lambda>x. u32 (x * 10)) ary) s"

text \<open>The loops over the array, one step per index; the little-endian ones count from 7 down or up to 7.\<close>

definition unscale_le_step :: "nat \<Rightarrow> limbs \<Rightarrow> limbs" where
  "unscale_le_step i ary =
     (let ary1 = ary[i - 1 := u32 (ary ! (i - 1) + u32 ((ary ! i mod 10) * 2 ^ 16))]
      in ary1[i := ary1 ! i div 10])"

definition sqlnum_unscale_le :: "limbs \<Rightarrow> limbs" where
  "sqlnum_unscale_le ary = fold unscale_le_step [7, 6, 5, 4, 3, 2, 1] ary"

definition unscale_be_step :: "nat \<Rightarrow> limbs \<Rightarrow> limbs" where
  "unscale_be_step i ary =
     (let ary1 = ary[i + 1 := u32 (ary ! (i + 1) + u32 ((ary ! i mod 10) * 2 ^ 16))]
      in ary1[i := ary1 ! i div 10])"

definition sqlnum_unscale_be :: "limbs \<Rightarrow> nat \<Rightarrow> limbs" where
  "sqlnum_unscale_be ary start = fold unscale_be_step [start ..< 7] ary"

definition carry_step :: "nat \<Rightarrow> limbs \<Rightarrow> limbs" where
  "carry_step i ary =
     (let ary1 = ary[i + 1 := u32 (ary ! (i + 1) + ary ! i div 2 ^ 16)]
      in ary1[i := ary1 ! i mod 2 ^ 16])"

definition sqlnum_carry :: "limbs \<Rightarrow> limbs" where
  "sqlnum_carry ary = fold carry_step [0 ..< 7] ary"

text \<open>The number an array stands for, its lowest 16 bits first.\<close>

definition limbs_value :: "limbs \<Rightarrow> nat" where
  "limbs_value ary = foldr (\<lambda>x v. x + 65536 * v) ary 0"

text \<open>
  Well-formed arrays: eight integers of 32 bits, all but the highest within 16 bits; a full one
  has the highest within 16 bits too, so that its number is below \<open>2 ^ 128\<close>.
\<close>

definition limbs_ok :: "limbs \<Rightarrow> bool" where
  "limbs_ok ary \<longleftrightarrow> length ary = 8 \<and> (\<forall>x\<in>set (butlast ary). x < 2 ^ 16) \<and> ary ! 7 < 2 ^ 32"

definition limbs_full :: "limbs \<Rightarrow> bool" where
  "limbs_full ary \<longleftrightarrow> length ary = 8 \<and> (\<forall>x\<in>set ary. x < 2 ^ 16)"

lemma eight:
  assumes "length ary = 8"
  obtains a b c d e f g h where "ary = [a, b, c, d, e, f, g, h]"
  using assms by (auto simp: numeral_eq_Suc length_Suc_conv)

lemma limbs_full_iff: "limbs_full ary \<longleftrightarrow> limbs_ok ary \<and> limbs_value ary < 2 ^ 128"
proof (cases "length ary = 8")
  case True
  then obtain a b c d e f g h where "ary = [a, b, c, d, e, f, g, h]" by (rule eight)
  then show ?thesis by (auto simp: limbs_full_def limbs_ok_def limbs_value_def)
qed (simp add: limbs_full_def limbs_ok_def)

text \<open>
  The last digit of the number and the rest of it: what every use of \<^verbatim>\<open>sqlnum_unscale_le\<close>
  does next is to read \<^verbatim>\<open>ary[0] % 10\<close> and to divide \<^verbatim>\<open>ary[0]\<close> by 10.
\<close>

definition drop_digit :: "limbs \<Rightarrow> nat \<times> limbs" where
  "drop_digit ary = (let ary1 = sqlnum_unscale_le ary in (ary1 ! 0 mod 10, ary1[0 := ary1 ! 0 div 10]))"

lemma divide_limb:
  assumes "v = 10 * q + t mod 10"
  shows "x + 65536 * v = 10 * ((x + t mod 10 * 65536) div 10 + 65536 * q) + (x + t mod 10 * 65536) mod (10 :: nat)"
proof -
  have "10 * ((x + t mod 10 * 65536) div 10) + (x + t mod 10 * 65536) mod 10 = x + t mod 10 * 65536" by simp
  then show ?thesis unfolding assms by (simp only: distrib_left)
qed

lemma drop_digit_value:
  assumes "limbs_ok ary"
  shows "limbs_ok (snd (drop_digit ary)) \<and> limbs_value (snd (drop_digit ary)) = limbs_value ary div 10 \<and>
    fst (drop_digit ary) = limbs_value ary mod 10"
proof -
  obtain a b c d e f g h where ary: "ary = [a, b, c, d, e, f, g, h]"
    using assms by (auto simp: limbs_ok_def elim: eight)
  have bnd: "a < 65536" "b < 65536" "c < 65536" "d < 65536" "e < 65536" "f < 65536" "g < 65536" "h < 2 ^ 32"
    using assms by (simp_all add: ary limbs_ok_def)
  define g1 where "g1 = g + h mod 10 * 65536"
  define f1 where "f1 = f + g1 mod 10 * 65536"
  define e1 where "e1 = e + f1 mod 10 * 65536"
  define d1 where "d1 = d + e1 mod 10 * 65536"
  define c1 where "c1 = c + d1 mod 10 * 65536"
  define b1 where "b1 = b + c1 mod 10 * 65536"
  define a1 where "a1 = a + b1 mod 10 * 65536"
  have small: "x + y mod 10 * 65536 < 655360" if "x < 65536" for x y :: nat
  proof -
    have "y mod 10 \<le> 9" using mod_less_divisor [of 10 y] by linarith
    then show ?thesis using that by linarith
  qed
  have step: "u32 (x + u32 (y mod 10 * 65536)) = x + y mod 10 * 65536" if "x < 65536" for x y
    using small [OF that, of y] by (simp add: u32_def)
  have "unscale_le_step 7 ary = [a, b, c, d, e, f, g1, h div 10]"
    using bnd by (simp add: ary unscale_le_step_def Let_def step g1_def)
  moreover have "unscale_le_step 6 [a, b, c, d, e, f, g1, h div 10] = [a, b, c, d, e, f1, g1 div 10, h div 10]"
    using bnd by (simp add: unscale_le_step_def Let_def step f1_def)
  moreover have "unscale_le_step 5 [a, b, c, d, e, f1, g1 div 10, h div 10] = [a, b, c, d, e1, f1 div 10, g1 div 10, h div 10]"
    using bnd by (simp add: unscale_le_step_def Let_def step e1_def)
  moreover have "unscale_le_step 4 [a, b, c, d, e1, f1 div 10, g1 div 10, h div 10] = [a, b, c, d1, e1 div 10, f1 div 10, g1 div 10, h div 10]"
    using bnd by (simp add: unscale_le_step_def Let_def step d1_def)
  moreover have "unscale_le_step 3 [a, b, c, d1, e1 div 10, f1 div 10, g1 div 10, h div 10] =
      [a, b, c1, d1 div 10, e1 div 10, f1 div 10, g1 div 10, h div 10]"
    using bnd by (simp add: unscale_le_step_def Let_def step c1_def)
  moreover have "unscale_le_step 2 [a, b, c1, d1 div 10, e1 div 10, f1 div 10, g1 div 10, h div 10] =
      [a, b1, c1 div 10, d1 div 10, e1 div 10, f1 div 10, g1 div 10, h div 10]"
    using bnd by (simp add: unscale_le_step_def Let_def step b1_def)
  moreover have "unscale_le_step 1 [a, b1, c1 div 10, d1 div 10, e1 div 10, f1 div 10, g1 div 10, h div 10] =
      [a1, b1 div 10, c1 div 10, d1 div 10, e1 div 10, f1 div 10, g1 div 10, h div 10]"
    using bnd by (simp add: unscale_le_step_def Let_def step a1_def)
  ultimately have res: "drop_digit ary = (a1 mod 10, [a1 div 10, b1 div 10, c1 div 10, d1 div 10, e1 div 10, f1 div 10, g1 div 10, h div 10])"
    by (simp only: drop_digit_def sqlnum_unscale_le_def fold_simps o_apply id_apply Let_def nth_Cons_0 list_update.simps nat.case)
  have "h = 10 * (h div 10) + h mod 10" by simp
  from divide_limb [OF this, of g, folded g1_def, THEN divide_limb, of f, folded f1_def, THEN divide_limb, of e, folded e1_def,
      THEN divide_limb, of d, folded d1_def, THEN divide_limb, of c, folded c1_def, THEN divide_limb, of b, folded b1_def,
      THEN divide_limb, of a, folded a1_def]
  have v: "limbs_value ary = 10 * limbs_value (snd (drop_digit ary)) + a1 mod 10"
    unfolding res limbs_value_def snd_conv unfolding ary by (simp only: foldr.simps o_apply id_apply mult_0_right add_0_right)
  have "a1 < 655360" "b1 < 655360" "c1 < 655360" "d1 < 655360" "e1 < 655360" "f1 < 655360" "g1 < 655360"
    using bnd by (simp_all only: a1_def b1_def c1_def d1_def e1_def f1_def g1_def small)
  then have "limbs_ok (snd (drop_digit ary))" using bnd by (simp add: res limbs_ok_def div_less_iff_less_mult less_imp_diff_less)
  moreover have "limbs_value (snd (drop_digit ary)) = limbs_value ary div 10" "limbs_value ary mod 10 = a1 mod 10"
    unfolding v by simp_all
  ultimately show ?thesis by (simp add: res)
qed


text \<open>The big-endian loop is the little-endian one on the reversed array.\<close>

lemma unscale_be_step_rev:
  assumes "length ary = 8" "i < 7"
  shows "unscale_be_step i (rev ary) = rev (unscale_le_step (7 - i) ary)"
proof -
  have "7 - i - 1 = 6 - i" "8 - (7 - i) - 1 = i" "8 - (6 - i) - 1 = Suc i" "8 - Suc i = 7 - i" "8 - Suc (Suc i) = 6 - i" using assms(2) by auto
  then show ?thesis using assms by (simp add: unscale_be_step_def unscale_le_step_def Let_def rev_update rev_nth nth_list_update)
qed

lemma length_unscale_le_step [simp]: "length (unscale_le_step i ary) = length ary"
  by (simp add: unscale_le_step_def Let_def)

lemma unscale_be_rev: "length ary = 8 \<Longrightarrow> sqlnum_unscale_be (rev ary) 0 = rev (sqlnum_unscale_le ary)"
  by (simp add: sqlnum_unscale_be_def sqlnum_unscale_le_def unscale_be_step_rev upt_rec)

lemma unscale_be_step_zero:
  assumes "ary ! i = 0" "ary ! Suc i < 2 ^ 32"
  shows "unscale_be_step i ary = ary"
proof -
  have "ary[Suc i := ary ! Suc i] = ary" "ary[i := 0] = ary" using assms(1) by (metis list_update_id)+
  then show ?thesis using assms by (simp add: unscale_be_step_def u32_def)
qed

text \<open>The prefix of zeros the loop skips would not have changed anything.\<close>

lemma unscale_be_skip:
  assumes "\<forall>i < n. ary ! i = 0" "n \<le> 7" "\<forall>i \<le> 7. ary ! i < 2 ^ 32"
  shows "sqlnum_unscale_be ary n = sqlnum_unscale_be ary 0"
proof -
  have "fold unscale_be_step [0 ..< n] ary = ary" using assms(1,2)
  proof (induction n)
    case (Suc n)
    then have "ary ! n = 0" "ary ! Suc n < 2 ^ 32" using assms(3) by simp_all
    then show ?case using Suc by (simp add: unscale_be_step_zero)
  qed simp
  moreover have "[0 ..< 7] = [0 ..< n] @ [n ..< 7]" using assms(2) by (metis le_add_diff_inverse upt_add_eq_append zero_le)
  ultimately show ?thesis by (simp add: sqlnum_unscale_be_def)
qed

lemma carry_limb: "x + 65536 * (y + z) = x mod 65536 + 65536 * (y + x div 65536 + (z :: nat))"
proof -
  have "65536 * (x div 65536) + x mod 65536 = x" by simp
  then show ?thesis by (simp only: distrib_left)
qed

lemma carry_value:
  assumes "length ary = 8" "\<forall>x\<in>set ary. x < 2 ^ 32 - 2 ^ 16"
  shows "limbs_ok (sqlnum_carry ary) \<and> limbs_value (sqlnum_carry ary) = limbs_value ary"
proof -
  obtain a b c d e f g h where ary: "ary = [a, b, c, d, e, f, g, h]"
    using assms(1) by (rule eight)
  have bnd: "a < 4294901760" "b < 4294901760" "c < 4294901760" "d < 4294901760" "e < 4294901760" "f < 4294901760" "g < 4294901760" "h < 4294901760"
    using assms(2) by (simp_all add: ary)
  define b1 where "b1 = b + a div 65536"
  define c1 where "c1 = c + b1 div 65536"
  define d1 where "d1 = d + c1 div 65536"
  define e1 where "e1 = e + d1 div 65536"
  define f1 where "f1 = f + e1 div 65536"
  define g1 where "g1 = g + f1 div 65536"
  define h1 where "h1 = h + g1 div 65536"
  have small: "x + y div 65536 < 2 ^ 32" if "x < 4294901760" "y < 2 ^ 32" for x y :: nat
  proof -
    have "y div 65536 < 65536" using that(2) by (simp add: div_less_iff_less_mult)
    then show ?thesis using that(1) by simp
  qed
  have b1: "b1 < 2 ^ 32" and "a < 2 ^ 32" unfolding b1_def by (rule small) (use bnd in simp_all)
  have c1: "c1 < 2 ^ 32" unfolding c1_def by (rule small) (use bnd b1 in simp_all)
  have d1: "d1 < 2 ^ 32" unfolding d1_def by (rule small) (use bnd c1 in simp_all)
  have e1: "e1 < 2 ^ 32" unfolding e1_def by (rule small) (use bnd d1 in simp_all)
  have f1: "f1 < 2 ^ 32" unfolding f1_def by (rule small) (use bnd e1 in simp_all)
  have g1: "g1 < 2 ^ 32" unfolding g1_def by (rule small) (use bnd f1 in simp_all)
  have h1: "h1 < 2 ^ 32" unfolding h1_def by (rule small) (use bnd g1 in simp_all)
  have w: "u32 x = x" if "x < 2 ^ 32" for x using that by (simp add: u32_def)
  have res: "sqlnum_carry ary = [a mod 65536, b1 mod 65536, c1 mod 65536, d1 mod 65536, e1 mod 65536, f1 mod 65536, g1 mod 65536, h1]"
    using b1 c1 d1 e1 f1 g1 h1
    by (simp add: ary sqlnum_carry_def carry_step_def Let_def upt_rec w b1_def [symmetric] c1_def [symmetric] d1_def [symmetric]
      e1_def [symmetric] f1_def [symmetric] g1_def [symmetric] h1_def [symmetric])
  have "limbs_value (sqlnum_carry ary) = limbs_value ary"
    unfolding res limbs_value_def unfolding ary foldr.simps o_apply id_apply
      carry_limb [of a b, folded b1_def] carry_limb [of b1 c, folded c1_def] carry_limb [of c1 d, folded d1_def]
      carry_limb [of d1 e, folded e1_def] carry_limb [of e1 f, folded f1_def] carry_limb [of f1 g, folded g1_def]
      carry_limb [of g1 h, folded h1_def] ..
  with h1 show ?thesis by (simp add: res limbs_ok_def)
qed


lemma scale_map:
  "\<forall>x\<in>set ary. x * 10 ^ s < 2 ^ 32 \<Longrightarrow> sqlnum_scale ary s = map (\<lambda>x. x * 10 ^ s) ary"
proof (induction s arbitrary: ary)
  case (Suc s)
  have "x * 10 < 2 ^ 32 \<and> x * 10 * 10 ^ s < 2 ^ 32" if "x \<in> set ary" for x
  proof -
    have p: "x * 10 * 10 ^ s < 2 ^ 32" using bspec [OF Suc.prems that] by (simp only: power_Suc mult.assoc)
    have "x * 10 * 1 \<le> x * 10 * 10 ^ s" by (rule mult_le_mono2) simp
    then show ?thesis using p by linarith
  qed
  then show ?case by (simp add: Suc.IH u32_def mult_ac del: mult.commute cong: map_cong)
qed simp

lemma value_map_mult: "limbs_value (map (\<lambda>x. x * k) ary) = limbs_value ary * k"
  by (induction ary) (simp_all add: limbs_value_def algebra_simps)

lemma limbs_value_Cons: "limbs_value (x # xs) = x + 65536 * limbs_value xs"
  by (simp add: limbs_value_def)

text \<open>
  A group of digits is multiplied in: scaled by the number of its digits, added to the lowest
  limb, and carried. Without overflow before, four digits stay within the 32 bits.
\<close>

lemma scale_add_carry:
  assumes "limbs_full ary" "s \<le> 4" "c < 10 ^ 4"
  defines "ary1 \<equiv> sqlnum_scale ary s"
  shows "limbs_ok (sqlnum_carry (ary1[0 := u32 (ary1 ! 0 + c)])) \<and>
    limbs_value (sqlnum_carry (ary1[0 := u32 (ary1 ! 0 + c)])) = limbs_value ary * 10 ^ s + c"
proof -
  have "10 ^ s \<le> (10 :: nat) ^ 4" using assms(2) by (rule power_increasing) simp
  moreover have x: "x < 65536" if "x \<in> set ary" for x using assms(1) that by (simp add: limbs_full_def)
  ultimately have b: "x * 10 ^ s < 655360000" if "x \<in> set ary" for x
    using mult_less_le_imp_less [of x 65536 "10 ^ s" "10 ^ 4"] that by simp
  then have m: "ary1 = map (\<lambda>x. x * 10 ^ s) ary" unfolding ary1_def by (intro scale_map) force
  obtain y ys where ary: "ary = y # ys" using assms(1) by (cases ary) (simp_all add: limbs_full_def)
  have u: "u32 (ary1 ! 0 + c) = y * 10 ^ s + c" using b [of y] assms(3) by (simp add: m ary u32_def)
  have "x < 2 ^ 32 - 2 ^ 16" if "x \<in> set (ary1[0 := u32 (ary1 ! 0 + c)])" for x
    using that b assms(3) unfolding u by (fastforce simp: m ary)
  moreover have "length ary1 = 8" using assms(1) by (simp add: m limbs_full_def)
  moreover have "limbs_value (ary1[0 := u32 (ary1 ! 0 + c)]) = limbs_value ary * 10 ^ s + c"
    unfolding u by (simp add: m ary limbs_value_Cons value_map_mult algebra_simps)
  ultimately show ?thesis using carry_value [of "ary1[0 := u32 (ary1 ! 0 + c)]"] by simp
qed


section \<open>From a literal to the structure\<close>

record SQL_NUMERIC_STRUCT =
  n_precision :: nat
  n_scale :: int
  n_sign :: nat
  n_val :: "nat list"

text \<open>\<^verbatim>\<open>strtoul\<close> in base 10.\<close>

definition strtoul :: "string \<Rightarrow> nat" where
  "strtoul s =
     (let t = dropWhile is_c_space s;
          neg = (t \<noteq> [] \<and> hd t = CHR ''-'');
          u = (if t \<noteq> [] \<and> (hd t = CHR ''-'' \<or> hd t = CHR ''+'') then tl t else t);
          v = int (digits_value (takeWhile is_c_digit u))
      in if 2 ^ 64 \<le> v then 2 ^ 64 - 1 else nat ((if neg then - v else v) mod 2 ^ 64))"

text \<open>One group of at most four characters, the last of which may be the decimal point.\<close>

definition add_group :: "string \<Rightarrow> limbs \<Rightarrow> limbs" where
  "add_group curdigs build_up =
     (let curnum = u32 (strtoul curdigs);
          ary = sqlnum_scale build_up (if last curdigs = CHR ''.'' then length curdigs - 1 else length curdigs)
      in sqlnum_carry (ary[0 := u32 (ary ! 0 + curnum)]))"

text \<open>
  The loop over the groups: \<open>True\<close> is the jump to \<^verbatim>\<open>end\<close>, taken at the group after the one that
  left the 128 bits.
\<close>

function from_groups :: "string \<Rightarrow> nat \<Rightarrow> nat option \<Rightarrow> limbs \<Rightarrow> nat \<Rightarrow> SQL_NUMERIC_STRUCT \<Rightarrow>
    bool \<times> limbs \<times> nat \<times> SQL_NUMERIC_STRUCT" where
  "from_groups numstr i decpt build_up overflow n =
     (if i < length numstr
      then
        (let usedig = (if i + 4 < length numstr then 4 else length numstr - i);
             hit = (case decpt of Some d \<Rightarrow> i \<le> d \<and> d < i + usedig | None \<Rightarrow> False);
             usedig = (if hit then the decpt - i + 1 else usedig);
             n = (if hit then n\<lparr>n_scale := to_int8 (int (length numstr) - int (i + usedig)), n_precision := dec8 (n_precision n)\<rparr> else n);
             decpt = (if hit then None else decpt)
         in if overflow \<noteq> 0 then (True, build_up, overflow, n)
            else
              (let build_up = add_group (take usedig (drop i numstr)) build_up
               in from_groups numstr (i + usedig) decpt build_up (if 2 ^ 16 \<le> build_up ! 7 then 1 else 0) n))
      else (False, build_up, overflow, n))"
  by pat_completeness auto
termination
  by (relation "measure (\<lambda>(numstr, i, _). length numstr - i)") (auto split: if_splits option.splits)

declare from_groups.simps [simp del]

text \<open>Up to the requested scale, back to it, and back among the digits before the point.\<close>

function scale_up :: "int \<Rightarrow> limbs \<Rightarrow> SQL_NUMERIC_STRUCT \<Rightarrow> limbs \<times> SQL_NUMERIC_STRUCT" where
  "scale_up reqscale build_up n =
     (if n_scale n < reqscale
      then scale_up reqscale (sqlnum_carry (sqlnum_scale build_up 1)) (n\<lparr>n_scale := n_scale n + 1\<rparr>)
      else (build_up, n))"
  by pat_completeness auto
termination
  by (relation "measure (\<lambda>(r, b, n). nat (r - n_scale n))") auto

function scale_back :: "int \<Rightarrow> limbs \<Rightarrow> nat \<Rightarrow> SQL_NUMERIC_STRUCT \<Rightarrow> limbs \<times> nat \<times> SQL_NUMERIC_STRUCT" where
  "scale_back reqscale build_up overflow n =
     (if reqscale < n_scale n \<and> 0 < n_scale n
      then
        (case drop_digit build_up of (digit, build_up) \<Rightarrow>
           scale_back reqscale build_up (if digit \<noteq> 0 then 2 else overflow)
             (n\<lparr>n_precision := dec8 (n_precision n), n_scale := n_scale n - 1\<rparr>))
      else (build_up, overflow, n))"
  by pat_completeness auto
termination
  by (relation "measure (\<lambda>(r, b, ov, n). nat (n_scale n))") auto

function scale_whole :: "int \<Rightarrow> limbs \<Rightarrow> nat \<Rightarrow> SQL_NUMERIC_STRUCT \<Rightarrow> bool \<times> limbs \<times> nat \<times> SQL_NUMERIC_STRUCT" where
  "scale_whole reqscale build_up overflow n =
     (if reqscale < n_scale n
      then
        (case drop_digit build_up of (digit, build_up1) \<Rightarrow>
           if digit \<noteq> 0 then (True, build_up, 1, n)
           else scale_whole reqscale build_up1 overflow (n\<lparr>n_precision := dec8 (n_precision n), n_scale := n_scale n - 1\<rparr>))
      else (False, build_up, overflow, n))"
  by pat_completeness auto
termination
  by (relation "measure (\<lambda>(r, b, ov, n). nat (n_scale n - r))") auto

declare scale_up.simps [simp del] scale_back.simps [simp del] scale_whole.simps [simp del]

lemma dec8_Suc: "p < 255 \<Longrightarrow> dec8 (Suc p) = p"
  by (simp add: dec8_def)

lemma dec8_less: "p \<noteq> 0 \<Longrightarrow> dec8 p < p" "dec8 0 < 256"
proof -
  assume "p \<noteq> 0"
  then obtain q where "p = Suc q" by (cases p) auto
  moreover have "(Suc q + 255) mod 256 = q mod 256" using mod_add_self2 [of q 256] by simp
  ultimately show "dec8 p < p" using mod_less_eq_dividend [of q 256] by (simp add: dec8_def)
qed (simp add: dec8_def)

text \<open>The digits that are left when the zeros at the end are not counted.\<close>

function min_precision :: "limbs \<Rightarrow> nat \<Rightarrow> nat" where
  "min_precision tmp_prec_calc temp_precision =
     (case drop_digit tmp_prec_calc of (digit, tmp_prec_calc) \<Rightarrow>
        if digit = 0
        then (if 0 < dec8 temp_precision then min_precision tmp_prec_calc (dec8 temp_precision) else dec8 temp_precision)
        else temp_precision)"
  by pat_completeness auto
termination
  by (relation "measure (\<lambda>(b, p). if p = 0 then 256 else p)") (simp_all add: dec8_less)

declare min_precision.simps [simp del]

definition compress :: "limbs \<Rightarrow> nat list" where
  "compress build_up = concat (map (\<lambda>x. [x mod 256, (x div 256) mod 256]) build_up)"

definition sqlnum_from_str :: "string \<Rightarrow> SQL_NUMERIC_STRUCT \<Rightarrow> SQL_NUMERIC_STRUCT \<times> nat" where
  "sqlnum_from_str numstr0 sqlnum =
     (let decpt0 = find_char CHR ''.'' numstr0;
          reqscale = n_scale sqlnum; reqprec = n_precision sqlnum;
          neg = (numstr0 \<noteq> [] \<and> hd numstr0 = CHR ''-'');
          numstr = (if neg then tl numstr0 else numstr0);
          decpt = (if neg then map_option (\<lambda>d. d - 1) decpt0 else decpt0);
          n = sqlnum\<lparr>n_val := replicate 16 0, n_sign := (if neg then 0 else 1), n_precision := length numstr mod 256, n_scale := 0\<rparr>
      in case from_groups numstr 0 decpt (replicate 8 0) 0 n of (to_end, build_up, overflow, n) \<Rightarrow>
           if to_end then (n, overflow)
           else
             (case (if 0 < reqscale \<and> n_scale n < reqscale
                    then (case scale_up reqscale build_up n of (build_up, n) \<Rightarrow> (build_up, overflow, n))
                    else if reqscale < n_scale n then scale_back reqscale build_up overflow n
                    else (build_up, overflow, n)) of (build_up, overflow, n) \<Rightarrow>
              (case (if reqscale < 0 then scale_whole reqscale build_up overflow n else (False, build_up, overflow, n)) of
                 (to_end, build_up, overflow, n) \<Rightarrow>
                   if to_end then (n, overflow)
                   else (n\<lparr>n_val := compress build_up\<rparr>,
                         if reqprec < min_precision build_up (n_precision n) then 1 else overflow))))"


section \<open>What a literal is worth\<close>

lemma digits_value_append: "digits_value (u @ v) = digits_value u * 10 ^ length v + digits_value v"
proof (induction v rule: rev_induct)
  case (snoc c v)
  have "digits_value (w @ [c]) = 10 * digits_value w + (of_char c - 48)" for w by (simp add: digits_value_def)
  from this [of "u @ v"] this [of v] show ?case using snoc by (simp add: algebra_simps)
qed (simp add: digits_value_def)

lemma digits_value_less: "\<forall>c\<in>set s. is_c_digit c \<Longrightarrow> digits_value s < 10 ^ length s"
proof (induction s rule: rev_induct)
  case (snoc c s)
  have "(of_char c :: nat) - 48 < 10" using snoc.prems by (auto simp: is_c_digit_def)
  then have "digits_value [c] < 10" by (simp add: digits_value_def)
  then show ?case using snoc by (simp add: digits_value_append)
qed (simp add: digits_value_def)

lemma c_digit_other: "is_c_digit c \<Longrightarrow> c \<noteq> CHR ''.'' \<and> c \<noteq> CHR ''-'' \<and> c \<noteq> CHR ''+'' \<and> \<not> is_c_space c"
  by (auto simp: is_c_digit_def is_c_space_def)

lemma not_c_digit_point [simp]: "\<not> is_c_digit CHR ''.''"
  by (simp add: is_c_digit_def)

lemma strtoul_digits:
  assumes "\<forall>c\<in>set u. is_c_digit c" "length u \<le> 4" "v = [] \<or> v = ''.''"
  shows "strtoul (u @ v) = digits_value u"
proof -
  have d: "dropWhile is_c_space (u @ v) = u @ v" "u @ v \<noteq> [] \<Longrightarrow> hd (u @ v) \<noteq> CHR ''-'' \<and> hd (u @ v) \<noteq> CHR ''+''"
    using assms(1,3) c_digit_other by (cases u; auto simp: is_c_space_def)+
  have "takeWhile is_c_digit (u @ v) = u" using assms(1,3) by (auto simp: takeWhile_append2)
  moreover have "digits_value u < 10 ^ 4"
    using digits_value_less [OF assms(1)] power_increasing [OF assms(2), of "10 :: nat"] by simp
  ultimately show ?thesis using d by (auto simp: strtoul_def Let_def)
qed

lemma add_group_value:
  assumes "limbs_full b" "\<forall>c\<in>set u. is_c_digit c" "length u \<le> 4" "v = [] \<and> u \<noteq> [] \<or> v = ''.''"
  shows "limbs_ok (add_group (u @ v) b) \<and> limbs_value (add_group (u @ v) b) = limbs_value b * 10 ^ length u + digits_value u"
proof -
  have less: "digits_value u < 10 ^ 4"
    using digits_value_less [OF assms(2)] power_increasing [OF assms(3), of "10 :: nat"] by simp
  then have "u32 (strtoul (u @ v)) = digits_value u" using strtoul_digits [OF assms(2,3), of v] assms(4) by (auto simp: u32_def)
  moreover have "(if last (u @ v) = CHR ''.'' then length (u @ v) - 1 else length (u @ v)) = length u"
    using assms(2,4) c_digit_other last_in_set by fastforce
  ultimately show ?thesis using scale_add_carry [OF assms(1,3) less] by (simp add: add_group_def Let_def)
qed

text \<open>The digits of a text that may have a decimal point.\<close>

definition lit_digits :: "string \<Rightarrow> string" where
  "lit_digits s = filter (\<lambda>c. c \<noteq> CHR ''.'') s"

definition point_ok :: "string \<Rightarrow> nat \<Rightarrow> nat option \<Rightarrow> bool" where
  "point_ok numstr i decpt \<longleftrightarrow>
     (\<forall>c\<in>set (lit_digits numstr). is_c_digit c) \<and>
     (case decpt of None \<Rightarrow> CHR ''.'' \<notin> set (drop i numstr)
      | Some d \<Rightarrow> i \<le> d \<and> find_char CHR ''.'' (drop i numstr) = Some (d - i) \<and> CHR ''.'' \<notin> set (drop (Suc d) numstr))"

definition with_point :: "string \<Rightarrow> nat option \<Rightarrow> SQL_NUMERIC_STRUCT \<Rightarrow> SQL_NUMERIC_STRUCT" where
  "with_point numstr decpt n =
     (case decpt of None \<Rightarrow> n
      | Some d \<Rightarrow> n\<lparr>n_scale := to_int8 (int (length numstr) - int (Suc d)), n_precision := dec8 (n_precision n)\<rparr>)"

lemma find_char_drop: "find_char c s = Some p \<Longrightarrow> k \<le> p \<Longrightarrow> find_char c (drop k s) = Some (p - k)"
proof (induction k arbitrary: s p)
  case (Suc k)
  then show ?case by (cases s) (auto split: if_splits)
qed simp

text \<open>One turn of the loop: what it takes off the text, and what is left.\<close>

lemma from_groups_turn:
  assumes "i < length numstr" "point_ok numstr i decpt"
  obtains u v i' decpt' where
    "\<And>b n. from_groups numstr i decpt b 0 n =
       from_groups numstr i' decpt' (add_group (u @ v) b) (if 2 ^ 16 \<le> add_group (u @ v) b ! 7 then 1 else 0)
         (if v = [] then n else with_point numstr decpt n)"
    "i < i'" "i' \<le> length numstr" "point_ok numstr i' decpt'" "\<forall>c\<in>set u. is_c_digit c" "length u \<le> 4"
    "v = [] \<and> u \<noteq> [] \<and> decpt' = decpt \<or> v = ''.'' \<and> decpt' = None"
    "drop i numstr = u @ v @ drop i' numstr"
proof -
  define used where "used = (if i + 4 < length numstr then 4 else length numstr - i)"
  have used: "0 < used" "used \<le> 4" "i + used \<le> length numstr" using assms(1) by (auto simp: used_def)
  have digit: "is_c_digit c" if "c \<in> set (drop i numstr)" "c \<noteq> CHR ''.''" for c
    using assms(2) that in_set_dropD [of c i numstr] by (auto simp: point_ok_def lit_digits_def)
  show ?thesis
  proof (cases "\<exists>d. decpt = Some d \<and> d < i + used")
    case True
    then obtain d where d: "decpt = Some d" "i \<le> d" "d < i + used" "find_char CHR ''.'' (drop i numstr) = Some (d - i)"
      "CHR ''.'' \<notin> set (drop (Suc d) numstr)"
      using assms(2) by (auto simp: point_ok_def)
    let ?u = "take (d - i) (drop i numstr)"
    have nth: "drop i numstr ! (d - i) = CHR ''.''" "d - i < length (drop i numstr)" "CHR ''.'' \<notin> set ?u"
      using find_char_Some [OF d(4)] by auto
    have split: "take (Suc (d - i)) (drop i numstr) = ?u @ ''.''"
      using take_Suc_conv_app_nth [OF nth(2)] nth(1) by simp
    have turn: "from_groups numstr i decpt b 0 n = from_groups numstr (Suc d) None (add_group (?u @ ''.'') b)
        (if 2 ^ 16 \<le> add_group (?u @ ''.'') b ! 7 then 1 else 0) (with_point numstr decpt n)" for b n
      using assms(1) d(1-3) split
      by (subst from_groups.simps) (simp add: used_def [symmetric] Let_def with_point_def Suc_diff_le)
    have "drop i numstr = take (Suc (d - i)) (drop i numstr) @ drop (Suc d) numstr"
      using d(2) by (metis Suc_diff_le add_diff_inverse_nat append_take_drop_id drop_drop le_SucI less_Suc_eq_le not_less add.commute)
    then have "drop i numstr = ?u @ ''.'' @ drop (Suc d) numstr" by (simp only: split append_assoc)
    moreover have "\<forall>c\<in>set ?u. is_c_digit c" using digit nth(3) in_set_takeD by metis
    moreover have "point_ok numstr (Suc d) None" using assms(2) d(5) by (simp add: point_ok_def)
    ultimately show ?thesis using turn d(2,3) used by (intro that [of "Suc d" None ?u "''.''"]) simp_all
  next
    case False
    let ?u = "take used (drop i numstr)"
    have turn: "from_groups numstr i decpt b 0 n = from_groups numstr (i + used) decpt (add_group (?u @ []) b)
        (if 2 ^ 16 \<le> add_group (?u @ []) b ! 7 then 1 else 0) n" for b n
      using assms(1) False
      by (subst from_groups.simps) (auto simp: used_def [symmetric] Let_def split: option.split)
    have rest: "CHR ''.'' \<notin> set ?u \<and> point_ok numstr (i + used) decpt"
    proof (cases decpt)
      case None
      then show ?thesis using assms(2)
        by (auto simp: point_ok_def add.commute [of i] dest!: in_set_takeD dest: in_set_dropD simp flip: drop_drop)
    next
      case (Some d)
      then have d: "i + used \<le> d" "i \<le> d" "find_char CHR ''.'' (drop i numstr) = Some (d - i)" using False assms(2) by (auto simp: point_ok_def)
      have "CHR ''.'' \<notin> set (take (d - i) (drop i numstr))" using find_char_Some [OF d(3)] by simp
      moreover have "set ?u \<subseteq> set (take (d - i) (drop i numstr))" using d(1) by (intro set_take_subset_set_take) simp
      moreover have "find_char CHR ''.'' (drop (i + used) numstr) = Some (d - (i + used))"
        using find_char_drop [OF d(3), of used] d(1) by (simp add: add.commute)
      ultimately show ?thesis using assms(2) d(1) Some by (auto simp: point_ok_def)
    qed
    have "drop i numstr = ?u @ [] @ drop (i + used) numstr"
      by (metis add.commute append_Nil append_take_drop_id drop_drop)
    moreover have "\<forall>c\<in>set ?u. is_c_digit c" using digit rest in_set_takeD by metis
    ultimately show ?thesis using turn rest used assms(1) by (intro that [of "i + used" decpt ?u "[]"]) simp_all
  qed
qed


lemma limbs_full_top: "limbs_full b \<Longrightarrow> b ! 7 < 2 ^ 16"
  by (simp add: limbs_full_def)

lemma lit_digits_turn:
  "\<forall>c\<in>set u. is_c_digit c \<Longrightarrow> v = [] \<or> v = ''.'' \<Longrightarrow> lit_digits (u @ v @ w) = u @ lit_digits w"
  using c_digit_other by (force simp: lit_digits_def filter_id_conv)

lemma from_groups_value:
  assumes "point_ok numstr i decpt" "i \<le> length numstr" "limbs_full b"
    "limbs_value b * 10 ^ length (lit_digits (drop i numstr)) + digits_value (lit_digits (drop i numstr)) < 2 ^ 128"
  shows "\<exists>b'. from_groups numstr i decpt b 0 n = (False, b', 0, with_point numstr decpt n) \<and> limbs_full b' \<and>
    limbs_value b' = limbs_value b * 10 ^ length (lit_digits (drop i numstr)) + digits_value (lit_digits (drop i numstr))"
  using assms
proof (induction "length numstr - i" arbitrary: i decpt b n rule: less_induct)
  case less
  show ?case
  proof (cases "i < length numstr")
    case True
    obtain i' decpt' u v where t:
      "\<And>b n. from_groups numstr i decpt b 0 n =
         from_groups numstr i' decpt' (add_group (u @ v) b) (if 2 ^ 16 \<le> add_group (u @ v) b ! 7 then 1 else 0)
           (if v = [] then n else with_point numstr decpt n)"
      "i < i'" "i' \<le> length numstr" "point_ok numstr i' decpt'" "\<forall>c\<in>set u. is_c_digit c" "length u \<le> 4"
      "v = [] \<and> u \<noteq> [] \<and> decpt' = decpt \<or> v = ''.'' \<and> decpt' = None"
      "drop i numstr = u @ v @ drop i' numstr"
      by (rule from_groups_turn [OF True less.prems(1)]) blast
    let ?w = "lit_digits (drop i' numstr)" let ?b = "add_group (u @ v) b"
    have split: "lit_digits (drop i numstr) = u @ ?w" using t(5,7,8) lit_digits_turn by auto
    have g: "limbs_ok ?b" "limbs_value ?b = limbs_value b * 10 ^ length u + digits_value u"
      using add_group_value [OF less.prems(3) t(5,6)] t(7) by auto
    have tot: "limbs_value ?b * 10 ^ length ?w + digits_value ?w =
        limbs_value b * 10 ^ length (lit_digits (drop i numstr)) + digits_value (lit_digits (drop i numstr))"
      unfolding split g(2) by (simp add: digits_value_append power_add algebra_simps)
    have "limbs_value ?b * 1 \<le> limbs_value ?b * 10 ^ length ?w" by (rule mult_le_mono2) simp
    then have full: "limbs_full ?b" using less.prems(4) g(1) unfolding limbs_full_iff tot [symmetric] by linarith
    obtain b' where "from_groups numstr i' decpt' ?b 0 (if v = [] then n else with_point numstr decpt n) =
        (False, b', 0, with_point numstr decpt' (if v = [] then n else with_point numstr decpt n))" "limbs_full b'"
      "limbs_value b' = limbs_value ?b * 10 ^ length ?w + digits_value ?w"
      using less.hyps [OF _ t(4,3) full] t(2,3) less.prems(4) unfolding tot by (metis diff_less_mono2 True)
    moreover have "with_point numstr decpt' (if v = [] then n else with_point numstr decpt n) = with_point numstr decpt n"
      using t(7) by (auto simp: with_point_def)
    ultimately show ?thesis using limbs_full_top [OF full] unfolding t(1) tot by (auto simp: not_le)
  next
    case False
    then have "decpt = None" using less.prems(1,2) by (auto simp: point_ok_def split: option.splits)
    then show ?thesis using False less.prems
      by (subst from_groups.simps) (simp add: with_point_def lit_digits_def digits_value_def)
  qed
qed


lemma scale_carry_value:
  assumes "limbs_full b"
  shows "limbs_ok (sqlnum_carry (sqlnum_scale b 1)) \<and> limbs_value (sqlnum_carry (sqlnum_scale b 1)) = limbs_value b * 10"
proof -
  have "x * 10 < 655360" if "x \<in> set b" for x using assms that by (auto simp: limbs_full_def)
  then have b: "\<forall>x\<in>set b. x * 10 ^ 1 < 2 ^ 32 - 2 ^ 16" by force
  then have "sqlnum_scale b 1 = map (\<lambda>x. x * 10 ^ 1) b" by (intro scale_map) force
  with b carry_value [of "map (\<lambda>x. x * 10 ^ 1) b"] show ?thesis
    using assms by (simp add: value_map_mult limbs_full_def del: sqlnum_scale.simps)
qed

lemma scale_up_value:
  assumes "limbs_full b" "n_scale n \<le> r" "limbs_value b * 10 ^ nat (r - n_scale n) < 2 ^ 128"
  shows "\<exists>b'. scale_up r b n = (b', n\<lparr>n_scale := r\<rparr>) \<and> limbs_full b' \<and> limbs_value b' = limbs_value b * 10 ^ nat (r - n_scale n)"
  using assms
proof (induction "nat (r - n_scale n)" arbitrary: b n)
  case 0
  then show ?case by (subst scale_up.simps) simp
next
  case (Suc k)
  let ?b = "sqlnum_carry (sqlnum_scale b 1)" let ?n = "n\<lparr>n_scale := n_scale n + 1\<rparr>"
  have k: "nat (r - n_scale ?n) = k" "nat (r - n_scale n) = Suc k" "n_scale n < r" using Suc.hyps(2) by auto
  have tot: "limbs_value ?b * 10 ^ k = limbs_value b * 10 ^ Suc k" using scale_carry_value [OF Suc.prems(1)] by simp
  moreover have "limbs_value ?b * 1 \<le> limbs_value ?b * 10 ^ k" by (rule mult_le_mono2) simp
  ultimately have "limbs_full ?b" using Suc.prems(3) scale_carry_value [OF Suc.prems(1)] unfolding limbs_full_iff k(2) by linarith
  then obtain b' where "scale_up r ?b ?n = (b', ?n\<lparr>n_scale := r\<rparr>)" "limbs_full b'" "limbs_value b' = limbs_value ?b * 10 ^ k"
    using Suc.hyps(1) [of ?n ?b] k Suc.prems(3) tot by auto
  then show ?case using k tot by (subst scale_up.simps) simp
qed

lemma scale_back_value:
  assumes "limbs_ok b" "0 \<le> r" "r \<le> n_scale n" "nat (n_scale n - r) \<le> n_precision n" "n_precision n < 256"
  shows "\<exists>b'. scale_back r b ov n =
      (b', if limbs_value b mod 10 ^ nat (n_scale n - r) \<noteq> 0 then 2 else ov,
       n\<lparr>n_precision := n_precision n - nat (n_scale n - r), n_scale := r\<rparr>) \<and>
    limbs_ok b' \<and> limbs_value b' = limbs_value b div 10 ^ nat (n_scale n - r)"
  using assms
proof (induction "nat (n_scale n - r)" arbitrary: b ov n)
  case 0
  then show ?case by (subst scale_back.simps) simp
next
  case (Suc k)
  obtain digit b1 where dd: "drop_digit b = (digit, b1)" by fastforce
  then have b1: "limbs_ok b1" "limbs_value b1 = limbs_value b div 10" "digit = limbs_value b mod 10"
    using drop_digit_value [OF Suc.prems(1)] by simp_all
  obtain q where q: "n_precision n = Suc q" "k \<le> q" "q < 255" using Suc.prems(4,5) Suc.hyps(2) by (cases "n_precision n") auto
  let ?n = "n\<lparr>n_precision := q, n_scale := n_scale n - 1\<rparr>" let ?ov = "if digit \<noteq> 0 then 2 else ov"
  have k: "nat (n_scale ?n - r) = k" "nat (n_scale n - r) = Suc k" "r < n_scale n" using Suc.hyps(2) by auto
  obtain b' where b': "scale_back r b1 ?ov ?n = (b', if limbs_value b1 mod 10 ^ k \<noteq> 0 then 2 else ?ov, ?n\<lparr>n_precision := q - k, n_scale := r\<rparr>)"
    "limbs_ok b'" "limbs_value b' = limbs_value b1 div 10 ^ k"
    using Suc.hyps(1) [of ?n b1 ?ov] k(1,3) b1(1) q Suc.prems(2) by auto
  have "limbs_value b mod 10 ^ Suc k = 10 * (limbs_value b1 mod 10 ^ k) + digit"
    unfolding b1 power_Suc mod_mult2_eq by simp
  then have z: "limbs_value b mod 10 ^ Suc k \<noteq> 0 \<longleftrightarrow> limbs_value b1 mod 10 ^ k \<noteq> 0 \<or> digit \<noteq> 0" by auto
  have "scale_back r b ov n = scale_back r b1 ?ov ?n"
    using k(3) Suc.prems(2) q by (subst scale_back.simps) (simp add: dd dec8_Suc)
  moreover have "limbs_value b' = limbs_value b div 10 ^ Suc k" unfolding b'(3) b1(2) by (simp add: div_mult2_eq)
  ultimately show ?case unfolding k(2) using b'(1,2) q z by auto
qed

text \<open>The zeros at the end of a number of \<open>p\<close> digits.\<close>

primrec trailing_zeros :: "nat \<Rightarrow> nat \<Rightarrow> nat" where
  "trailing_zeros 0 v = 0"
| "trailing_zeros (Suc p) v = (if v mod 10 = 0 then Suc (trailing_zeros p (v div 10)) else 0)"

lemma trailing_zeros_zero [simp]: "trailing_zeros p 0 = p"
  by (induction p) simp_all

lemma min_precision_pos:
  assumes "limbs_ok b" "0 < p" "p < 256"
  shows "min_precision b p = p - trailing_zeros p (limbs_value b)"
  using assms
proof (induction p arbitrary: b)
  case (Suc p)
  obtain digit b1 where dd: "drop_digit b = (digit, b1)" by fastforce
  then have b1: "limbs_ok b1" "limbs_value b1 = limbs_value b div 10" "digit = limbs_value b mod 10"
    using drop_digit_value [OF Suc.prems(1)] by simp_all
  have "min_precision b (Suc p) = (if digit = 0 then (if 0 < p then min_precision b1 p else p) else Suc p)"
    using Suc.prems(3) by (subst min_precision.simps) (simp add: dd dec8_Suc)
  then show ?case using Suc.IH [OF b1(1)] Suc.prems(3) b1(2,3) by auto
qed simp

lemma min_precision_value:
  assumes "limbs_ok b" "p < 256" "p = 0 \<Longrightarrow> limbs_value b = 0"
  shows "min_precision b p = p - trailing_zeros p (limbs_value b)"
proof (cases "p = 0")
  case True
  obtain digit b1 where dd: "drop_digit b = (digit, b1)" by fastforce
  then have "limbs_ok b1" "limbs_value b1 = 0" "digit = 0" using drop_digit_value [OF assms(1)] assms(3) True by simp_all
  then show ?thesis using True dd by (subst min_precision.simps) (simp add: dec8_def min_precision_pos)
qed (use min_precision_pos assms in simp)

definition bytes_value :: "nat list \<Rightarrow> nat" where
  "bytes_value bs = foldr (\<lambda>x v. x + 256 * v) bs 0"

lemma compress_value: "\<forall>x\<in>set b. x < 2 ^ 16 \<Longrightarrow> bytes_value (compress b) = limbs_value b"
proof (induction b)
  case (Cons x b)
  then have "x div 256 < 256" by (simp add: div_less_iff_less_mult)
  then have "x div 256 mod 256 = x div 256" by simp
  moreover have "x mod 256 + 256 * (x div 256) = x" by simp
  then have "x mod 256 + 256 * (x div 256 + 256 * v) = x + 65536 * v" for v by (simp only: distrib_left)
  ultimately show ?case using Cons by (simp add: compress_def bytes_value_def limbs_value_Cons)
qed (simp add: compress_def bytes_value_def limbs_value_def)

lemma compress_bytes: "length (compress b) = 2 * length b" "\<forall>x\<in>set (compress b). x < 256"
proof -
  show "length (compress b) = 2 * length b" by (induction b) (simp_all add: compress_def)
  have "x mod 256 < 256" for x :: nat by simp
  then show "\<forall>x\<in>set (compress b). x < 256" by (auto simp: compress_def simp del: mod_less_divisor)
qed


text \<open>A literal: a sign, digits, and perhaps a point and digits behind it; and where its point is.\<close>

definition unsigned :: "string \<Rightarrow> string option \<Rightarrow> string" where
  "unsigned ds fs = ds @ (case fs of None \<Rightarrow> [] | Some f \<Rightarrow> CHR ''.'' # f)"

definition literal :: "bool \<Rightarrow> string \<Rightarrow> string option \<Rightarrow> string" where
  "literal neg ds fs = (if neg then ''-'' else []) @ unsigned ds fs"

definition fraction :: "string option \<Rightarrow> string" where
  "fraction fs = (case fs of None \<Rightarrow> [] | Some f \<Rightarrow> f)"

definition point_of :: "string \<Rightarrow> string option \<Rightarrow> nat option" where
  "point_of ds fs = map_option (\<lambda>_. length ds) fs"

lemma digits_no_point: "\<forall>c\<in>set ds. is_c_digit c \<Longrightarrow> CHR ''.'' \<notin> set ds"
  by auto

lemma find_point:
  assumes "\<forall>c\<in>set ds. is_c_digit c" "\<forall>c\<in>set (fraction fs). is_c_digit c"
  shows "find_char CHR ''.'' (unsigned ds fs) = point_of ds fs"
  using assms digits_no_point [of ds] by (auto simp: unsigned_def point_of_def find_char_append find_char_None split: option.split)

lemma unsigned_literal:
  fixes neg :: bool
  assumes "\<forall>c\<in>set ds. is_c_digit c" "\<forall>c\<in>set (fraction fs). is_c_digit c"
  defines "numstr0 \<equiv> literal neg ds fs"
  shows "(numstr0 \<noteq> [] \<and> hd numstr0 = CHR ''-'') = neg" "(if neg then tl numstr0 else numstr0) = unsigned ds fs"
    "(if neg then map_option (\<lambda>d. d - 1) (find_char CHR ''.'' numstr0) else find_char CHR ''.'' numstr0) = point_of ds fs"
proof -
  show "(numstr0 \<noteq> [] \<and> hd numstr0 = CHR ''-'') = neg"
    using assms(1) c_digit_other by (cases ds) (auto simp: numstr0_def literal_def unsigned_def split: option.splits)
  show "(if neg then tl numstr0 else numstr0) = unsigned ds fs" by (simp add: numstr0_def literal_def)
  show "(if neg then map_option (\<lambda>d. d - 1) (find_char CHR ''.'' numstr0) else find_char CHR ''.'' numstr0) = point_of ds fs"
    using find_point [OF assms(1,2)] by (auto simp: numstr0_def literal_def option.map_comp o_def option.map_ident)
qed

lemma point_ok_unsigned:
  assumes "\<forall>c\<in>set ds. is_c_digit c" "\<forall>c\<in>set (fraction fs). is_c_digit c"
  shows "point_ok (unsigned ds fs) 0 (point_of ds fs)" "lit_digits (unsigned ds fs) = ds @ fraction fs"
proof -
  have "filter (\<lambda>c. c \<noteq> CHR ''.'') w = w" if "\<forall>c\<in>set w. is_c_digit c" for w
    using digits_no_point [OF that] by (intro filter_True) auto
  then show d: "lit_digits (unsigned ds fs) = ds @ fraction fs"
    using assms by (simp add: lit_digits_def unsigned_def fraction_def split: option.splits)
  show "point_ok (unsigned ds fs) 0 (point_of ds fs)"
    unfolding point_ok_def d using find_point [OF assms] assms digits_no_point [of ds] digits_no_point [of "fraction fs"]
    by (auto simp: point_of_def unsigned_def fraction_def split: option.splits)
qed

lemma with_point_unsigned:
  assumes "length ds + length (fraction fs) < 256" "length (fraction fs) < 128"
  shows "with_point (unsigned ds fs) (point_of ds fs) (n\<lparr>n_precision := length (unsigned ds fs) mod 256, n_scale := 0\<rparr>) =
    n\<lparr>n_precision := length ds + length (fraction fs), n_scale := int (length (fraction fs))\<rparr>"
proof (cases fs)
  case (Some f)
  have "dec8 (Suc m mod 256) = m" if "m < 256" for m
  proof (cases "m = 255")
    case False
    with that show ?thesis by (simp add: dec8_Suc)
  qed (simp add: dec8_def)
  from this [of "length ds + length f"] show ?thesis
    using Some assms by (simp add: with_point_def unsigned_def point_of_def fraction_def to_int8_def)
qed (use assms in \<open>simp add: with_point_def unsigned_def point_of_def fraction_def\<close>)

lemma replicate_full: "limbs_full (replicate 8 0)" "limbs_value (replicate k 0) = 0"
proof -
  show "limbs_value (replicate k 0) = 0" by (induction k) (simp_all add: limbs_value_def)
qed (simp add: limbs_full_def)


text \<open>What is read off a literal at a scale: the digits cut, those kept, and the number they make.\<close>

definition digits_cut :: "int \<Rightarrow> string option \<Rightarrow> nat" where
  "digits_cut scale fs = length (fraction fs) - nat scale"

definition digits_kept :: "int \<Rightarrow> string \<Rightarrow> string option \<Rightarrow> nat" where
  "digits_kept scale ds fs = length ds + length (fraction fs) - digits_cut scale fs"

definition number_at :: "int \<Rightarrow> string \<Rightarrow> string option \<Rightarrow> nat" where
  "number_at scale ds fs =
     digits_value (ds @ fraction fs) * 10 ^ (nat scale - length (fraction fs)) div 10 ^ digits_cut scale fs"

lemma number_at_zero:
  assumes "\<forall>c\<in>set ds. is_c_digit c" "\<forall>c\<in>set (fraction fs). is_c_digit c" "digits_kept scale ds fs = 0"
  shows "number_at scale ds fs = 0"
proof -
  have "length (ds @ fraction fs) = digits_cut scale fs" using assms(3) by (simp add: digits_kept_def digits_cut_def)
  then have "digits_value (ds @ fraction fs) < 10 ^ digits_cut scale fs"
    using digits_value_less [of "ds @ fraction fs"] assms(1,2) by auto
  then show ?thesis by (cases "digits_cut scale fs = 0") (simp_all add: number_at_def digits_cut_def)
qed

text \<open>The three ways to reach the requested scale.\<close>

lemma reach_scale:
  assumes "limbs_full b" "limbs_value b = digits_value (ds @ fraction fs)" "0 \<le> r"
    "digits_value (ds @ fraction fs) * 10 ^ (nat r - length (fraction fs)) < 2 ^ 128"
    "n_scale n = int (length (fraction fs))" "n_precision n = length ds + length (fraction fs)" "n_precision n < 256"
  shows "\<exists>b'. (if 0 < r \<and> n_scale n < r then (case scale_up r b n of (b, n) \<Rightarrow> (b, 0, n))
      else if r < n_scale n then scale_back r b 0 n else (b, 0, n)) =
      (b', if digits_value (ds @ fraction fs) mod 10 ^ digits_cut r fs \<noteq> 0 then 2 else 0,
       n\<lparr>n_precision := digits_kept r ds fs, n_scale := r\<rparr>) \<and>
    limbs_full b' \<and> limbs_value b' = number_at r ds fs"
proof -
  consider "n_scale n < r" | "r < n_scale n" | "r = n_scale n" by linarith
  then show ?thesis
  proof cases
    case 1
    then have k: "nat (r - n_scale n) = nat r - length (fraction fs)" "digits_cut r fs = 0"
      using assms(5) by (auto simp: digits_cut_def)
    then show ?thesis using scale_up_value [of b n r] assms 1 by (auto simp: digits_kept_def number_at_def)
  next
    case 2
    have ok: "limbs_ok b" "limbs_value b < 2 ^ 128" using assms(1) by (simp_all add: limbs_full_iff)
    have k: "nat (n_scale n - r) = digits_cut r fs" "nat r - length (fraction fs) = 0"
      using 2 assms(3,5) by (auto simp: digits_cut_def)
    have le: "digits_cut r fs \<le> n_precision n" using assms(6) by (simp add: digits_cut_def)
    obtain b' where b': "scale_back r b 0 n = (b', if limbs_value b mod 10 ^ digits_cut r fs \<noteq> 0 then 2 else 0,
        n\<lparr>n_precision := n_precision n - digits_cut r fs, n_scale := r\<rparr>)" "limbs_ok b'"
        "limbs_value b' = limbs_value b div 10 ^ digits_cut r fs"
      using scale_back_value [OF ok(1) assms(3) _ _ assms(7), of 0] 2 le unfolding k(1) by auto
    moreover have "limbs_value b div 10 ^ digits_cut r fs < 2 ^ 128" using ok(2) div_le_dividend le_less_trans by blast
    ultimately show ?thesis using 2 assms(2,6) k(2) by (auto simp: limbs_full_iff digits_kept_def number_at_def)
  next
    case 3
    then show ?thesis using assms by (auto simp: digits_kept_def number_at_def digits_cut_def)
  qed
qed

lemma from_str_literal:
  assumes "\<forall>c\<in>set ds. is_c_digit c" "\<forall>c\<in>set (fraction fs). is_c_digit c"
    "length ds + length (fraction fs) < 256" "length (fraction fs) < 128" "0 \<le> n_scale n"
    "digits_value (ds @ fraction fs) * 10 ^ (nat (n_scale n) - length (fraction fs)) < 2 ^ 128"
  obtains b where "limbs_full b" "limbs_value b = number_at (n_scale n) ds fs"
    "sqlnum_from_str (literal neg ds fs) n =
      (n\<lparr>n_precision := digits_kept (n_scale n) ds fs, n_sign := (if neg then 0 else 1), n_val := compress b\<rparr>,
       if n_precision n < digits_kept (n_scale n) ds fs - trailing_zeros (digits_kept (n_scale n) ds fs) (number_at (n_scale n) ds fs) then 1
       else if digits_value (ds @ fraction fs) mod 10 ^ digits_cut (n_scale n) fs \<noteq> 0 then 2 else 0)"
proof -
  let ?n = "n\<lparr>n_val := replicate 16 0, n_sign := (if neg then 0 else 1), n_precision := length ds + length (fraction fs),
    n_scale := int (length (fraction fs))\<rparr>"
  let ?D = "digits_value (ds @ fraction fs)"
  have "?D * 1 \<le> ?D * 10 ^ (nat (n_scale n) - length (fraction fs))" by (rule mult_le_mono2) simp
  then have "?D < 2 ^ 128" using assms(6) by linarith
  then obtain b where g: "from_groups (unsigned ds fs) 0 (point_of ds fs) (replicate 8 0) 0
      (n\<lparr>n_val := replicate 16 0, n_sign := (if neg then 0 else 1), n_precision := length (unsigned ds fs) mod 256, n_scale := 0\<rparr>) =
      (False, b, 0, ?n)" and b: "limbs_full b" "limbs_value b = ?D"
    using from_groups_value [OF point_ok_unsigned(1) [OF assms(1,2)] _ replicate_full(1),
        of "n\<lparr>n_val := replicate 16 0, n_sign := (if neg then 0 else 1), n_precision := length (unsigned ds fs) mod 256, n_scale := 0\<rparr>"]
      with_point_unsigned [OF assms(3,4), of "n\<lparr>n_val := replicate 16 0, n_sign := (if neg then 0 else 1)\<rparr>"]
    unfolding drop_0 point_ok_unsigned(2) [OF assms(1,2)] replicate_full(2) by auto
  obtain b' where s: "(if 0 < n_scale n \<and> n_scale ?n < n_scale n then (case scale_up (n_scale n) b ?n of (b, n) \<Rightarrow> (b, 0, n))
      else if n_scale n < n_scale ?n then scale_back (n_scale n) b 0 ?n else (b, 0, ?n)) =
      (b', if ?D mod 10 ^ digits_cut (n_scale n) fs \<noteq> 0 then 2 else 0,
       ?n\<lparr>n_precision := digits_kept (n_scale n) ds fs, n_scale := n_scale n\<rparr>)"
    and b': "limbs_full b'" "limbs_value b' = number_at (n_scale n) ds fs"
    using reach_scale [OF b assms(5,6), of ?n] assms(3) by auto
  have "digits_kept (n_scale n) ds fs < 256" using assms(3) by (simp add: digits_kept_def)
  then have p: "min_precision b' (digits_kept (n_scale n) ds fs) =
      digits_kept (n_scale n) ds fs - trailing_zeros (digits_kept (n_scale n) ds fs) (number_at (n_scale n) ds fs)"
    using min_precision_value [of b'] b' number_at_zero [OF assms(1,2)] by (simp add: limbs_full_iff)
  show ?thesis
  proof (rule that [OF b'])
    show "sqlnum_from_str (literal neg ds fs) n =
      (n\<lparr>n_precision := digits_kept (n_scale n) ds fs, n_sign := (if neg then 0 else 1), n_val := compress b'\<rparr>,
       if n_precision n < digits_kept (n_scale n) ds fs - trailing_zeros (digits_kept (n_scale n) ds fs) (number_at (n_scale n) ds fs) then 1
       else if digits_value (ds @ fraction fs) mod 10 ^ digits_cut (n_scale n) fs \<noteq> 0 then 2 else 0)"
      unfolding sqlnum_from_str_def Let_def unsigned_literal [OF assms(1,2)] g prod.case if_False s
      using assms(5) p by simp
  qed
qed


section \<open>From the structure to a literal\<close>

text \<open>
  \<open>skip_zeros\<close> is the loop that skips the empty prefix of the array. Nothing bounds it: on an array
  of zeros it reads on behind the array, into the words \<open>behind\<close> of the stack; \<open>None\<close> when they are
  all zero too.
\<close>

function skip_zeros :: "nat list \<Rightarrow> nat \<Rightarrow> nat option" where
  "skip_zeros mem i = (if i < length mem then (if mem ! i = 0 then skip_zeros mem (Suc i) else Some i) else None)"
  by pat_completeness auto
termination by (relation "measure (\<lambda>(mem, i). length mem - i)") auto

declare skip_zeros.simps [simp del]

text \<open>The loop over at most 39 digits, written from the last one to the first.\<close>

function to_digits :: "nat list \<Rightarrow> int \<Rightarrow> nat \<Rightarrow> nat \<Rightarrow> limbs \<Rightarrow> string \<Rightarrow> nat \<Rightarrow> (string \<times> nat) option" where
  "to_digits behind reqscale j max_space expanded str calcprec =
     (if j < 39
      then
        (case skip_zeros (expanded @ behind) max_space of
           None \<Rightarrow> None
         | Some max_space \<Rightarrow>
             if 7 \<le> max_space \<and> expanded ! 7 = 0 then Some (if str = [] then (''0'', 1) else (str, calcprec))
             else
               (let expanded = (if 7 \<le> max_space then expanded else sqlnum_unscale_be expanded max_space);
                    str = char_of (48 + expanded ! 7 mod 10) # str;
                    expanded = expanded[7 := expanded ! 7 div 10];
                    str = (if int j = reqscale - 1 then CHR ''.'' # str else str)
                in to_digits behind reqscale (Suc j) max_space expanded str (Suc calcprec)))
      else Some (str, calcprec))"
  by pat_completeness auto
termination by (relation "measure (\<lambda>(behind, r, j, _). 39 - j)") auto

declare to_digits.simps [simp del]

definition expand :: "nat list \<Rightarrow> limbs" where
  "expand val = map (\<lambda>i. 256 * val ! (2 * (7 - i) + 1) + val ! (2 * (7 - i))) [0 ..< 8]"

text \<open>
  Fractional truncation. The end of the text is found by \<^verbatim>\<open>strlen\<close> from the byte in front of it,
  which holds what the buffer held before (\<open>front\<close>): when that is a NUL the end is taken to be in
  front of the text, and the text stays as it is. The result is the text, the digits, the scale, and
  whether digits before the point would have to go.
\<close>

definition truncate_fraction :: "char \<Rightarrow> string \<Rightarrow> nat \<Rightarrow> nat \<Rightarrow> int \<Rightarrow> string \<times> nat \<times> int \<times> bool" where
  "truncate_fraction front str reqprec calcprec reqscale =
     (let k = min (calcprec - reqprec) (nat reqscale);
          str1 = (if front = CHR 0x00 then str else take (length str - k) str);
          calcprec1 = calcprec - k;
          reqscale1 = reqscale - int k
      in if reqprec < calcprec1 \<and> reqscale1 = 0 then (str1, calcprec1, reqscale1, True)
         else (if front \<noteq> CHR 0x00 \<and> str1 \<noteq> [] \<and> last str1 = CHR ''.'' then butlast str1 else str1,
               calcprec1, reqscale1, False))"

text \<open>
  \<open>old k\<close> is the character the buffer held \<open>k\<close> bytes from its end. The result has the structure, the
  text (\<open>None\<close>: the pointer is not set) and the truncation indicator. Nothing is returned where the
  code runs out of the objects it was given: behind an array of zeros, or at the scale \<open>-128\<close>, whose
  negation does not fit a \<^verbatim>\<open>SQLSCHAR\<close>, so that \<^verbatim>\<open>memset\<close> is given a negative length.
\<close>

definition sqlnum_to_str ::
  "nat list \<Rightarrow> (nat \<Rightarrow> char) \<Rightarrow> SQL_NUMERIC_STRUCT \<Rightarrow> nat \<Rightarrow> int \<Rightarrow> (SQL_NUMERIC_STRUCT \<times> string option \<times> nat) option" where
  "sqlnum_to_str behind old sqlnum reqprec reqscale0 =
     (case to_digits behind reqscale0 0 0 (expand (n_val sqlnum)) [] 0 of
        None \<Rightarrow> None
      | Some (str0, calcprec) \<Rightarrow>
          (let n = sqlnum\<lparr>n_scale := reqscale0\<rparr>;
               padded = int calcprec < reqscale0;
               str = (if padded then ''0.'' @ replicate (nat reqscale0 - calcprec) CHR ''0'' @ str0 else str0);
               reqscale = (if padded then int calcprec else reqscale0)
           in case (if reqprec < calcprec \<and> 0 < reqscale
                    then truncate_fraction (old (Suc (length str))) str reqprec calcprec reqscale
                    else (str, calcprec, reqscale, False)) of (str1, calcprec1, reqscale1, whole) \<Rightarrow>
             if whole then Some (n, None, 2)
             else if reqscale1 = - 128 then None
             else
               (let str2 = (if reqscale1 < 0 then str1 @ replicate (nat (- reqscale1)) CHR ''0'' else str1);
                    n = n\<lparr>n_precision := calcprec1\<rparr>
                in Some (n, Some (if n_sign n = 0 then CHR ''-'' # str2 else str2),
                         if reqprec < calcprec \<and> 0 < reqscale then 1 else 0))))"


section \<open>What is written can be read back\<close>

lemma skip_zeros_Some:
  "skip_zeros mem i = Some m \<Longrightarrow> i \<le> m \<and> m < length mem \<and> mem ! m \<noteq> 0 \<and> (\<forall>k. i \<le> k \<and> k < m \<longrightarrow> mem ! k = 0)"
proof (induction mem i rule: skip_zeros.induct)
  case (1 mem i)
  show ?case
  proof (cases "i < length mem \<and> mem ! i = 0")
    case True
    with 1 have "Suc i \<le> m \<and> m < length mem \<and> mem ! m \<noteq> 0 \<and> (\<forall>k. Suc i \<le> k \<and> k < m \<longrightarrow> mem ! k = 0)"
      by (simp add: skip_zeros.simps [of mem i])
    then show ?thesis using True by (metis Suc_leD Suc_leI le_neq_implies_less)
  next
    case False
    then have "m = i" "i < length mem" "mem ! i \<noteq> 0" using "1.prems" by (subst (asm) skip_zeros.simps, auto split: if_splits)+
    then show ?thesis by simp
  qed
qed

lemma skip_zeros_ex: "i \<le> k \<Longrightarrow> k < length mem \<Longrightarrow> mem ! k \<noteq> 0 \<Longrightarrow> \<exists>m. skip_zeros mem i = Some m \<and> m \<le> k"
proof (induction mem i rule: skip_zeros.induct)
  case (1 mem i)
  show ?case
  proof (cases "mem ! i = 0")
    case True
    then have "Suc i \<le> k" using 1(2,4) by (metis Suc_leI le_neq_implies_less)
    then show ?thesis using 1 True by (simp add: skip_zeros.simps [of mem i])
  qed (use 1 in \<open>simp add: skip_zeros.simps [of mem i]\<close>)
qed

lemma fold_unscale_nth: "\<forall>k\<in>set ks. i < k \<Longrightarrow> fold unscale_be_step ks ary ! i = ary ! i"
proof (induction ks arbitrary: ary)
  case (Cons k ks)
  then have "unscale_be_step k ary ! i = ary ! i" by (simp add: unscale_be_step_def Let_def)
  with Cons show ?case by simp
qed simp

lemma limbs_value_zero: "limbs_value ary = 0 \<longleftrightarrow> (\<forall>x\<in>set ary. x = 0)"
  by (induction ary) (auto simp: limbs_value_def)

text \<open>One digit of the array, whatever prefix of zeros is skipped.\<close>

lemma extract_digit:
  assumes "limbs_full (rev ary)" "\<forall>i < m. ary ! i = 0" "m \<le> 7"
  defines "ary1 \<equiv> if 7 \<le> m then ary else sqlnum_unscale_be ary m"
  shows "ary1 ! 7 mod 10 = limbs_value (rev ary) mod 10"
    and "limbs_full (rev (ary1[7 := ary1 ! 7 div 10]))" "limbs_value (rev (ary1[7 := ary1 ! 7 div 10])) = limbs_value (rev ary) div 10"
    and "\<forall>i < m. ary1[7 := ary1 ! 7 div 10] ! i = 0"
proof -
  have len: "length ary = 8" and small: "\<forall>x\<in>set ary. x < 2 ^ 16" using assms(1) by (simp_all add: limbs_full_def)
  have "ary ! i < 2 ^ 16" if "i \<le> 7" for i using small nth_mem [of i ary] that len by simp
  then have lim: "\<forall>i \<le> 7. ary ! i < 2 ^ 32" by (simp add: less_trans [of _ 65536 4294967296])
  have at: "ary1 = sqlnum_unscale_be ary m" using assms(3) by (simp add: ary1_def sqlnum_unscale_be_def)
  also have "\<dots> = rev (sqlnum_unscale_le (rev ary))"
    using unscale_be_skip [OF assms(2,3) lim] unscale_be_rev [of "rev ary"] len by simp
  finally have r: "rev ary1 = sqlnum_unscale_le (rev ary)" by simp
  have l1: "length (sqlnum_unscale_le (rev ary)) = 8" using len by (simp add: sqlnum_unscale_le_def)
  then have l: "length ary1 = 8" using r by (metis length_rev)
  have e: "ary1 ! 7 = sqlnum_unscale_le (rev ary) ! 0" unfolding r [symmetric] using l by (simp add: rev_nth)
  have u: "rev (ary1[7 := ary1 ! 7 div 10]) = snd (drop_digit (rev ary))"
    using l by (simp add: drop_digit_def Let_def rev_update e r)
  have d: "limbs_ok (snd (drop_digit (rev ary)))" "limbs_value (snd (drop_digit (rev ary))) = limbs_value (rev ary) div 10"
    "fst (drop_digit (rev ary)) = limbs_value (rev ary) mod 10"
    using drop_digit_value [of "rev ary"] assms(1) by (simp_all add: limbs_full_iff)
  show "ary1 ! 7 mod 10 = limbs_value (rev ary) mod 10" using d(3) by (simp add: drop_digit_def Let_def e)
  show "limbs_full (rev (ary1[7 := ary1 ! 7 div 10]))" "limbs_value (rev (ary1[7 := ary1 ! 7 div 10])) = limbs_value (rev ary) div 10"
    using d(1,2) assms(1) div_le_dividend le_less_trans unfolding u limbs_full_iff by (metis, metis)
  show "\<forall>i < m. ary1[7 := ary1 ! 7 div 10] ! i = 0"
    using assms(2,3) at by (auto simp: sqlnum_unscale_be_def fold_unscale_nth)
qed

text \<open>The digits of a number, none for zero, and a text with the point \<open>r\<close> digits from its end.\<close>

definition digits_of :: "nat \<Rightarrow> string" where
  "digits_of v = (if v = 0 then [] else string_of_nat v)"

lemma digits_of_step: "v \<noteq> 0 \<Longrightarrow> digits_of v = digits_of (v div 10) @ [char_of (48 + v mod 10)]"
  by (subst (1) digits_of_def, subst string_of_nat.simps) (auto simp: digits_of_def)

definition pointed :: "int \<Rightarrow> nat \<Rightarrow> string \<Rightarrow> string" where
  "pointed r j ds =
     (if int j < r \<and> r \<le> int (j + length ds)
      then take (length ds - (nat r - j)) ds @ CHR ''.'' # drop (length ds - (nat r - j)) ds else ds)"

lemma pointed_snoc:
  "pointed r j (ds @ [d]) = pointed r (Suc j) ds @ (if int j = r - 1 then [CHR ''.'', d] else [d])"
proof (cases "int j = r - 1")
  case True
  then have "nat r - j = 1" by simp
  with True show ?thesis by (simp add: pointed_def)
next
  case False
  show ?thesis
  proof (cases "int j < r \<and> r \<le> int (j + length (ds @ [d]))")
    case True
    then have "Suc (length ds) - (nat r - j) = length ds - (nat r - Suc j)" "length ds - (nat r - Suc j) \<le> length ds"
      using False by auto
    then show ?thesis using True False by (simp add: pointed_def)
  next
    case out: False
    then have "\<not> (int (Suc j) < r \<and> r \<le> int (Suc j + length ds))" using False by auto
    then show ?thesis using out False by (simp only: pointed_def if_False)
  qed
qed


lemma skip_all_zeros:
  assumes "limbs_value (rev ary) = 0" "length ary = 8" "m \<le> 7" "\<exists>x\<in>set behind. x \<noteq> 0"
  shows "ary ! 7 = 0 \<and> (\<exists>m'. skip_zeros (ary @ behind) m = Some m' \<and> 7 \<le> m')"
proof -
  have z: "ary ! i = 0" if "i < 8" for i using assms(1,2) that nth_mem [of i ary] by (simp add: limbs_value_zero)
  obtain k where "k < length behind" "behind ! k \<noteq> 0" using assms(4) by (metis in_set_conv_nth)
  then obtain m' where m': "skip_zeros (ary @ behind) m = Some m'"
    using skip_zeros_ex [of m "8 + k" "ary @ behind"] assms(2,3) by (auto simp: nth_append)
  then have "7 \<le> m'" using skip_zeros_Some [OF m'] z assms(2) by (cases "m' < 8") (auto simp: nth_append)
  with m' z show ?thesis by simp
qed

lemma to_digits_value:
  assumes "limbs_full (rev ary)" "\<forall>i < m. ary ! i = 0" "m \<le> 7" "limbs_value (rev ary) < 10 ^ (39 - j)" "j \<le> 39"
    "\<exists>x\<in>set behind. x \<noteq> 0" "limbs_value (rev ary) = 0 \<Longrightarrow> str \<noteq> []"
  shows "to_digits behind r j m ary str cp =
    Some (pointed r j (digits_of (limbs_value (rev ary))) @ str, cp + length (digits_of (limbs_value (rev ary))))"
  using assms
proof (induction "39 - j" arbitrary: j m ary str cp)
  case 0
  then show ?case by (subst to_digits.simps) (simp add: digits_of_def pointed_def)
next
  case (Suc k)
  let ?V = "limbs_value (rev ary)"
  have len: "length ary = 8" using Suc.prems(1) by (simp add: limbs_full_def)
  have j: "j < 39" "k = 39 - Suc j" using Suc.hyps(2) by auto
  show ?case
  proof (cases "?V = 0")
    case True
    then obtain m' where m': "skip_zeros (ary @ behind) m = Some m'" "7 \<le> m'" "ary ! 7 = 0"
      using skip_all_zeros [OF True len Suc.prems(3,6)] by auto
    then show ?thesis using True j Suc.prems(7) by (subst to_digits.simps) (simp add: digits_of_def pointed_def)
  next
    case False
    then obtain k where k: "k < 8" "ary ! k \<noteq> 0" using len by (auto simp: limbs_value_zero in_set_conv_nth)
    then have mk: "m \<le> k" using Suc.prems(2) by (meson not_le)
    then obtain m' where m': "skip_zeros (ary @ behind) m = Some m'" "m' \<le> k"
      using skip_zeros_ex [of m k "ary @ behind"] k len by (auto simp: nth_append)
    have sk: "m \<le> m'" "ary ! m' \<noteq> 0" "\<forall>i. m \<le> i \<and> i < m' \<longrightarrow> ary ! i = 0" "m' \<le> 7"
      using skip_zeros_Some [OF m'(1)] m'(2) k(1) len by (auto simp: nth_append)
    then have zeros: "\<forall>i < m'. ary ! i = 0" using Suc.prems(2) by (meson not_le)
    define ary1 where "ary1 = (if 7 \<le> m' then ary else sqlnum_unscale_be ary m')"
    define ary2 where "ary2 = ary1[7 := ary1 ! 7 div 10]"
    note x = extract_digit [OF Suc.prems(1) zeros sk(4), folded ary1_def, folded ary2_def]
    let ?str = "if int j = r - 1 then CHR ''.'' # char_of (48 + ?V mod 10) # str else char_of (48 + ?V mod 10) # str"
    have "\<not> (7 \<le> m' \<and> ary ! 7 = 0)" using sk(2,4) by (cases "m' = 7") auto
    then have turn: "to_digits behind r j m ary str cp = to_digits behind r (Suc j) m' ary2 ?str (Suc cp)"
      using j m'(1) x(1) by (subst to_digits.simps) (auto simp: Let_def ary1_def [symmetric] ary2_def [symmetric])
    have "?V div 10 < 10 ^ (39 - Suc j)"
      using Suc.prems(4) j Suc_diff_Suc [of j 39] by (simp add: div_less_iff_less_mult mult.commute flip: power_Suc)
    then have "to_digits behind r (Suc j) m' ary2 ?str (Suc cp) =
        Some (pointed r (Suc j) (digits_of (?V div 10)) @ ?str, Suc cp + length (digits_of (?V div 10)))"
      using Suc.hyps(1) [OF j(2) x(2,4) sk(4)] x(3) j(1) Suc.prems(6) by simp
    then show ?thesis unfolding turn using digits_of_step [OF False] pointed_snoc [of r j] by simp
  qed
qed

lemma expand_value:
  assumes "length val = 16" "\<forall>b\<in>set val. b < 256"
  shows "limbs_full (rev (expand val))" "limbs_value (rev (expand val)) = bytes_value val"
proof -
  obtain a b c d e f g h i j k l m n p q where v: "val = [a, b, c, d, e, f, g, h, i, j, k, l, m, n, p, q]"
    using assms(1) by (auto simp: numeral_eq_Suc length_Suc_conv)
  have r: "rev (expand val) = [256 * b + a, 256 * d + c, 256 * f + e, 256 * h + g, 256 * j + i, 256 * l + k, 256 * n + m, 256 * q + p]"
    by (simp add: expand_def v upt_rec)
  show "limbs_full (rev (expand val))" using assms(2) unfolding r by (simp add: v limbs_full_def)
  show "limbs_value (rev (expand val)) = bytes_value val" unfolding r by (simp add: v limbs_value_def bytes_value_def)
qed

lemma bytes_value_inject:
  "length u = length v \<Longrightarrow> \<forall>b\<in>set u. b < 256 \<Longrightarrow> \<forall>b\<in>set v. b < 256 \<Longrightarrow> bytes_value u = bytes_value v \<Longrightarrow> u = v"
proof (induction u v rule: list_induct2)
  case (Cons x xs y ys)
  then have eq: "x + 256 * bytes_value xs = y + 256 * bytes_value ys" "x < 256" "y < 256" by (simp_all add: bytes_value_def)
  then have "x = y" by (metis mod_less mod_mult_self2)
  with eq Cons show ?case by simp
qed simp


text \<open>The text of a number at a scale of at least 0, when its digits are within the requested precision.\<close>

definition whole_part :: "nat \<Rightarrow> nat \<Rightarrow> string" where
  "whole_part r v = (let ds = string_of_nat v in if length ds < r \<or> v = 0 then ''0'' else take (length ds - r) ds)"

definition fraction_part :: "nat \<Rightarrow> nat \<Rightarrow> string option" where
  "fraction_part r v =
     (let ds = string_of_nat v
      in if length ds < r then Some (replicate (r - length ds) CHR ''0'' @ ds)
         else if r = 0 \<or> v = 0 then None else Some (drop (length ds - r) ds))"

lemma digits_value_zeros: "digits_value (replicate k CHR ''0'') = 0"
  by (induction k) (simp_all add: digits_value_def)

lemma string_of_nat_digit: "c \<in> set (string_of_nat v) \<Longrightarrow> is_c_digit c"
  using digits_of_string_of_nat [of c v] by (simp add: is_c_digit_def)

lemma parts_digits:
  "\<forall>c\<in>set (whole_part r v). is_c_digit c" "\<forall>c\<in>set (fraction (fraction_part r v)). is_c_digit c"
  using string_of_nat_digit [of _ v]
  by (auto simp: whole_part_def fraction_part_def fraction_def Let_def is_c_digit_def dest!: in_set_takeD in_set_dropD)

lemma parts_value: "digits_value (whole_part r v @ fraction (fraction_part r v)) = v"
proof (cases "length (string_of_nat v) < r")
  case True
  have "digits_value (replicate k CHR ''0'' @ string_of_nat v) = v" for k
    by (simp add: digits_value_append digits_value_zeros digits_value_string_of_nat)
  from this [of "Suc (r - length (string_of_nat v))"] True show ?thesis
    by (simp add: whole_part_def fraction_part_def fraction_def Let_def)
next
  case False
  then have "whole_part r v @ fraction (fraction_part r v) = string_of_nat v"
    by (auto simp: whole_part_def fraction_part_def fraction_def Let_def)
  then show ?thesis by (simp add: digits_value_string_of_nat)
qed

lemma parts_length:
  "length (fraction (fraction_part r v)) = (if v = 0 \<and> r \<le> 1 then 0 else r)"
  "length (string_of_nat v) \<le> q \<Longrightarrow> r < q \<Longrightarrow> length (whole_part r v) + length (fraction (fraction_part r v)) \<le> q"
  by (auto simp: whole_part_def fraction_part_def fraction_def Let_def split: if_splits)

lemma to_str_literal:
  assumes "length (n_val n) = 16" "\<forall>b\<in>set (n_val n). b < 256" "\<exists>x\<in>set behind. x \<noteq> 0" "0 \<le> r"
    "length (string_of_nat (bytes_value (n_val n))) \<le> p"
  shows "sqlnum_to_str behind old n p r =
    Some (n\<lparr>n_scale := r, n_precision := length (string_of_nat (bytes_value (n_val n)))\<rparr>,
      Some (literal (n_sign n = 0) (whole_part (nat r) (bytes_value (n_val n))) (fraction_part (nat r) (bytes_value (n_val n)))), 0)"
proof -
  let ?v = "bytes_value (n_val n)" let ?ds = "string_of_nat (bytes_value (n_val n))"
  note e = expand_value [OF assms(1,2)]
  have "?v < 10 ^ 39" using e by (simp add: limbs_full_iff)
  then have d: "to_digits behind r 0 0 (expand (n_val n)) [] 0 = Some (if ?v = 0 then ''0'' else pointed r 0 ?ds, length ?ds)"
  proof (cases "?v = 0")
    case True
    have "length (expand (n_val n)) = 8" by (simp add: expand_def)
    then show ?thesis using True skip_all_zeros [of "expand (n_val n)" 0 behind] e(2) assms(3) by (subst to_digits.simps) auto
  next
    case False
    then show ?thesis using to_digits_value [OF e(1), of 0 0 behind "[]" r 0] e(2) assms(3) \<open>?v < 10 ^ 39\<close>
      by (simp add: digits_of_def)
  qed
  have "n\<lparr>n_scale := r, n_precision := q\<rparr> = n\<lparr>n_precision := q, n_scale := r\<rparr>" for q by simp
  then show ?thesis using d assms(4,5)
    by (auto simp: sqlnum_to_str_def Let_def literal_def unsigned_def whole_part_def fraction_part_def pointed_def split: if_splits)
qed

text \<open>
  Nothing checks the 128 bits while the number is brought up to the requested scale: a number of up
  to 38 digits read with one digit behind the point is multiplied by ten modulo \<open>2 ^ 128\<close>, and no
  overflow is reported.
\<close>

lemma compress_mod:
  assumes "limbs_ok b"
  shows "bytes_value (compress b) = limbs_value b mod 2 ^ 128"
proof -
  have step: "bytes_value (compress (x # b)) = x mod 65536 + 65536 * bytes_value (compress b)" for x b
    using mod_mult2_eq [of x 256 256] by (simp add: compress_def bytes_value_def)
  obtain xs h where b: "b = xs @ [h]" "length xs = 7" "\<forall>x\<in>set xs. x < 65536"
    using assms by (cases b rule: rev_cases) (auto simp: limbs_ok_def)
  have "bytes_value (compress (xs @ [h])) = limbs_value xs + 65536 ^ length xs * (h mod 65536) \<and>
      limbs_value (xs @ [h]) = limbs_value xs + 65536 ^ length xs * h \<and> limbs_value xs < 65536 ^ length xs"
    using b(3)
  proof (induction xs)
    case Nil
    then show ?case using step [of h "[]"] by (simp add: limbs_value_def compress_def bytes_value_def)
  next
    case (Cons x xs)
    then show ?case by (auto simp: step limbs_value_Cons algebra_simps)
  qed
  moreover have "(u + 65536 ^ 7 * h) mod 2 ^ 128 = u + 65536 ^ 7 * (h mod 65536)" if "u < 65536 ^ 7" for u :: nat
    using mod_mult2_eq [of "u + 65536 ^ 7 * h" "65536 ^ 7" 65536] that by simp
  ultimately show ?thesis using b(1,2) by simp
qed

lemma scale_up_wraps:
  assumes "\<forall>c\<in>set ds. is_c_digit c" "0 < length ds" "length ds \<le> 38" "n_scale n = 1" "length ds \<le> n_precision n"
  shows "\<exists>bytes. sqlnum_from_str ds n = (n\<lparr>n_precision := length ds, n_sign := 1, n_val := bytes\<rparr>, 0) \<and>
    bytes_value bytes = digits_value ds * 10 mod 2 ^ 128"
proof -
  let ?n = "n\<lparr>n_val := replicate 16 0, n_sign := 1, n_precision := length ds, n_scale := 0\<rparr>"
  have none: "fraction None = []" "literal False ds None = ds" "unsigned ds None = ds" "point_of ds None = None"
    by (simp_all add: fraction_def literal_def unsigned_def point_of_def)
  have nil: "\<forall>c\<in>set (fraction None). is_c_digit c" by (simp add: none)
  have "digits_value ds < 10 ^ 38" using digits_value_less [OF assms(1)] power_increasing [OF assms(3), of "10 :: nat"] by simp
  then obtain b where g: "from_groups ds 0 None (replicate 8 0) 0 ?n = (False, b, 0, ?n)" and b: "limbs_full b" "limbs_value b = digits_value ds"
    using from_groups_value [OF point_ok_unsigned(1) [OF assms(1) nil] _ replicate_full(1), of ?n] assms(3)
      point_ok_unsigned(2) [OF assms(1) nil]
    unfolding drop_0 replicate_full(2) none with_point_def by auto
  let ?b = "sqlnum_carry (sqlnum_scale b 1)"
  have b': "limbs_ok ?b" "limbs_value ?b = digits_value ds * 10" using scale_carry_value [OF b(1)] b(2) by auto
  have u: "scale_up 1 b ?n = (?b, ?n\<lparr>n_scale := 1\<rparr>)" by (subst scale_up.simps, subst scale_up.simps) simp
  have "min_precision ?b (length ds) \<le> n_precision n"
    using min_precision_value [OF b'(1), of "length ds"] assms(2,3,5) by simp
  then have "sqlnum_from_str ds n = (?n\<lparr>n_scale := 1, n_val := compress ?b\<rparr>, 0)"
    unfolding sqlnum_from_str_def Let_def unsigned_literal [OF assms(1) nil, of False, unfolded none]
    using g u assms(3,4) by simp
  then show ?thesis using compress_mod [OF b'(1)] b'(2) assms(4) by (intro exI [of _ "compress ?b"]) simp
qed

text \<open>
  C14. A number read as \<^verbatim>\<open>SQL_C_NUMERIC\<close> is the number of the literal at the requested scale. For
  every literal of at most 255 digits whose digits, brought up to the requested scale, make a number
  below \<open>2 ^ 128\<close>, the sixteen bytes hold that number, cut (not rounded) behind the requested scale;
  sign and scale are set, the precision is the number of digits kept, and the indicator is 1 exactly
  when more digits than the requested precision are left without the zeros at the end, and otherwise
  2 exactly when a digit that was cut is not zero.
\<close>

theorem sqlnum_from_str_value:
  assumes "\<forall>c\<in>set ds. is_c_digit c" "\<forall>c\<in>set (fraction fs). is_c_digit c"
    and "length ds + length (fraction fs) < 256" "length (fraction fs) < 128" "0 \<le> n_scale n"
    and "digits_value (ds @ fraction fs) * 10 ^ (nat (n_scale n) - length (fraction fs)) < 2 ^ 128"
  defines "lost \<equiv> length (fraction fs) - nat (n_scale n)"
  defines "kept \<equiv> length ds + length (fraction fs) - lost"
    and "v \<equiv> digits_value (ds @ fraction fs) * 10 ^ (nat (n_scale n) - length (fraction fs)) div 10 ^ lost"
  shows "\<exists>bytes. sqlnum_from_str (literal neg ds fs) n =
      (n\<lparr>n_precision := kept, n_sign := (if neg then 0 else 1), n_val := bytes\<rparr>,
       if n_precision n < kept - trailing_zeros kept v then 1
       else if digits_value (ds @ fraction fs) mod 10 ^ lost \<noteq> 0 then 2 else 0) \<and>
    length bytes = 16 \<and> (\<forall>b\<in>set bytes. b < 256) \<and> bytes_value bytes = v"
proof -
  obtain b where b: "limbs_full b" "limbs_value b = v" and r: "sqlnum_from_str (literal neg ds fs) n =
      (n\<lparr>n_precision := kept, n_sign := (if neg then 0 else 1), n_val := compress b\<rparr>,
       if n_precision n < kept - trailing_zeros kept v then 1
       else if digits_value (ds @ fraction fs) mod 10 ^ lost \<noteq> 0 then 2 else 0)"
    using from_str_literal [OF assms(1-6), of neg]
    unfolding digits_cut_def number_at_def digits_kept_def lost_def [symmetric] kept_def [symmetric] v_def [symmetric] by blast
  have "bytes_value (compress b) = v" "length (compress b) = 16"
    using b compress_value [of b] compress_bytes(1) [of b] by (simp_all add: limbs_full_def)
  with r compress_bytes(2) [of b] show ?thesis by (intro exI [of _ "compress b"]) simp
qed

theorem sqlnum_from_str_value_witness:
  "\<exists>bytes. sqlnum_from_str ''-25.212'' \<lparr>n_precision = 4, n_scale = 2, n_sign = 1, n_val = []\<rparr> =
     (\<lparr>n_precision = 4, n_scale = 2, n_sign = 0, n_val = bytes\<rparr>, 2) \<and> length bytes = 16 \<and> bytes_value bytes = 2521"
proof -
  let ?n = "\<lparr>n_precision = 4, n_scale = 2, n_sign = 1, n_val = []\<rparr>"
  have tz: "trailing_zeros 4 2521 = 0" using trailing_zeros.simps(2) [of 3 2521] by simp
  have f: "fraction (Some ''212'') = ''212''" "literal True ''25'' (Some ''212'') = ''-25.212''" "''25'' @ ''212'' = ''25212''"
    by (simp_all add: fraction_def literal_def unsigned_def)
  have v: "digits_value ''25212'' = 25212" by (simp add: digits_value_def)
  have "\<forall>c\<in>set ''25''. is_c_digit c" "\<forall>c\<in>set ''212''. is_c_digit c" by (simp_all add: is_c_digit_def)
  from sqlnum_from_str_value [of "''25''" "Some ''212''" ?n True, unfolded f, OF this, unfolded v]
  obtain bytes where "sqlnum_from_str ''-25.212'' ?n = (?n\<lparr>n_precision := 4, n_sign := 0, n_val := bytes\<rparr>, 2)"
    "length bytes = 16" "bytes_value bytes = 2521"
    by (auto simp: tz)
  then show ?thesis by simp
qed





section \<open>Any text\<close>

text \<open>
  Columns of other types are read as \<^verbatim>\<open>SQL_C_NUMERIC\<close> too, so that the text need not be a number.
  Whatever it is, the structure keeps the ranges of its C types.
\<close>

definition numeric_ok :: "SQL_NUMERIC_STRUCT \<Rightarrow> bool" where
  "numeric_ok n \<longleftrightarrow> n_precision n < 256 \<and> - 128 \<le> n_scale n \<and> n_scale n < 128 \<and> n_sign n \<le> 1 \<and>
     length (n_val n) = 16 \<and> (\<forall>b\<in>set (n_val n). b < 256)"

lemma length_scale [simp]: "length (sqlnum_scale ary s) = length ary"
  by (induction s arbitrary: ary) simp_all

lemma length_fold_carry: "length (fold carry_step ks ary) = length ary"
  by (induction ks arbitrary: ary) (simp_all add: carry_step_def Let_def)

lemma length_fold_unscale: "length (fold unscale_le_step ks ary) = length ary"
  by (induction ks arbitrary: ary) simp_all

lemma length_limbs [simp]:
  "length (sqlnum_carry ary) = length ary" "length (snd (drop_digit ary)) = length ary" "length (add_group g ary) = length ary"
  by (simp_all add: sqlnum_carry_def drop_digit_def add_group_def sqlnum_unscale_le_def length_fold_carry length_fold_unscale Let_def
    del: fold_simps)

lemma dec8_range [simp]: "dec8 p < 256"
  by (simp add: dec8_def)

lemma to_int8_range: "- 128 \<le> to_int8 i" "to_int8 i < 128"
proof -
  have "0 \<le> (i + 128) mod 256" "(i + 128) mod 256 < 256" by simp_all
  then show "- 128 \<le> to_int8 i" "to_int8 i < 128" by (simp_all add: to_int8_def)
qed

lemma from_groups_ok:
  "length b = 8 \<Longrightarrow> numeric_ok n \<Longrightarrow> ov \<le> 2 \<Longrightarrow> from_groups s i d b ov n = (e, b', ov', n') \<Longrightarrow>
     length b' = 8 \<and> numeric_ok n' \<and> ov' \<le> 2"
proof (induction s i d b ov n arbitrary: e b' ov' n' rule: from_groups.induct)
  case (1 s i d b ov n)
  show ?case
  proof (cases "i < length s \<and> ov = 0")
    case True
    define used where "used = (if i + 4 < length s then 4 else length s - i)"
    define hit where "hit = (case d of Some d \<Rightarrow> i \<le> d \<and> d < i + used | None \<Rightarrow> False)"
    define used1 where "used1 = (if hit then the d - i + 1 else used)"
    define n1 where "n1 = (if hit then n\<lparr>n_scale := to_int8 (int (length s) - int (i + used1)), n_precision := dec8 (n_precision n)\<rparr> else n)"
    note defs = used_def hit_def used1_def n1_def
    have "numeric_ok n1" using "1.prems"(2) to_int8_range by (simp add: n1_def numeric_ok_def)
    moreover have "from_groups s i d b ov n = from_groups s (i + used1) (if hit then None else d) (add_group (take used1 (drop i s)) b)
        (if 2 ^ 16 \<le> add_group (take used1 (drop i s)) b ! 7 then 1 else 0) n1"
      using True by (subst from_groups.simps) (simp only: Let_def defs if_True simp_thms if_False)
    ultimately show ?thesis
      using "1.IH" [OF _ used_def hit_def used1_def n1_def refl _ refl] True "1.prems" by simp
  next
    case False
    then show ?thesis using "1.prems" to_int8_range
      by (subst (asm) from_groups.simps) (auto simp: Let_def numeric_ok_def split: if_splits)
  qed
qed

lemma scale_up_ok:
  "length b = 8 \<Longrightarrow> numeric_ok n \<Longrightarrow> r < 128 \<Longrightarrow> scale_up r b n = (b', n') \<Longrightarrow> length b' = 8 \<and> numeric_ok n'"
proof (induction r b n arbitrary: b' n' rule: scale_up.induct)
  case (1 r b n)
  show ?case
  proof (cases "n_scale n < r")
    case True
    let ?n = "n\<lparr>n_scale := n_scale n + 1\<rparr>"
    have "numeric_ok ?n" using "1.prems"(2,3) True by (auto simp: numeric_ok_def)
    moreover have "scale_up r (sqlnum_carry (sqlnum_scale b 1)) ?n = (b', n')" using "1.prems"(4) True by (simp add: scale_up.simps [of r b n])
    ultimately show ?thesis using "1.IH" [OF True] "1.prems"(1,3) by simp
  qed (use "1.prems" in \<open>simp add: scale_up.simps [of r b n]\<close>)
qed

lemma scale_back_ok:
  "length b = 8 \<Longrightarrow> numeric_ok n \<Longrightarrow> ov \<le> 2 \<Longrightarrow> scale_back r b ov n = (b', ov', n') \<Longrightarrow> length b' = 8 \<and> numeric_ok n' \<and> ov' \<le> 2"
proof (induction r b ov n arbitrary: b' ov' n' rule: scale_back.induct)
  case (1 r b ov n)
  obtain digit b1 where dd: "(digit, b1) = drop_digit b" by (metis surj_pair)
  then have l: "length b1 = 8" using length_limbs(2) [of b] "1.prems"(1) by (metis snd_conv)
  show ?case
  proof (cases "r < n_scale n \<and> 0 < n_scale n")
    case True
    let ?n = "n\<lparr>n_precision := dec8 (n_precision n), n_scale := n_scale n - 1\<rparr>"
    have "numeric_ok ?n" using "1.prems"(2) True by (auto simp: numeric_ok_def)
    moreover have "scale_back r b1 (if digit \<noteq> 0 then 2 else ov) ?n = (b', ov', n')"
      using "1.prems"(4) True by (simp add: scale_back.simps [of r b ov n] dd [symmetric])
    ultimately show ?thesis using "1.IH" [OF True dd] l "1.prems"(3) by simp
  qed (use "1.prems" in \<open>auto simp: scale_back.simps [of r b ov n]\<close>)
qed

lemma scale_whole_ok:
  "length b = 8 \<Longrightarrow> numeric_ok n \<Longrightarrow> ov \<le> 2 \<Longrightarrow> - 128 \<le> r \<Longrightarrow> scale_whole r b ov n = (e, b', ov', n') \<Longrightarrow>
     length b' = 8 \<and> numeric_ok n' \<and> ov' \<le> 2"
proof (induction r b ov n arbitrary: e b' ov' n' rule: scale_whole.induct)
  case (1 r b ov n)
  obtain digit b1 where dd: "(digit, b1) = drop_digit b" by (metis surj_pair)
  then have l: "length b1 = 8" using length_limbs(2) [of b] "1.prems"(1) by (metis snd_conv)
  show ?case
  proof (cases "r < n_scale n \<and> digit = 0")
    case True
    let ?n = "n\<lparr>n_precision := dec8 (n_precision n), n_scale := n_scale n - 1\<rparr>"
    have "numeric_ok ?n" using "1.prems"(2,4) True by (auto simp: numeric_ok_def)
    moreover have "scale_whole r b1 ov ?n = (e, b', ov', n')"
      using "1.prems"(5) True by (simp add: scale_whole.simps [of r b ov n] dd [symmetric])
    ultimately show ?thesis using "1.IH" [OF _ dd] True l "1.prems"(3,4) by simp
  qed (use "1.prems" in \<open>auto simp: scale_whole.simps [of r b ov n] dd [symmetric] split: if_splits\<close>)
qed




section \<open>The callers\<close>

text \<open>
  The case \<^verbatim>\<open>SQL_C_NUMERIC\<close> of \<^verbatim>\<open>sql_get_data\<close>: a column converted from its text, or a bit field
  whose number is printed first. \<open>rgbValue\<close> is the caller's structure, \<open>None\<close> for a null pointer; the
  result has the structure, what is stored through \<^verbatim>\<open>pcbValue\<close>, and the SQLSTATE set, with \<open>Inl\<close>
  for an error and \<open>Inr\<close> for a warning or none.
\<close>

definition get_data_numeric ::
  "bool \<Rightarrow> string \<Rightarrow> int \<Rightarrow> nat \<Rightarrow> SQL_NUMERIC_STRUCT option \<Rightarrow>
    SQL_NUMERIC_STRUCT option \<times> nat option \<times> (string + string option)" where
  "get_data_numeric convert as_string numeric_value u_numeric_value rgbValue =
     (case (case rgbValue of
              None \<Rightarrow> (None, None, 0)
            | Some sqlnum \<Rightarrow>
                (let text = (if convert then as_string
                             else if numeric_value \<noteq> 0 then to_string numeric_value else to_string (int u_numeric_value))
                 in case sqlnum_from_str text sqlnum of (n, overflow) \<Rightarrow> (Some n, Some (if convert then 19 else 8), overflow))) of
        (n, pcb, overflow) \<Rightarrow>
          (n, pcb, if overflow = 1 then Inl ''22003'' else if overflow = 2 then Inr (Some ''01S07'') else Inr None))"

text \<open>
  The case \<^verbatim>\<open>SQL_C_NUMERIC\<close> of \<^verbatim>\<open>convert_c_type2str\<close>: the text of a parameter and the SQLSTATE set.
  An error has none: the pointer was not set, and the statement is not given a diagnostic. The
  precision and the scale of the descriptor record are converted to the types of the arguments.
\<close>

definition param_numeric ::
  "nat list \<Rightarrow> (nat \<Rightarrow> char) \<Rightarrow> SQL_NUMERIC_STRUCT \<Rightarrow> int \<Rightarrow> int \<Rightarrow> (unit + string option \<times> string option) option" where
  "param_numeric behind old sqlnum precision scale =
     (case sqlnum_to_str behind old sqlnum (nat (precision mod 256)) (to_int8 scale) of
        None \<Rightarrow> None
      | Some (n, text, trunc) \<Rightarrow>
          Some (if trunc = 1 then Inr (text, Some ''01S07'') else if trunc = 2 then Inl () else Inr (text, None)))"

text \<open>
  An integer of at most 64 bits read from a bit field comes back in the sixteen bytes, whatever
  precision of at least 20 the descriptor asks for.
\<close>

lemma to_string_literal: "to_string i = literal (i < 0) (string_of_nat (nat \<bar>i\<bar>)) None"
  by (simp add: to_string_def literal_def unsigned_def)

lemma bit_field_numeric:
  assumes "u < 2 ^ 64" "n_scale n = 0" "20 \<le> n_precision n"
  shows "\<exists>bytes q. get_data_numeric False s 0 u (Some n) =
    (Some (n\<lparr>n_precision := q, n_sign := 1, n_val := bytes\<rparr>), Some 8, Inr None) \<and> bytes_value bytes = u"
proof -
  let ?ds = "string_of_nat u"
  have "u < 10 ^ 20" using assms(1) by simp
  then have len: "length ?ds \<le> 20" by (simp add: length_digits)
  have none: "fraction None = []" by (simp add: fraction_def)
  have "\<forall>c\<in>set ?ds. is_c_digit c" "\<forall>c\<in>set (fraction None). is_c_digit c" "length ?ds + length (fraction None) < 256"
    "length (fraction None) < 128" "0 \<le> n_scale n" "digits_value (?ds @ fraction None) * 10 ^ (nat (n_scale n) - length (fraction None)) < 2 ^ 128"
    using string_of_nat_digit len assms(1,2) by (auto simp: none digits_value_string_of_nat)
  then obtain b where b: "limbs_full b" "limbs_value b = number_at (n_scale n) ?ds None"
    and r: "sqlnum_from_str (literal False ?ds None) n =
      (n\<lparr>n_precision := digits_kept (n_scale n) ?ds None, n_sign := (if False then 0 else 1), n_val := compress b\<rparr>,
       if n_precision n < digits_kept (n_scale n) ?ds None - trailing_zeros (digits_kept (n_scale n) ?ds None) (number_at (n_scale n) ?ds None) then 1
       else if digits_value (?ds @ fraction None) mod 10 ^ digits_cut (n_scale n) None \<noteq> 0 then 2 else 0)"
    by (rule from_str_literal)
  have k: "digits_kept (n_scale n) ?ds None = length ?ds" "number_at (n_scale n) ?ds None = u" "digits_cut (n_scale n) None = 0"
    using assms(2) by (simp_all add: digits_kept_def digits_cut_def number_at_def none digits_value_string_of_nat)
  have "\<not> n_precision n < length ?ds - k" for k using len assms(3) by simp
  then have "sqlnum_from_str (to_string (int u)) n = (n\<lparr>n_precision := length ?ds, n_sign := 1, n_val := compress b\<rparr>, 0)"
    using r unfolding k to_string_literal by (simp del: diff_is_0_eq')
  moreover have "bytes_value (compress b) = u" using compress_value b k(2) by (simp add: limbs_full_def)
  ultimately show ?thesis by (auto simp: get_data_numeric_def Let_def)
qed

text \<open>
  The text of a parameter is written into 128 bytes, backwards from the last one. Nothing bounds it:
  a number of fewer digits than its scale takes two characters more than the scale.
\<close>

lemma param_text_length:
  assumes "length (n_val n) = 16" "\<forall>b\<in>set (n_val n). b < 256" "\<exists>x\<in>set behind. x \<noteq> 0"
    "length (string_of_nat (bytes_value (n_val n))) \<le> p" "length (string_of_nat (bytes_value (n_val n))) < nat r"
  shows "\<exists>n1 text. sqlnum_to_str behind old n p r = Some (n1, Some text, 0) \<and> nat r + 2 \<le> length text"
proof -
  have "0 \<le> r" using assms(5) by simp
  from to_str_literal [OF assms(1-3) this assms(4), of old] show ?thesis
    using assms(5) by (auto simp: literal_def unsigned_def whole_part_def fraction_part_def Let_def)
qed

end
