(* ===== verification/Auth_Proxy.thy ===== *)
theory Auth_Proxy
  imports Data_Source Rds_Utils
begin

text \<open>
  Logging in with credentials of AWS: the tokens of \<^verbatim>\<open>driver/auth_util.cc\<close> and the three proxies
  that log in with one (\<^verbatim>\<open>driver/iam_proxy.cc\<close>, \<^verbatim>\<open>driver/okta_proxy.cc\<close>,
  \<^verbatim>\<open>driver/adfs_proxy.cc\<close>). How the federated proxies get an assertion is in theory
  \<^verbatim>\<open>Saml_Client\<close>, the login with a secret in theory \<^verbatim>\<open>Secrets_Proxy\<close>.

  The AWS SDK is a parameter: \<open>gen k\<close> is the token generated
  by the \<open>k\<close>-th request, \<open>func k\<close> the answer of the next proxy to the \<open>k\<close>-th attempt to log in. A
  state counts the requests and the readings of the clock and records the credentials of all
  attempts. The mutex of a cache is held from the lookup to the insertion, so that both are one step.
\<close>

section \<open>Tokens\<close>

record TOKEN_INFO =
  tk_token :: string
  tk_expiration :: int

record auth_state =
  tokens :: "string \<rightharpoonup> TOKEN_INFO"
  au_reads :: nat
  au_gens :: nat
  au_tries :: "string list"
  au_error :: "string option"

type_synonym token_gen = "nat \<Rightarrow> string \<Rightarrow> string \<Rightarrow> nat \<Rightarrow> string \<Rightarrow> string"

definition token_expired :: "clock \<Rightarrow> nat \<Rightarrow> TOKEN_INFO \<Rightarrow> bool" where
  "token_expired clk r info \<longleftrightarrow> tk_expiration info < clk r"

definition build_cache_key :: "string \<Rightarrow> string \<Rightarrow> nat \<Rightarrow> string \<Rightarrow> string" where
  "build_cache_key host region port user = region @ '':'' @ host @ '':'' @ string_of_nat port @ '':'' @ user"

text \<open>A new token, stored with the time at which it expires.\<close>

definition new_token :: "clock \<Rightarrow> token_gen \<Rightarrow> string \<Rightarrow> string \<Rightarrow> nat \<Rightarrow> string \<Rightarrow> nat \<Rightarrow> auth_state \<Rightarrow> string \<times> auth_state" where
  "new_token clk gen host region port user time_until_expiration s =
     (let token = gen (au_gens s) host region port user;
          info = \<lparr>tk_token = token, tk_expiration = clk (au_reads s) + int time_until_expiration * 10 ^ 9\<rparr>
      in (token, s\<lparr>tokens := (tokens s)(build_cache_key host region port user \<mapsto> info),
                   au_reads := Suc (au_reads s), au_gens := Suc (au_gens s)\<rparr>))"

definition get_auth_token ::
  "clock \<Rightarrow> token_gen \<Rightarrow> string option \<Rightarrow> string option \<Rightarrow> nat \<Rightarrow> string option \<Rightarrow> nat \<Rightarrow> bool \<Rightarrow> auth_state \<Rightarrow>
    (string \<times> bool) \<times> auth_state" where
  "get_auth_token clk gen host0 region0 port user0 time_until_expiration force_generate_new_token s =
     (let host = (case host0 of None \<Rightarrow> [] | Some h \<Rightarrow> h);
          region = (case region0 of None \<Rightarrow> [] | Some r \<Rightarrow> r);
          user = (case user0 of None \<Rightarrow> [] | Some u \<Rightarrow> u);
          cache_key = build_cache_key host region port user;
          erased = s\<lparr>tokens := (tokens s)(cache_key := None)\<rparr>;
          generate = (\<lambda>s. case new_token clk gen host region port user time_until_expiration s of (t, s') \<Rightarrow> ((t, False), s'))
      in if force_generate_new_token then generate erased
         else (case tokens s cache_key of
                 None \<Rightarrow> generate s
               | Some info \<Rightarrow>
                   if token_expired clk (au_reads s) info then generate (erased\<lparr>au_reads := Suc (au_reads s)\<rparr>)
                   else ((tk_token info, True), s\<lparr>au_reads := Suc (au_reads s)\<rparr>)))"

text \<open>An attempt to log in.\<close>

definition attempt :: "(nat \<Rightarrow> string \<Rightarrow> bool) \<Rightarrow> string \<Rightarrow> auth_state \<Rightarrow> bool \<times> auth_state" where
  "attempt func token s = (func (length (au_tries s)) token, s\<lparr>au_tries := au_tries s @ [token]\<rparr>)"

text \<open>
  What the proxies have in common: an attempt with the credentials at hand, and when these came from
  the cache and are refused, one more with new ones.
\<close>

definition login_with :: "(bool \<Rightarrow> 's \<Rightarrow> ('c \<times> bool) \<times> 's) \<Rightarrow> ('c \<Rightarrow> 's \<Rightarrow> bool \<times> 's) \<Rightarrow> 's \<Rightarrow> bool \<times> 's" where
  "login_with get call s =
     (case get False s of ((c, using_cached_token), s1) \<Rightarrow>
        (case call c s1 of (connect_result, s2) \<Rightarrow>
           if \<not> connect_result \<and> using_cached_token
           then (case get True s2 of ((c', _), s3) \<Rightarrow> call c' s3)
           else (connect_result, s2)))"

definition US_EAST_1 :: string where
  "US_EAST_1 = ''us-east-1''"

text \<open>
  An option that is read where it is given, and another one where it is not; a string option counts
  as given when it is not empty.
\<close>

definition ds_or :: "data_source \<Rightarrow> string \<Rightarrow> string option \<Rightarrow> string option" where
  "ds_or ds X other = (if opt_given (ds X) then ds_str ds X else other)"

definition to_uint :: "int \<Rightarrow> nat" where
  "to_uint i = nat (i mod 2 ^ 32)"

subsection \<open>IAM\<close>

text \<open>\<open>missing\<close> and \<open>expired\<close> describe the credentials of the default provider chain after a failed login.\<close>

definition ERR_NO_CREDENTIALS :: string where
  "ERR_NO_CREDENTIALS = ''Could not find AWS Credentials for IAM Authentication. Please set up AWS credentials.''"

definition ERR_EXPIRED_CREDENTIALS :: string where
  "ERR_EXPIRED_CREDENTIALS = ''AWS Credentials for IAM Authentication are expired. Please refresh AWS credentials.''"

definition iam_port :: "data_source \<Rightarrow> int" where
  "iam_port ds = (if ds_int ds ''AUTH_PORT'' = - 1 then ds_int ds ''PORT'' else ds_int ds ''AUTH_PORT'')"

definition iam_get :: "clock \<Rightarrow> token_gen \<Rightarrow> data_source \<Rightarrow> bool \<Rightarrow> auth_state \<Rightarrow> (string \<times> bool) \<times> auth_state" where
  "iam_get clk gen ds =
     get_auth_token clk gen (ds_or ds ''AUTH_HOST'' (ds_str ds ''SERVER'')) (ds_or ds ''AUTH_REGION'' (Some US_EAST_1))
       (to_uint (iam_port ds)) (ds_str ds ''UID'') (to_uint (ds_int ds ''AUTH_EXPIRATION''))"

definition invoke_func_with_generated_token ::
  "clock \<Rightarrow> token_gen \<Rightarrow> (nat \<Rightarrow> string \<Rightarrow> bool) \<Rightarrow> bool \<Rightarrow> bool \<Rightarrow> data_source \<Rightarrow> auth_state \<Rightarrow> bool \<times> auth_state" where
  "invoke_func_with_generated_token clk gen func missing expired ds s =
     (case login_with (iam_get clk gen ds) (attempt func) s of
        (True, s') \<Rightarrow> (True, s')
      | (False, s') \<Rightarrow>
          (False, if missing then s'\<lparr>au_error := Some ERR_NO_CREDENTIALS\<rparr>
                  else if expired then s'\<lparr>au_error := Some ERR_EXPIRED_CREDENTIALS\<rparr> else s'))"

subsection \<open>Federated logins\<close>

text \<open>
  \<open>assertion\<close> is what \<^verbatim>\<open>get_saml_assertion\<close> yields, an assertion or the message of the exception, and
  \<open>missing\<close> tells whether the credentials the security token service gives for it are empty. The two
  proxies differ in the port, for which only Okta has an alternative, and in the message.
\<close>

definition ERR_NO_TEMPORARY :: "string \<Rightarrow> string" where
  "ERR_NO_TEMPORARY idp =
     ''Unable to generate temporary AWS credentials from the SAML assertion. Please ensure the '' @ idp @
     '' identity provider is correctly configured with AWS.''"

definition fed_get :: "clock \<Rightarrow> token_gen \<Rightarrow> int \<Rightarrow> data_source \<Rightarrow> bool \<Rightarrow> auth_state \<Rightarrow> (string \<times> bool) \<times> auth_state" where
  "fed_get clk gen auth_port ds =
     get_auth_token clk gen (ds_or ds ''FED_AUTH_HOST'' (ds_str ds ''SERVER'')) (ds_or ds ''FED_AUTH_REGION'' (Some US_EAST_1))
       (to_uint auth_port) (ds_str ds ''UID'') (to_uint (ds_int ds ''AUTH_EXPIRATION''))"

definition okta_port :: "data_source \<Rightarrow> int" where
  "okta_port ds = (if ds_int ds ''FED_AUTH_PORT'' = - 1 then ds_int ds ''PORT'' else ds_int ds ''FED_AUTH_PORT'')"

definition okta_login ::
  "clock \<Rightarrow> token_gen \<Rightarrow> (nat \<Rightarrow> string \<Rightarrow> bool) \<Rightarrow> string + string \<Rightarrow> (string \<Rightarrow> bool) \<Rightarrow> data_source \<Rightarrow> auth_state \<Rightarrow> bool \<times> auth_state" where
  "okta_login clk gen func assertion missing ds s =
     (case assertion of
        Inl msg \<Rightarrow> (False, s\<lparr>au_error := Some msg\<rparr>)
      | Inr saml \<Rightarrow>
          (case login_with (fed_get clk gen (okta_port ds) ds) (attempt func) s of
             (True, s') \<Rightarrow> (True, s')
           | (False, s') \<Rightarrow> (False, if missing saml then s'\<lparr>au_error := Some (ERR_NO_TEMPORARY ''Okta'')\<rparr> else s')))"

definition adfs_login ::
  "clock \<Rightarrow> token_gen \<Rightarrow> (nat \<Rightarrow> string \<Rightarrow> bool) \<Rightarrow> string + string \<Rightarrow> (string \<Rightarrow> bool) \<Rightarrow> data_source \<Rightarrow> auth_state \<Rightarrow> bool \<times> auth_state" where
  "adfs_login clk gen func assertion missing ds s =
     (case assertion of
        Inl msg \<Rightarrow> (False, s\<lparr>au_error := Some msg\<rparr>)
      | Inr saml \<Rightarrow>
          (case login_with (fed_get clk gen (ds_int ds ''FED_AUTH_PORT'') ds) (attempt func) s of
             (True, s') \<Rightarrow> (True, s')
           | (False, s') \<Rightarrow> (False, if missing saml then s'\<lparr>au_error := Some (ERR_NO_TEMPORARY ''ADFS'')\<rparr> else s')))"

definition clear_token_cache :: "auth_state \<Rightarrow> auth_state" where
  "clear_token_cache s = s\<lparr>tokens := Map.empty\<rparr>"


section \<open>What a login guarantees\<close>

text \<open>
  The contract between a login and the source of its credentials: whatever the source hands out suits
  the target of the login, credentials that were asked for anew are not from the cache, and an attempt
  leaves the cache alone. Then every attempt of a login uses suitable credentials, and there are at
  most two.
\<close>

locale credential_source =
  fixes ok :: "'s \<Rightarrow> bool"
    and tries :: "'s \<Rightarrow> 'c list"
    and suits :: "'c \<Rightarrow> bool"
    and get :: "bool \<Rightarrow> 's \<Rightarrow> ('c \<times> bool) \<times> 's"
    and call :: "'c \<Rightarrow> 's \<Rightarrow> bool \<times> 's"
    and answer :: "nat \<Rightarrow> 'c \<Rightarrow> bool"
  assumes get_ok: "ok s \<Longrightarrow> get force s = ((c, cached), s') \<Longrightarrow>
      ok s' \<and> suits c \<and> tries s' = tries s \<and> (force \<longrightarrow> \<not> cached)"
    and call_ok: "ok s \<Longrightarrow> call c s = (b, s') \<Longrightarrow> ok s' \<and> tries s' = tries s @ [c] \<and> b = answer (length (tries s)) c"
begin

lemma login_ok:
  assumes "ok s" "login_with get call s = (b, s')"
  shows "ok s' \<and> (\<exists>cs. tries s' = tries s @ cs \<and> (\<forall>c\<in>set cs. suits c) \<and> cs \<noteq> [] \<and> length cs \<le> 2 \<and>
    b = answer (length (tries s) + length cs - 1) (last cs) \<and> (length cs = 2 \<longrightarrow> \<not> answer (length (tries s)) (hd cs)))"
proof -
  obtain c cached s1 where g: "get False s = ((c, cached), s1)" by (metis surj_pair)
  obtain r s2 where k: "call c s1 = (r, s2)" by (metis surj_pair)
  note one = get_ok [OF assms(1) g] and two = call_ok [OF conjunct1 [OF get_ok [OF assms(1) g]] k]
  show ?thesis
  proof (cases "\<not> r \<and> cached")
    case True
    obtain c' cached' s3 where g': "get True s2 = ((c', cached'), s3)" by (metis surj_pair)
    note three = get_ok [OF conjunct1 [OF two] g']
    have k': "call c' s3 = (b, s')" using assms(2) g k g' True by (simp add: login_with_def)
    note four = call_ok [OF conjunct1 [OF three] k']
    have "tries s' = tries s @ [c, c']" using one two three four by simp
    then show ?thesis using one two three four True by (intro conjI exI [of _ "[c, c']"]) auto
  next
    case False
    then have "b = r" "s' = s2" using assms(2) g k by (auto simp: login_with_def)
    then show ?thesis using one two by (intro conjI exI [of _ "[c]"]) auto
  qed
qed

end

text \<open>
  Where neither region nor host have a colon, a key of the cache belongs to one target only; every
  cached token was generated for the target of its key.
\<close>

definition no_colon :: "string \<Rightarrow> bool" where
  "no_colon s \<longleftrightarrow> CHR '':'' \<notin> set s"

definition tokens_ok :: "token_gen \<Rightarrow> (string \<rightharpoonup> TOKEN_INFO) \<Rightarrow> bool" where
  "tokens_ok gen cache \<longleftrightarrow>
     (\<forall>k info. cache k = Some info \<longrightarrow>
        (\<exists>j host region port user. no_colon host \<and> no_colon region \<and> k = build_cache_key host region port user \<and>
           tk_token info = gen j host region port user))"

lemma first_colon: "no_colon u \<Longrightarrow> no_colon v \<Longrightarrow> u @ CHR '':'' # s = v @ CHR '':'' # t \<longleftrightarrow> u = v \<and> s = t"
  by (simp add: no_colon_def append_first_sep_eq)

lemma string_of_nat_no_colon: "no_colon (string_of_nat n)"
  using digits_of_string_of_nat [of "CHR '':''" n] by (auto simp: no_colon_def)

lemma cache_key_inject:
  assumes "no_colon host" "no_colon region" "no_colon host'" "no_colon region'"
  shows "build_cache_key host region port user = build_cache_key host' region' port' user' \<longleftrightarrow>
    host = host' \<and> region = region' \<and> port = port' \<and> user = user'"
  using assms string_of_nat_no_colon by (auto simp: build_cache_key_def first_colon string_of_nat_inject)

lemma tokens_ok_upd:
  "tokens_ok gen c \<Longrightarrow> tokens_ok gen (c(k := None))"
  "tokens_ok gen c \<Longrightarrow> no_colon h \<Longrightarrow> no_colon r \<Longrightarrow> tk_token info = gen j h r p u \<Longrightarrow> tokens_ok gen (c(build_cache_key h r p u \<mapsto> info))"
proof -
  show "tokens_ok gen c \<Longrightarrow> tokens_ok gen (c(k := None))" by (auto simp: tokens_ok_def)
  assume "tokens_ok gen c" and new: "no_colon h" "no_colon r" "tk_token info = gen j h r p u"
  then show "tokens_ok gen (c(build_cache_key h r p u \<mapsto> info))"
    unfolding tokens_ok_def by (metis fun_upd_other fun_upd_same option.inject)
qed

definition or_empty :: "string option \<Rightarrow> string" where
  "or_empty x = (case x of None \<Rightarrow> [] | Some s \<Rightarrow> s)"

lemma new_token_ok:
  assumes "new_token clk gen h r p u e s = (t, s')" "tokens_ok gen (tokens s)" "no_colon h" "no_colon r"
  shows "tokens_ok gen (tokens s') \<and> au_tries s' = au_tries s \<and> t = gen (au_gens s) h r p u"
  using assms by (auto simp: new_token_def Let_def intro!: tokens_ok_upd(2) [of gen _ h r])

lemma get_auth_token_ok:
  assumes "tokens_ok gen (tokens s)" "no_colon (or_empty h)" "no_colon (or_empty r)"
    "get_auth_token clk gen h r p u e force s = ((t, cached), s')"
  shows "tokens_ok gen (tokens s') \<and> au_tries s' = au_tries s \<and> (force \<longrightarrow> \<not> cached) \<and>
    (\<exists>j. t = gen j (or_empty h) (or_empty r) p (or_empty u)) \<and>
    (cached \<longrightarrow> (\<exists>info. tokens s (build_cache_key (or_empty h) (or_empty r) p (or_empty u)) = Some info \<and> tk_token info = t \<and>
       clk (au_reads s) \<le> tk_expiration info)) \<and>
    (\<not> cached \<longrightarrow> t = gen (au_gens s) (or_empty h) (or_empty r) p (or_empty u))"
proof -
  let ?k = "build_cache_key (or_empty h) (or_empty r) p (or_empty u)"
  consider (fresh) s0 where "new_token clk gen (or_empty h) (or_empty r) p (or_empty u) e s0 = (t, s')" "\<not> cached"
      "tokens_ok gen (tokens s0)" "au_tries s0 = au_tries s" "au_gens s0 = au_gens s"
    | (cached) info where "tokens s ?k = Some info" "\<not> token_expired clk (au_reads s) info" "\<not> force" "cached"
      "t = tk_token info" "s' = s\<lparr>au_reads := Suc (au_reads s)\<rparr>"
    using assms(1,4) tokens_ok_upd(1) [of gen "tokens s" ?k]
    by (auto simp: get_auth_token_def Let_def or_empty_def [symmetric] split: if_splits prod.splits option.splits)
  then show ?thesis
  proof cases
    case fresh
    then show ?thesis using new_token_ok [OF fresh(1,3) assms(2,3)] by auto
  next
    case cached
    obtain j h' r' p' u' where "no_colon h'" "no_colon r'" "?k = build_cache_key h' r' p' u'" "tk_token info = gen j h' r' p' u'"
      using assms(1) cached(1) unfolding tokens_ok_def by blast
    then have "t = gen j (or_empty h) (or_empty r) p (or_empty u)" using cache_key_inject assms(2,3) cached(5) by metis
    then show ?thesis using cached assms(1) by (auto simp: token_expired_def)
  qed
qed

interpretation token_login: credential_source
  "\<lambda>s. tokens_ok gen (tokens s) \<and> no_colon (or_empty h) \<and> no_colon (or_empty r)" au_tries
  "\<lambda>t. \<exists>j. t = gen j (or_empty h) (or_empty r) p (or_empty u)"
  "get_auth_token clk gen h r p u e" "attempt func" func for gen h r p u clk e func
proof (unfold_locales, goal_cases)
  case (1 s force c cached s')
  then show ?case using get_auth_token_ok [of gen s h r clk p u e force c cached s'] by blast
next
  case (2 s c b s')
  then show ?case by (auto simp: attempt_def)
qed


lemma new_token_fields:
  "new_token clk gen h r p u e s = (t, s') \<Longrightarrow> au_error s' = au_error s"
  by (auto simp: new_token_def Let_def)

lemma get_auth_token_fields:
  assumes "get_auth_token clk gen h r p u e force s = ((t, cached), s')"
  shows "au_error s' = au_error s \<and> au_tries s' = au_tries s \<and> (cached \<longrightarrow> au_gens s' = au_gens s)"
  using assms by (auto simp: get_auth_token_def new_token_def Let_def split: if_splits option.splits)

text \<open>The message is not touched by the attempts, and the second one has a token generated for it.\<close>

lemma login_fields:
  assumes "login_with (get_auth_token clk gen h r p u e) (attempt func) s = (b, s')"
  shows "au_error s' = au_error s"
  using assms by (auto simp: login_with_def attempt_def split: prod.splits if_splits dest!: get_auth_token_fields)

lemma second_token_fresh:
  assumes "tokens_ok gen (tokens s)" "no_colon (or_empty h)" "no_colon (or_empty r)"
    "login_with (get_auth_token clk gen h r p u e) (attempt func) s = (b, s')" "au_tries s' = au_tries s @ ts" "length ts = 2"
  shows "last ts = gen (au_gens s) (or_empty h) (or_empty r) p (or_empty u)"
proof -
  obtain c cached s1 where g: "get_auth_token clk gen h r p u e False s = ((c, cached), s1)" by (metis surj_pair)
  note one = get_auth_token_ok [OF assms(1-3) g] get_auth_token_fields [OF g]
  define s2 where "s2 = s1\<lparr>au_tries := au_tries s1 @ [c]\<rparr>"
  obtain c' cached' s3 where g': "get_auth_token clk gen h r p u e True s2 = ((c', cached'), s3)" by (metis surj_pair)
  have "tokens_ok gen (tokens s2)" using one(1) by (simp add: s2_def)
  note two = get_auth_token_ok [OF this assms(2,3) g'] get_auth_token_fields [OF g']
  show ?thesis
  proof (cases "\<not> func (length (au_tries s1)) c \<and> cached")
    case True
    then have "s' = s3\<lparr>au_tries := au_tries s3 @ [c']\<rparr>" using assms(4) g g' by (auto simp: login_with_def attempt_def s2_def)
    then have "au_tries s' = au_tries s @ [c, c']" using one two by (simp add: s2_def)
    then have "ts = [c, c']" using assms(5) by simp
    then show ?thesis using one(2) two True by (auto simp: s2_def)
  next
    case False
    then have "s' = s2" using assms(4) g by (auto simp: login_with_def attempt_def s2_def)
    then show ?thesis using one assms(5,6) by (auto simp: s2_def)
  qed
qed

text \<open>What the attempts of a login are, whichever proxy makes them.\<close>

definition login_attempts ::
  "token_gen \<Rightarrow> (nat \<Rightarrow> string \<Rightarrow> bool) \<Rightarrow> string \<Rightarrow> string \<Rightarrow> nat \<Rightarrow> string \<Rightarrow> auth_state \<Rightarrow> string list \<Rightarrow> bool \<Rightarrow> bool" where
  "login_attempts gen func host region port user s ts b \<longleftrightarrow>
     ts \<noteq> [] \<and> (\<forall>t\<in>set ts. \<exists>j. t = gen j host region port user) \<and> b = func (length (au_tries s) + length ts - 1) (last ts) \<and>
     (length ts = 1 \<or> length ts = 2 \<and> \<not> func (length (au_tries s)) (hd ts) \<and> last ts = gen (au_gens s) host region port user)"

lemma token_login_attempts:
  assumes "tokens_ok gen (tokens s)" "no_colon (or_empty h)" "no_colon (or_empty r)"
    "login_with (get_auth_token clk gen h r p u e) (attempt func) s = (b, s')"
  shows "tokens_ok gen (tokens s') \<and> au_error s' = au_error s \<and>
    (\<exists>ts. au_tries s' = au_tries s @ ts \<and> login_attempts gen func (or_empty h) (or_empty r) p (or_empty u) s ts b)"
proof -
  have ok: "tokens_ok gen (tokens s) \<and> no_colon (or_empty h) \<and> no_colon (or_empty r)" using assms(1-3) by simp
  obtain ts where ts: "tokens_ok gen (tokens s')" "au_tries s' = au_tries s @ ts" "\<forall>t\<in>set ts. \<exists>j. t = gen j (or_empty h) (or_empty r) p (or_empty u)"
    "ts \<noteq> []" "length ts \<le> 2" "b = func (length (au_tries s) + length ts - 1) (last ts)" "length ts = 2 \<longrightarrow> \<not> func (length (au_tries s)) (hd ts)"
    using token_login.login_ok [OF ok assms(4)] by auto
  have "length ts = 1 \<or> length ts = 2" using ts(4,5) by (cases ts rule: list.exhaust; cases "tl ts") auto
  then show ?thesis using ts login_fields [OF assms(4)] second_token_fresh [OF assms ts(2)]
    unfolding login_attempts_def by blast
qed

definition iam_host :: "data_source \<Rightarrow> string" where
  "iam_host ds = or_empty (ds_or ds ''AUTH_HOST'' (ds_str ds ''SERVER''))"

definition iam_region :: "data_source \<Rightarrow> string" where
  "iam_region ds = or_empty (ds_or ds ''AUTH_REGION'' (Some US_EAST_1))"



definition ex_ds :: data_source where
  "ex_ds = reset(''SERVER'' := \<lparr>m_is_set = True, m_is_default = False, m_val = OStr [104] [104] False\<rparr>,
    ''UID'' := \<lparr>m_is_set = True, m_is_default = False, m_val = OStr [117] [117] False\<rparr>, ''PORT'' := set_int 3307)"

lemma ex_ds_target: "iam_host ex_ds = ''h''" "iam_region ex_ds = ''us-east-1''" "iam_port ex_ds = 3306"
  "or_empty (ds_str ex_ds ''UID'') = ''u''"
  by code_simp+

lemma ex_ds_strings: "ds_or ex_ds ''AUTH_HOST'' (ds_str ex_ds ''SERVER'') = Some ''h''" "ds_or ex_ds ''AUTH_REGION'' (Some US_EAST_1) = Some ''us-east-1''"
  "ds_str ex_ds ''UID'' = Some ''u''" "ds_int ex_ds ''AUTH_EXPIRATION'' = 900"
  by code_simp+

definition ex_gen :: token_gen where
  "ex_gen j host region port user = ''token'' @ string_of_nat j"

definition ex_auth :: auth_state where
  "ex_auth = \<lparr>tokens = [build_cache_key ''h'' ''us-east-1'' 3306 ''u'' \<mapsto> \<lparr>tk_token = ''token0'', tk_expiration = 5\<rparr>],
     au_reads = 0, au_gens = 1, au_tries = [], au_error = None\<rparr>"

lemma ex_auth_ok: "tokens_ok ex_gen (tokens ex_auth)"
proof -
  have "tokens_ok ex_gen [build_cache_key ''h'' ''us-east-1'' 3306 ''u'' \<mapsto> \<lparr>tk_token = ''token0'', tk_expiration = 5\<rparr>]"
    by (rule tokens_ok_upd(2) [where j = 0]) (simp_all add: tokens_ok_def no_colon_def ex_gen_def)
  then show ?thesis by (simp add: ex_auth_def)
qed


text \<open>
  The default of the port for IAM is the default of the port, read when the data source is made, and
  not \<open>-1\<close>: where only the port of the server is configured the token is generated for port 3306.
\<close>

lemma iam_port_default: "iam_port (reset(''PORT'' := set_int p)) = 3306" "okta_port (reset(''PORT'' := set_int p)) = 3306"
proof -
  have "ds_int (reset(''PORT'' := set_int p)) ''AUTH_PORT'' = 3306" "ds_int (reset(''PORT'' := set_int p)) ''FED_AUTH_PORT'' = 3306"
    by (simp_all add: ds_int_def reset_def set_default_val_def)
  then show "iam_port (reset(''PORT'' := set_int p)) = 3306" "okta_port (reset(''PORT'' := set_int p)) = 3306"
    by (simp_all add: iam_port_def okta_port_def)
qed

text \<open>Hosts with colons can share a key: the token of one is then handed out for the other.\<close>

lemma cache_key_clash: "build_cache_key ''fe80:1'' ''r'' 2 ''u'' = build_cache_key ''fe80'' ''r'' 1 ''2:u''"
  by code_simp

text \<open>The federated logins make the same attempts for their own target.\<close>

lemma federated_login:
  assumes "tokens_ok gen (tokens s)" "no_colon (or_empty (ds_or ds ''FED_AUTH_HOST'' (ds_str ds ''SERVER'')))"
    "no_colon (or_empty (ds_or ds ''FED_AUTH_REGION'' (Some US_EAST_1)))"
    "login_with (fed_get clk gen port ds) (attempt func) s = (b, s')"
  shows "tokens_ok gen (tokens s') \<and> au_error s' = au_error s \<and>
    (\<exists>ts. au_tries s' = au_tries s @ ts \<and>
       login_attempts gen func (or_empty (ds_or ds ''FED_AUTH_HOST'' (ds_str ds ''SERVER'')))
         (or_empty (ds_or ds ''FED_AUTH_REGION'' (Some US_EAST_1))) (to_uint port) (or_empty (ds_str ds ''UID'')) s ts b)"
  using token_login_attempts [OF assms(1-3) assms(4) [unfolded fed_get_def]] .

end
