(* ===== verification/Secrets_Proxy.thy ===== *)
theory Secrets_Proxy
  imports Data_Source Rds_Utils
begin

text \<open>
  Logging in with a secret (\<^verbatim>\<open>driver/secrets_manager_proxy.cc\<close>). The secrets manager and the JSON
  library are parameters: \<open>fetch k id region\<close> is the answer to the \<open>k\<close>-th request (an error message or
  the text of the secret), \<open>parse\<close> turns the text into a value or an error message, \<open>field\<close> looks a key
  up. \<open>func k\<close> is the answer of the next proxy to the \<open>k\<close>-th attempt to log in, \<open>code k\<close> the error code
  it has after it. The cache of the process is part of the state, and so are the members of the proxy.
\<close>

record 'j secrets =
  sm_cache :: "string \<times> string \<rightharpoonup> 'j"
  sm_key :: "string \<times> string"
  sm_json :: 'j
  sm_requests :: nat
  sm_tries :: "(string \<times> string) list"
  sm_error :: "string option"

section \<open>The region\<close>

definition SECRETS_ARN_PATTERN :: rx where
  "SECRETS_ARN_PATTERN = rx_seqs
     [rx_lit ''arn:aws:secretsmanager:'',
      RGrp 1 (rx_plus (RSet [(CHR ''-'', CHR ''-''), (CHR ''a'', CHR ''z''), (CHR ''A'', CHR ''Z''), (CHR ''0'', CHR ''9'')])),
      RChr CHR '':'', RStar RAny]"

definition try_parse_region_from_secret :: "string \<Rightarrow> string option" where
  "try_parse_region_from_secret secret = map_option (\<lambda>k. group_str k 1) (regex_search False SECRETS_ARN_PATTERN secret)"

text \<open>The key of the cache: the secret and the region of the client.\<close>

definition secret_key :: "data_source \<Rightarrow> string \<times> string" where
  "secret_key ds =
     (let secret_ID = (if opt_given (ds ''AUTH_SECRET_ID'') then ds_str ds ''AUTH_SECRET_ID'' else None);
          region0 = (if opt_given (ds ''AUTH_REGION'') then (case ds_str ds ''AUTH_REGION'' of None \<Rightarrow> [] | Some r \<Rightarrow> r) else []);
          region = (case secret_ID of
                      Some secret \<Rightarrow> if region0 = [] then (case try_parse_region_from_secret secret of None \<Rightarrow> [] | Some r \<Rightarrow> r) else region0
                    | None \<Rightarrow> region0)
      in (case secret_ID of None \<Rightarrow> [] | Some s \<Rightarrow> s, if region = [] then ''us-east-1'' else region))"

section \<open>Operations\<close>

definition fetch_latest_credentials ::
  "(nat \<Rightarrow> string \<Rightarrow> string \<Rightarrow> string + string) \<Rightarrow> (string \<Rightarrow> string + 'j) \<Rightarrow> 'j secrets \<Rightarrow> bool \<times> 'j secrets" where
  "fetch_latest_credentials fetch parse s0 =
     (let s = s0\<lparr>sm_requests := Suc (sm_requests s0)\<rparr>
      in case fetch (sm_requests s0) (fst (sm_key s0)) (snd (sm_key s0)) of
           Inl msg \<Rightarrow> (False, s\<lparr>sm_error := Some msg\<rparr>)
         | Inr text \<Rightarrow> (case parse text of
                          Inl msg \<Rightarrow> (False, s\<lparr>sm_error := Some msg\<rparr>)
                        | Inr j \<Rightarrow> (True, s\<lparr>sm_json := j\<rparr>)))"

definition update_secret ::
  "(nat \<Rightarrow> string \<Rightarrow> string \<Rightarrow> string + string) \<Rightarrow> (string \<Rightarrow> string + 'j) \<Rightarrow> bool \<Rightarrow> 'j secrets \<Rightarrow> bool \<times> 'j secrets" where
  "update_secret fetch parse force_re_fetch s =
     (case (if force_re_fetch then None else sm_cache s (sm_key s)) of
        Some j \<Rightarrow> (False, s\<lparr>sm_json := j\<rparr>)
      | None \<Rightarrow>
          (case fetch_latest_credentials fetch parse s of
             (True, s') \<Rightarrow> (True, s'\<lparr>sm_cache := (sm_cache s')(sm_key s' \<mapsto> sm_json s')\<rparr>)
           | (False, s') \<Rightarrow> (False, s')))"

definition get_from_secret_json_value :: "('j \<Rightarrow> string \<Rightarrow> string option) \<Rightarrow> string \<Rightarrow> 'j secrets \<Rightarrow> string \<times> 'j secrets" where
  "get_from_secret_json_value field key s =
     (case field (sm_json s) key of
        Some v \<Rightarrow> (v, s)
      | None \<Rightarrow> ([], s\<lparr>sm_error := Some (''Unable to extract the '' @ key @ '' from secrets manager response.'')\<rparr>))"

definition sm_attempt :: "(nat \<Rightarrow> string \<Rightarrow> string \<Rightarrow> bool) \<Rightarrow> string \<Rightarrow> string \<Rightarrow> 'j secrets \<Rightarrow> bool \<times> 'j secrets" where
  "sm_attempt func username password s =
     (func (length (sm_tries s)) username password, s\<lparr>sm_tries := sm_tries s @ [(username, password)]\<rparr>)"

definition ERR_MISSING_SECRET_ID :: string where
  "ERR_MISSING_SECRET_ID = ''Missing required config parameter for Secrets Manager: Secret ID''"

definition ERR_NO_SECRET :: string where
  "ERR_NO_SECRET = ''Failed to fetch username or password from Secrets Manager.''"

definition ER_ACCESS_DENIED_ERROR :: int where
  "ER_ACCESS_DENIED_ERROR = 1045"

definition read_secret :: "('j \<Rightarrow> string \<Rightarrow> string option) \<Rightarrow> 'j secrets \<Rightarrow> string \<times> string \<times> 'j secrets" where
  "read_secret field s =
     (case get_from_secret_json_value field ''username'' s of (username, s1) \<Rightarrow>
        (case get_from_secret_json_value field ''password'' s1 of (password, s2) \<Rightarrow> (username, password, s2)))"

definition invoke_func_with_retrieved_secret ::
  "(nat \<Rightarrow> string \<Rightarrow> string \<Rightarrow> string + string) \<Rightarrow> (string \<Rightarrow> string + 'j) \<Rightarrow> ('j \<Rightarrow> string \<Rightarrow> string option) \<Rightarrow>
   (nat \<Rightarrow> string \<Rightarrow> string \<Rightarrow> bool) \<Rightarrow> (nat \<Rightarrow> int) \<Rightarrow> 'j secrets \<Rightarrow> bool \<times> 'j secrets" where
  "invoke_func_with_retrieved_secret fetch parse field func code s =
     (if fst (sm_key s) = [] then (False, s\<lparr>sm_error := Some ERR_MISSING_SECRET_ID\<rparr>)
      else
        (case update_secret fetch parse False s of (fetched, s1) \<Rightarrow>
           (case read_secret field s1 of (username, password, s2) \<Rightarrow>
              if username = [] \<or> password = [] then (False, s2\<lparr>sm_error := Some ERR_NO_SECRET\<rparr>)
              else
                (case sm_attempt func username password s2 of (ret, s3) \<Rightarrow>
                   if \<not> ret \<and> code (length (sm_tries s3)) = ER_ACCESS_DENIED_ERROR \<and> \<not> fetched
                   then
                     (case update_secret fetch parse True s3 of
                        (True, s4) \<Rightarrow>
                          (case read_secret field s4 of (username, password, s5) \<Rightarrow> sm_attempt func username password s5)
                      | (False, s4) \<Rightarrow> (ret, s4))
                   else (ret, s3)))))"

section \<open>What a login guarantees\<close>

text \<open>\<open>secret_of\<close> holds for a value that some request for the secret yielded; the cache holds only such values.\<close>

definition secret_of ::
  "(nat \<Rightarrow> string \<Rightarrow> string \<Rightarrow> string + string) \<Rightarrow> (string \<Rightarrow> string + 'j) \<Rightarrow> string \<times> string \<Rightarrow> 'j \<Rightarrow> nat \<Rightarrow> bool" where
  "secret_of fetch parse key j k \<longleftrightarrow> (\<exists>text. fetch k (fst key) (snd key) = Inr text \<and> parse text = Inr j)"

definition secrets_ok ::
  "(nat \<Rightarrow> string \<Rightarrow> string \<Rightarrow> string + string) \<Rightarrow> (string \<Rightarrow> string + 'j) \<Rightarrow> 'j secrets \<Rightarrow> bool" where
  "secrets_ok fetch parse s \<longleftrightarrow> (\<forall>key j. sm_cache s key = Some j \<longrightarrow> (\<exists>k < sm_requests s. secret_of fetch parse key j k))"

definition sm_field :: "('j \<Rightarrow> string \<Rightarrow> string option) \<Rightarrow> string \<Rightarrow> 'j \<Rightarrow> string" where
  "sm_field field key j = (case field j key of None \<Rightarrow> [] | Some v \<Rightarrow> v)"

lemma secret_of_mono: "secrets_ok fetch parse s \<Longrightarrow> sm_cache s' = sm_cache s \<Longrightarrow> sm_requests s \<le> sm_requests s' \<Longrightarrow> secrets_ok fetch parse s'"
  unfolding secrets_ok_def by (metis less_le_trans)

lemma update_secret_ok:
  assumes "secrets_ok fetch parse s" "update_secret fetch parse force s = (fetched, s')"
  shows "secrets_ok fetch parse s'" "sm_key s' = sm_key s" "sm_tries s' = sm_tries s" "sm_requests s \<le> sm_requests s'"
    and "fetched \<Longrightarrow> secret_of fetch parse (sm_key s) (sm_json s') (sm_requests s)"
    and "\<not> fetched \<Longrightarrow> \<not> force \<Longrightarrow>
      (if sm_cache s (sm_key s) = None then sm_json s' = sm_json s else \<exists>k < sm_requests s. secret_of fetch parse (sm_key s) (sm_json s') k)"
    and "(\<And>key. sm_cache s (sm_key s) = None \<Longrightarrow> field (sm_json s) key = None) \<Longrightarrow>
      sm_cache s' (sm_key s') = None \<Longrightarrow> field (sm_json s') key = None"
    and "\<not> force \<Longrightarrow> sm_cache s (sm_key s) \<noteq> None \<Longrightarrow> sm_requests s' = sm_requests s"
proof -
  consider (cached) j where "\<not> force" "sm_cache s (sm_key s) = Some j" "\<not> fetched" "s' = s\<lparr>sm_json := j\<rparr>"
    | (fetched) j where "fetched" "secret_of fetch parse (sm_key s) j (sm_requests s)" "force \<or> sm_cache s (sm_key s) = None"
      "s' = s\<lparr>sm_requests := Suc (sm_requests s), sm_json := j, sm_cache := (sm_cache s)(sm_key s \<mapsto> j)\<rparr>"
    | (failed) msg where "\<not> fetched" "force \<or> sm_cache s (sm_key s) = None" "s' = s\<lparr>sm_requests := Suc (sm_requests s), sm_error := Some msg\<rparr>"
    using assms(2)
    by (auto simp: update_secret_def fetch_latest_credentials_def Let_def secret_of_def split: option.splits if_splits sum.splits bool.splits)
  note cs = this
  show "sm_key s' = sm_key s" "sm_tries s' = sm_tries s" "sm_requests s \<le> sm_requests s'" by (use cs in cases; simp)+
  have old: "\<exists>k < sm_requests s. secret_of fetch parse key j k" if "sm_cache s key = Some j" for key j
    using assms(1) that by (cases key) (auto simp: secrets_ok_def)
  show "secrets_ok fetch parse s'" unfolding secrets_ok_def
  proof (intro allI impI)
    fix key j0 assume "sm_cache s' key = Some j0"
    with cs show "\<exists>k < sm_requests s'. secret_of fetch parse key j0 k"
    proof cases
      case (fetched j)
      then show ?thesis using \<open>sm_cache s' key = Some j0\<close> old [of key j0] by (cases "key = sm_key s") (auto simp: less_Suc_eq)
    qed (use \<open>sm_cache s' key = Some j0\<close> old [of key j0] in \<open>auto simp: less_Suc_eq\<close>)
  qed
  show "fetched \<Longrightarrow> secret_of fetch parse (sm_key s) (sm_json s') (sm_requests s)" by (use cs in cases) simp_all
  show "\<not> fetched \<Longrightarrow> \<not> force \<Longrightarrow>
      (if sm_cache s (sm_key s) = None then sm_json s' = sm_json s else \<exists>k < sm_requests s. secret_of fetch parse (sm_key s) (sm_json s') k)"
    by (use cs old in cases) auto
  show "(\<And>key. sm_cache s (sm_key s) = None \<Longrightarrow> field (sm_json s) key = None) \<Longrightarrow> sm_cache s' (sm_key s') = None \<Longrightarrow> field (sm_json s') key = None"
    by (use cs in cases) auto
  show "\<not> force \<Longrightarrow> sm_cache s (sm_key s) \<noteq> None \<Longrightarrow> sm_requests s' = sm_requests s" by (use cs in cases) simp_all
qed


lemma get_from_secret_fields:
  assumes "get_from_secret_json_value field key s = (v, s')"
  shows "v = sm_field field key (sm_json s)" "s' = s\<lparr>sm_error := sm_error s'\<rparr>"
  using assms by (auto simp: get_from_secret_json_value_def sm_field_def split: option.splits)

lemma read_secret_fields:
  assumes "read_secret field s = (u, p, s')"
  shows "u = sm_field field ''username'' (sm_json s)" "p = sm_field field ''password'' (sm_json s)" "s' = s\<lparr>sm_error := sm_error s'\<rparr>"
proof -
  obtain s1 where g: "get_from_secret_json_value field ''username'' s = (u, s1)" "get_from_secret_json_value field ''password'' s1 = (p, s')"
    using assms by (auto simp: read_secret_def split: prod.splits)
  note one = get_from_secret_fields [OF g(1)] and two = get_from_secret_fields [OF g(2)]
  have "sm_json s1 = sm_json s" by (subst one(2)) simp
  then show "u = sm_field field ''username'' (sm_json s)" "p = sm_field field ''password'' (sm_json s)" using one two by simp_all
  show "s' = s\<lparr>sm_error := sm_error s'\<rparr>" by (subst two(2), subst one(2)) simp
qed

text \<open>The attempt made with a value of the secret.\<close>

definition login_of :: "('j \<Rightarrow> string \<Rightarrow> string option) \<Rightarrow> 'j \<Rightarrow> string \<times> string" where
  "login_of field j = (sm_field field ''username'' j, sm_field field ''password'' j)"

text \<open>The ways a login can go.\<close>

lemma secret_login_cases:
  assumes "invoke_func_with_retrieved_secret fetch parse field func code s = (b, s')"
    "update_secret fetch parse False s = (fetched, s1)" "read_secret field s1 = (user, pass, s2)" "sm_tries s2 = sm_tries s"
  defines "s3 \<equiv> s2\<lparr>sm_tries := sm_tries s @ [(user, pass)]\<rparr>"
  obtains (no_id) "fst (sm_key s) = []" "\<not> b" "s' = s\<lparr>sm_error := Some ERR_MISSING_SECRET_ID\<rparr>"
    | (no_secret) "user = [] \<or> pass = []" "\<not> b" "s' = s2\<lparr>sm_error := Some ERR_NO_SECRET\<rparr>"
    | (once) "user \<noteq> []" "pass \<noteq> []" "b = func (length (sm_tries s)) user pass" "s' = s3 \<or> update_secret fetch parse True s3 = (False, s')"
    | (twice) s4 user' pass' s5 where "user \<noteq> []" "pass \<noteq> []" "\<not> func (length (sm_tries s)) user pass"
      "code (Suc (length (sm_tries s))) = ER_ACCESS_DENIED_ERROR" "\<not> fetched" "update_secret fetch parse True s3 = (True, s4)"
      "read_secret field s4 = (user', pass', s5)" "sm_attempt func user' pass' s5 = (b, s')"
  using assms by (auto simp: invoke_func_with_retrieved_secret_def sm_attempt_def s3_def split: if_splits prod.splits bool.splits)

text \<open>
  The attempts of a login: one with a value of the secret that has a user and a password, perhaps from
  an earlier request, and after a denied access one with the value of a new request.
\<close>

definition secret_attempts ::
  "(nat \<Rightarrow> string \<Rightarrow> string \<Rightarrow> string + string) \<Rightarrow> (string \<Rightarrow> string + 'j) \<Rightarrow> ('j \<Rightarrow> string \<Rightarrow> string option) \<Rightarrow>
   (nat \<Rightarrow> string \<Rightarrow> string \<Rightarrow> bool) \<Rightarrow> (nat \<Rightarrow> int) \<Rightarrow> 'j secrets \<Rightarrow> (string \<times> string) list \<Rightarrow> bool \<Rightarrow> bool" where
  "secret_attempts fetch parse field func code s ts b \<longleftrightarrow>
     (\<exists>j k. secret_of fetch parse (sm_key s) j k \<and> k \<le> sm_requests s \<and> fst (login_of field j) \<noteq> [] \<and> snd (login_of field j) \<noteq> [] \<and>
        (ts = [login_of field j] \<and> b = case_prod (func (length (sm_tries s))) (login_of field j) \<or>
         (\<exists>j'. secret_of fetch parse (sm_key s) j' (sm_requests s) \<and> k < sm_requests s \<and>
            \<not> case_prod (func (length (sm_tries s))) (login_of field j) \<and> code (Suc (length (sm_tries s))) = ER_ACCESS_DENIED_ERROR \<and>
            ts = [login_of field j, login_of field j'] \<and> b = case_prod (func (Suc (length (sm_tries s)))) (login_of field j'))))"



text \<open>A login with an outdated secret in the cache: the server denies access, and the new secret is used.\<close>

definition ex_fetch :: "nat \<Rightarrow> string \<Rightarrow> string \<Rightarrow> string + string" where
  "ex_fetch k key region = Inr (if k = 0 then ''old'' else ''new'')"

definition ex_field :: "string \<Rightarrow> string \<Rightarrow> string option" where
  "ex_field j key = (if key = ''username'' then Some ''admin'' else if key = ''password'' then Some j else None)"

definition ex_secrets :: "string secrets" where
  "ex_secrets = \<lparr>sm_cache = [(''id'', ''us-east-1'') \<mapsto> ''old''], sm_key = (''id'', ''us-east-1''), sm_json = [], sm_requests = 1,
     sm_tries = [], sm_error = None\<rparr>"


text \<open>
  The region of a secret given by its ARN. The second attempt of a login is not checked for an empty
  user or password, unlike the first.
\<close>

definition region_char :: "char \<Rightarrow> bool" where
  "region_char = in_set False [(CHR ''-'', CHR ''-''), (CHR ''a'', CHR ''z''), (CHR ''A'', CHR ''Z''), (CHR ''0'', CHR ''9'')]"

lemma mem_ARN:
  "(t, j) \<in> set (rmatch False n SECRETS_ARN_PATTERN s []) \<longleftrightarrow>
     (\<exists>u v. s = ''arn:aws:secretsmanager:'' @ u @ CHR '':'' # v @ t \<and> u \<noteq> [] \<and> (\<forall>c\<in>set u. region_char c) \<and>
        (\<forall>c\<in>set v. \<not> line_end c) \<and> j = [(1, u)])"
proof -
  have lit: "list_all2 (chr_eq False) w u \<longleftrightarrow> u = w" for w u
    by (induction w arbitrary: u) (auto simp: list_all2_Cons1 chr_eq_def)
  have chr: "(t, j) \<in> set (rmatch False n (RChr a) s k) \<longleftrightarrow> s = a # t \<and> j = k" for a s k t j
    by (cases s) (auto simp: chr_eq_def rmatch.simps(2) split: if_splits)
  have eq: "(t, j) \<in> set (rmatch False n (RSeq (rx_lit w) (RSeq (RGrp 1 (rx_plus (RSet rs))) (RSeq (RChr c) (RStar RAny)))) s []) \<longleftrightarrow>
      (\<exists>u v. s = w @ u @ c # v @ t \<and> u \<noteq> [] \<and> (\<forall>c\<in>set u. in_set False rs c) \<and> (\<forall>c\<in>set v. \<not> line_end c) \<and> j = [(1, u)])" for w rs c
    unfolding mem_RSeq mem_lit lit chr mem_star_single [OF single_RAny] mem_RGrp mem_plus_single [OF single_RSet]
    by fastforce
  show ?thesis unfolding SECRETS_ARN_PATTERN_def rx_seqs.simps region_char_def by (rule eq)
qed

lemma arn_region:
  assumes "r \<noteq> []" "\<forall>c\<in>set r. region_char c"
  shows "try_parse_region_from_secret (''arn:aws:secretsmanager:'' @ r @ CHR '':'' # rest) = Some r"
proof -
  have colon: "CHR '':'' \<notin> set u" if "\<forall>c\<in>set u. region_char c" for u
    using that by (auto simp: region_char_def in_set_def in_range_def)
  let ?s = "''arn:aws:secretsmanager:'' @ r @ CHR '':'' # rest"
  have "regex_search False SECRETS_ARN_PATTERN ?s = Some [(1, r)]"
  proof (rule regex_search_unique)
    show "(rest, [(1, r)]) \<in> set (rmatch False (length ?s) SECRETS_ARN_PATTERN ?s [])"
      unfolding mem_ARN using assms by (intro exI [of _ r] exI [of _ "[]"]) simp
    fix t k assume "(t, k) \<in> set (rmatch False (length ?s) SECRETS_ARN_PATTERN ?s [])"
    then obtain u v where "?s = ''arn:aws:secretsmanager:'' @ u @ CHR '':'' # v @ t" "\<forall>c\<in>set u. region_char c" "k = [(1, u)]"
      unfolding mem_ARN by blast
    then show "k = [(1, r)]" using append_first_sep_eq [OF colon colon, of r u] assms(2) by simp
  qed
  then show ?thesis by (simp add: try_parse_region_from_secret_def group_str_def)
qed

lemma second_attempt_unchecked:
  "sm_tries (snd (invoke_func_with_retrieved_secret (\<lambda>_ _ _. Inr ''new'') Inr (\<lambda>j key. if j = ''new'' then None else Some j)
     (\<lambda>k user pass. False) (\<lambda>k. 1045) ex_secrets)) = [(''old'', ''old''), ([], [])]"
  by code_simp

end
