(* ===== verification/Saml_Client.thy ===== *)
theory Saml_Client
  imports Auth_Proxy "HOL-Library.List_Lexorder" "HOL-Library.Char_ord"
begin

text \<open>
  What the federated logins need to get an assertion: the HTTP client of
  \<^verbatim>\<open>driver/saml_http_client.cc\<close> with its redirections, the requests to Okta of
  \<^verbatim>\<open>driver/okta_proxy.cc\<close>, and the functions on HTML texts of \<^verbatim>\<open>driver/okta_proxy.cc\<close> and
  \<^verbatim>\<open>driver/adfs_proxy.cc\<close>. The HTTP library is a parameter: \<open>post\<close> and \<open>get n\<close> answer requests, the
  latter the \<open>n\<close>-th one; \<open>None\<close> is a request without an answer. So is the JSON library.
\<close>

section \<open>The HTTP client\<close>

record response =
  status :: int
  headers :: "(string \<times> string) list"
  body :: string
  reason :: string

datatype saml_exc = SAML_HTTP_EXCEPTION string | Parse_error | No_result

definition find_header :: "string \<Rightarrow> response \<Rightarrow> string option" where
  "find_header name res = map_option snd (find (\<lambda>(k, v). strcaseeq k name) (headers res))"

definition cookie_string :: "response \<Rightarrow> string" where
  "cookie_string res = concat (map (\<lambda>(k, v). if strcaseeq k ''Set-Cookie'' then v @ '';'' else []) (headers res))"

definition MAX_REDIRECT_COUNT :: nat where
  "MAX_REDIRECT_COUNT = 20"

text \<open>What a request yields: the body, as a JSON value when that was asked for.\<close>

definition result_of :: "(string \<Rightarrow> 'j option) \<Rightarrow> (string \<Rightarrow> 'j) \<Rightarrow> string \<Rightarrow> response \<Rightarrow> saml_exc + 'j" where
  "result_of parse of_text content_type res =
     (if strcaseeq content_type ''application/json''
      then (case parse (body res) of None \<Rightarrow> Inl Parse_error | Some j \<Rightarrow> Inr j)
      else Inr (of_text (body res)))"

definition failed :: "response \<Rightarrow> saml_exc + 'j" where
  "failed res = Inl (SAML_HTTP_EXCEPTION (to_string (status res) @ '' '' @ reason res))"

text \<open>
  The redirections. \<open>n\<close> counts the requests. The counter of redirections goes down only when there is
  a location to go to, so that the loop may run forever: then it has no value.
\<close>

partial_function (option) redirect_loop ::
  "(nat \<Rightarrow> string \<Rightarrow> string \<Rightarrow> response option) \<Rightarrow> (response \<Rightarrow> saml_exc + 'j) \<Rightarrow> response \<Rightarrow> nat \<Rightarrow> nat \<Rightarrow>
    ((saml_exc + 'j) \<times> nat) option" where
  "redirect_loop get result res count n =
     (if status res = 302 \<and> 0 < count
      then
        (case find_header ''location'' res of
           None \<Rightarrow> redirect_loop get result res count n
         | Some url \<Rightarrow>
             (case get n url (cookie_string res) of
                None \<Rightarrow> Some (Inl No_result, Suc n)
              | Some res' \<Rightarrow>
                  if status res' = 200 then Some (result res', Suc n)
                  else redirect_loop get result res' (count - 1) (Suc n)))
      else Some (failed res, n))"

definition http_post ::
  "(string \<Rightarrow> string \<Rightarrow> string \<Rightarrow> response option) \<Rightarrow> (nat \<Rightarrow> string \<Rightarrow> string \<Rightarrow> response option) \<Rightarrow> (string \<Rightarrow> 'j option) \<Rightarrow> (string \<Rightarrow> 'j) \<Rightarrow>
    string \<Rightarrow> string \<Rightarrow> string \<Rightarrow> ((saml_exc + 'j) \<times> nat) option" where
  "http_post post get parse of_text path val content_type =
     (case post path val content_type of
        None \<Rightarrow> Some (Inl (SAML_HTTP_EXCEPTION ''Post request failed''), 0)
      | Some res \<Rightarrow>
          if status res = 200 then Some (result_of parse of_text content_type res, 0)
          else redirect_loop get (result_of parse of_text content_type) res MAX_REDIRECT_COUNT 0)"

definition http_get :: "(string \<Rightarrow> response option) \<Rightarrow> (string \<Rightarrow> 'j) \<Rightarrow> string \<Rightarrow> saml_exc + 'j" where
  "http_get get of_text path =
     (case get path of
        None \<Rightarrow> Inl (SAML_HTTP_EXCEPTION ''Get request failed'')
      | Some res \<Rightarrow> if status res = 200 then Inr (of_text (body res)) else failed res)"

text \<open>A server that always says where to go is followed at most twenty times.\<close>

definition has_location :: "response \<Rightarrow> bool" where
  "has_location res \<longleftrightarrow> (status res = 302 \<longrightarrow> find_header ''location'' res \<noteq> None)"

lemma redirect_loop_ends:
  assumes "has_location res" "\<And>n url cookie res. get n url cookie = Some res \<Longrightarrow> has_location res"
  shows "\<exists>r m. redirect_loop get result res count n = Some (r, m) \<and> n \<le> m \<and> m \<le> n + count \<and>
    (r = failed res \<or> r = Inl No_result \<or> (\<exists>k url cookie res'. get k url cookie = Some res' \<and> (r = failed res' \<or> status res' = 200 \<and> r = result res')))"
  using assms(1)
proof (induction count arbitrary: res n)
  case 0
  then show ?case by (subst redirect_loop.simps) simp
next
  case (Suc count)
  show ?case
  proof (cases "status res = 302")
    case True
    then obtain url where url: "find_header ''location'' res = Some url" using Suc.prems by (auto simp: has_location_def)
    show ?thesis
    proof (cases "get n url (cookie_string res)")
      case None
      then show ?thesis using True url by (subst redirect_loop.simps) auto
    next
      case (Some res')
      show ?thesis
      proof (cases "status res' = 200")
        case True
        then show ?thesis using \<open>status res = 302\<close> url Some by (subst redirect_loop.simps) auto
      next
        case False
        then have "redirect_loop get result res (Suc count) n = redirect_loop get result res' count (Suc n)"
          using True url Some by (subst redirect_loop.simps) simp
        then show ?thesis using Suc.IH [OF assms(2) [OF Some], of "Suc n"] Some by fastforce
      qed
    qed
  qed (subst redirect_loop.simps, simp)
qed

text \<open>A redirection without a location is never left.\<close>

lemma redirect_loop_hangs:
  assumes "status res = 302" "find_header ''location'' res = None" "0 < count"
  shows "redirect_loop get result res count n = None"
proof -
  have "\<not> (status res = 302 \<and> find_header ''location'' res = None \<and> 0 < count)"
    if "redirect_loop get result res count n = Some y" for y
    by (rule redirect_loop.raw_induct [where P = "\<lambda>get result res count n y.
        \<not> (status res = 302 \<and> find_header ''location'' res = None \<and> 0 < count)", OF _ that])
      (fastforce split: if_splits option.splits)
  then show ?thesis using assms by (cases "redirect_loop get result res count n") auto
qed


section \<open>Okta\<close>

definition OKTA_SAML_RESPONSE_PATTERN :: rx where
  "OKTA_SAML_RESPONSE_PATTERN = rx_seqs
     [rx_lit ''name=\"SAMLResponse\"'', rx_plus RAny, rx_lit ''value=\"'', RGrp 1 (rx_plus RAny), rx_lit ''\"/>'']"

text \<open>\<^verbatim>\<open>replace_all\<close>: the search goes on behind the replacement.\<close>

fun find_str :: "string \<Rightarrow> string \<Rightarrow> nat option" where
  "find_str from [] = (if from = [] then Some 0 else None)"
| "find_str from (c # s) = (if take (length from) (c # s) = from then Some 0 else map_option Suc (find_str from s))"

lemma find_str_Some: "find_str from s = Some p \<Longrightarrow> take (length from) (drop p s) = from \<and> p + length from \<le> length s"
proof (induction s arbitrary: p)
  case (Cons c s)
  show ?case
  proof (cases "take (length from) (c # s) = from")
    case True
    then have "length from \<le> length (c # s)" by (metis length_take min.cobounded1)
    then show ?thesis using Cons.prems True by simp
  qed (use Cons in \<open>auto split: if_splits\<close>)
qed (simp split: if_splits)

function replace_loop :: "string \<Rightarrow> string \<Rightarrow> string \<Rightarrow> nat \<Rightarrow> string" where
  "replace_loop from to str start_pos =
     (if from = [] then str
      else case find_str from (drop start_pos str) of
        None \<Rightarrow> str
      | Some p \<Rightarrow> replace_loop from to (replace_str (start_pos + p) (length from) to str) (start_pos + p + length to))"
  by pat_completeness auto
termination
proof (relation "measure (\<lambda>(from, to, str, start_pos). length str - start_pos)", goal_cases)
  case (2 pat to str start_pos p)
  note f = find_str_Some [OF 2(2)]
  then have "p + length pat \<le> length str - start_pos" "0 < length pat" using 2(1) by simp_all
  then show ?case unfolding in_measure prod.case replace_str_def length_append length_take length_drop by arith
qed simp

declare replace_loop.simps [simp del]

definition replace_all :: "string \<Rightarrow> string \<Rightarrow> string \<Rightarrow> string" where
  "replace_all str from to = replace_loop from to str 0"

definition saml_url :: "string \<Rightarrow> string" where
  "saml_url app_id = ''/app/amazon_aws/'' @ app_id @ ''/sso/saml''"

text \<open>The assertion of an answer of Okta; the empty string when there is none.\<close>

definition okta_assertion :: "string \<Rightarrow> string" where
  "okta_assertion page =
     (case regex_search True OKTA_SAML_RESPONSE_PATTERN page of
        Some m \<Rightarrow> replace_all (replace_all (group_str m 1) ''&#x2b;'' ''+'') ''&#x3d;'' ''=''
      | None \<Rightarrow> [])"

text \<open>
  The requests to Okta. \<open>session\<close> is the answer to the request of a session token, of which \<open>token_of\<close>
  reads the field (\<open>None\<close> for an empty value), \<open>page\<close> the answer to the request with that token.
\<close>

definition okta_session_token :: "saml_exc + 'j \<Rightarrow> ('j \<Rightarrow> string option) \<Rightarrow> saml_exc + string" where
  "okta_session_token session token_of =
     (case session of
        Inl (SAML_HTTP_EXCEPTION e) \<Rightarrow>
          Inl (SAML_HTTP_EXCEPTION (''Failed to get session token from Okta : '' @ e @ ''. Please verify your Okta credentials.''))
      | Inl e \<Rightarrow> Inl e
      | Inr res \<Rightarrow> (case token_of res of None \<Rightarrow> Inr [] | Some t \<Rightarrow> Inr t))"

definition okta_get_saml_assertion :: "saml_exc + 'j \<Rightarrow> ('j \<Rightarrow> string option) \<Rightarrow> (string \<Rightarrow> saml_exc + string) \<Rightarrow> string \<Rightarrow> saml_exc + string" where
  "okta_get_saml_assertion session token_of page app_id =
     (case okta_session_token session token_of of
        Inl e \<Rightarrow> Inl e
      | Inr token \<Rightarrow>
          (case page (saml_url app_id @ ''?onetimetoken='' @ token) of
             Inl (SAML_HTTP_EXCEPTION e) \<Rightarrow>
               Inl (SAML_HTTP_EXCEPTION (''Failed to get SAML assertion from Okta : '' @ e @
                 ''. Please verify your Okta identity provider configuration on AWS.''))
           | Inl e \<Rightarrow> Inl e
           | Inr res \<Rightarrow> Inr (okta_assertion res)))"

section \<open>ADFS\<close>

text \<open>\<^verbatim>\<open>unescape_html_entity\<close>, on the text from the current index on.\<close>

function unescape_html_entity :: "string \<Rightarrow> string" where
  "unescape_html_entity html =
     (case html of
        [] \<Rightarrow> []
      | c # rest \<Rightarrow>
          if c \<noteq> CHR ''&'' then c # unescape_html_entity rest
          else if take 4 html = ''&lt;'' then CHR ''<'' # unescape_html_entity (drop 4 html)
          else if take 4 html = ''&gt;'' then CHR ''>'' # unescape_html_entity (drop 4 html)
          else if take 5 html = ''&amp;'' then CHR ''&'' # unescape_html_entity (drop 5 html)
          else if take 6 html = ''&apos;'' then CHR 0x27 # unescape_html_entity (drop 6 html)
          else if take 6 html = ''&quot;'' then CHR 0x22 # unescape_html_entity (drop 6 html)
          else c # unescape_html_entity rest)"
  by pat_completeness auto
termination by (relation "measure length") auto

declare unescape_html_entity.simps [simp del]

text \<open>
  The parameters of the form. The tags come as pairs of name and value, in the order of
  \<^verbatim>\<open>get_input_tags_from_html\<close>; \<^verbatim>\<open>std::map\<close> keeps the first value of a name and orders the names.
\<close>

definition contains :: "string \<Rightarrow> string \<Rightarrow> bool" where
  "contains s w \<longleftrightarrow> find_str w s \<noteq> None"

fun map_insert :: "string \<Rightarrow> string \<Rightarrow> (string \<times> string) list \<Rightarrow> (string \<times> string) list" where
  "map_insert k v [] = [(k, v)]"
| "map_insert k v ((k', v') # m) =
     (if k < k' then (k, v) # (k', v') # m else if k = k' then (k', v') # m else (k', v') # map_insert k v m)"

definition parameter_of :: "string \<Rightarrow> string \<Rightarrow> string \<times> string \<Rightarrow> (string \<times> string) option" where
  "parameter_of username password tag =
     (case tag of (name, val) \<Rightarrow>
        (let nameLower = map to_lower name
         in if contains nameLower ''username'' then Some (name, username)
            else if contains nameLower ''authmethod'' \<and> val \<noteq> [] then Some (name, val)
            else if contains nameLower ''password'' then Some (name, password)
            else if name \<noteq> [] then Some (name, val)
            else None))"

definition add_parameter :: "string \<Rightarrow> string \<Rightarrow> string \<times> string \<Rightarrow> (string \<times> string) list \<Rightarrow> (string \<times> string) list" where
  "add_parameter username password tag m =
     (case parameter_of username password tag of None \<Rightarrow> m | Some (k, v) \<Rightarrow> map_insert k v m)"

definition join_parameters :: "(string \<times> string) list \<Rightarrow> string" where
  "join_parameters m = foldl (\<lambda>s (k, v). s @ (if s = [] then [] else ''&'') @ k @ ''='' @ v) [] m"

definition get_parameters :: "string \<Rightarrow> string \<Rightarrow> (string \<times> string) list \<Rightarrow> string" where
  "get_parameters username password tags = join_parameters (fold (add_parameter username password) tags [])"


section \<open>What the functions compute\<close>

text \<open>Replacing from left to right, without looking into what was put in.\<close>

function replaced :: "string \<Rightarrow> string \<Rightarrow> string \<Rightarrow> string" where
  "replaced pat to s =
     (if pat = [] \<or> s = [] then s
      else if take (length pat) s = pat then to @ replaced pat to (drop (length pat) s)
      else hd s # replaced pat to (tl s))"
  by pat_completeness auto
termination by (relation "measure (\<lambda>(pat, to, s). length s)") auto

declare replaced.simps [simp del]

lemma replaced_None: "pat \<noteq> [] \<Longrightarrow> find_str pat s = None \<Longrightarrow> replaced pat to s = s"
proof (induction s)
  case (Cons c s)
  then show ?case by (subst replaced.simps) (auto split: if_splits)
qed (simp add: replaced.simps)

lemma replaced_Some:
  "pat \<noteq> [] \<Longrightarrow> find_str pat s = Some p \<Longrightarrow> replaced pat to s = take p s @ to @ replaced pat to (drop (p + length pat) s)"
proof (induction s arbitrary: p)
  case (Cons c s)
  show ?case
  proof (cases "take (length pat) (c # s) = pat")
    case True
    then show ?thesis using Cons.prems by (subst replaced.simps) auto
  next
    case False
    then obtain q where q: "find_str pat s = Some q" "p = Suc q" using Cons.prems by auto
    then show ?thesis using Cons.IH [OF Cons.prems(1) q(1)] False Cons.prems(1) by (subst replaced.simps) simp
  qed
qed simp

lemma replace_loop_replaced: "pat \<noteq> [] \<Longrightarrow> replace_loop pat to str i = take i str @ replaced pat to (drop i str)"
proof (induction pat to str i rule: replace_loop.induct)
  case (1 pat to str i)
  show ?case
  proof (cases "find_str pat (drop i str)")
    case None
    then show ?thesis using 1(2) replaced_None [of pat "drop i str"] by (subst replace_loop.simps) simp
  next
    case (Some p)
    have len: "p + length pat \<le> length str - i" using find_str_Some [OF Some] by simp
    moreover have "0 < length pat" using 1(2) by simp
    ultimately have le: "i + p \<le> length str" by linarith
    let ?str = "replace_str (i + p) (length pat) to str"
    have "replace_loop pat to str i = take (i + p + length to) ?str @ replaced pat to (drop (i + p + length to) ?str)"
      using 1(1) [OF 1(2) Some 1(2)] 1(2) Some by (subst replace_loop.simps) simp
    also have "take (i + p + length to) ?str = take (i + p) str @ to" using le by (simp add: replace_str_def min_def)
    also have "drop (i + p + length to) ?str = drop (i + p + length pat) str" using le by (simp add: replace_str_def min_def)
    also have "take (i + p) str = take i str @ take p (drop i str)" by (simp add: take_add)
    finally show ?thesis using replaced_Some [OF 1(2) Some, of to] by (simp add: add.commute add.left_commute)
  qed
qed

lemma replace_all_correct: "from \<noteq> [] \<Longrightarrow> replace_all str from to = replaced from to str"
  by (simp add: replace_all_def replace_loop_replaced)

text \<open>Escaping, and the five entities read back.\<close>

fun escape_html :: "string \<Rightarrow> string" where
  "escape_html [] = []"
| "escape_html (c # s) =
     (if c = CHR ''<'' then ''&lt;'' else if c = CHR ''>'' then ''&gt;'' else if c = CHR ''&'' then ''&amp;''
      else if c = CHR 0x27 then ''&apos;'' else if c = CHR 0x22 then ''&quot;'' else [c]) @ escape_html s"

lemma unescape_entity:
  "unescape_html_entity (''&lt;'' @ s) = CHR ''<'' # unescape_html_entity s"
  "unescape_html_entity (''&gt;'' @ s) = CHR ''>'' # unescape_html_entity s"
  "unescape_html_entity (''&amp;'' @ s) = CHR ''&'' # unescape_html_entity s"
  "unescape_html_entity (''&apos;'' @ s) = CHR 0x27 # unescape_html_entity s"
  "unescape_html_entity (''&quot;'' @ s) = CHR 0x22 # unescape_html_entity s"
  "c \<noteq> CHR ''&'' \<Longrightarrow> unescape_html_entity (c # s) = c # unescape_html_entity s"
  by (subst unescape_html_entity.simps, simp)+

lemma unescape_escape: "unescape_html_entity (escape_html s) = s"
proof (induction s)
  case (Cons c s)
  then show ?case using unescape_entity(6) [of c "escape_html s"]
    by (cases "c \<in> {CHR ''<'', CHR ''>'', CHR ''&'', CHR 0x27, CHR 0x22}")
      (auto simp: unescape_entity(1-5) [of "escape_html s", simplified])
qed (simp add: unescape_html_entity.simps)

text \<open>The parameters: ordered names, and for each the value of the first tag that gives it one.\<close>

definition map_ok :: "(string \<times> string) list \<Rightarrow> bool" where
  "map_ok m \<longleftrightarrow> sorted_wrt (<) (map fst m)"

lemma map_insert_fst: "set (map fst (map_insert k v m)) = insert k (set (map fst m))"
  by (induction k v m rule: map_insert.induct) (simp_all add: insert_commute)

lemma map_insert_ok: "map_ok m \<Longrightarrow> map_ok (map_insert k v m)"
proof (induction m)
  case (Cons p m)
  obtain k' v' where p: "p = (k', v')" by fastforce
  have "map_ok m" "\<forall>x\<in>set (map fst m). k' < x" using Cons.prems by (auto simp: map_ok_def p)
  moreover have "k' < x" if "k' < k" "x \<in> set (map fst (map_insert k v m))" for x
    using that \<open>\<forall>x\<in>set (map fst m). k' < x\<close> unfolding map_insert_fst by auto
  ultimately show ?case using Cons.IH by (auto simp: map_ok_def p not_less order_le_less)
qed (simp add: map_ok_def)

lemma map_insert_lookup:
  "map_ok m \<Longrightarrow> map_of (map_insert k v m) = (if map_of m k = None then (map_of m)(k \<mapsto> v) else map_of m)"
proof (induction m)
  case (Cons p m)
  obtain k' v' where p: "p = (k', v')" by fastforce
  have ok: "map_ok m" "\<forall>x\<in>set (map fst m). k' < x" using Cons.prems by (auto simp: map_ok_def p)
  have "map_of m k = None" if "k \<le> k'"
    using ok(2) that unfolding map_of_eq_None_iff by (metis image_set leD order_le_less_trans)
  then show ?case using Cons.IH [OF ok(1)] by (auto simp: p fun_upd_twist)
qed (simp add: map_ok_def)

text \<open>
  The parameters of the form: the names are in order, and each has the value that the first tag with
  that name gives it.
\<close>

lemma parameters_lookup:
  "map_ok m \<Longrightarrow> map_ok (fold (add_parameter u p) tags m) \<and>
     map_of (fold (add_parameter u p) tags m) = map_of (m @ List.map_filter (parameter_of u p) tags)"
proof (induction tags arbitrary: m)
  case (Cons tag tags)
  show ?case
  proof (cases "parameter_of u p tag")
    case None
    then show ?thesis using Cons by (simp add: add_parameter_def List.map_filter_simps)
  next
    case (Some kv)
    obtain k v where kv: "kv = (k, v)" by fastforce
    have "map_of (map_insert k v m @ xs) = map_of (m @ (k, v) # xs)" for xs
      using map_insert_lookup [OF Cons.prems, of k v] by (auto simp: map_add_def fun_eq_iff split: option.splits)
    then show ?thesis using Cons.IH [OF map_insert_ok [OF Cons.prems, of k v]] Some kv
      by (simp add: add_parameter_def List.map_filter_simps)
  qed
qed (simp add: List.map_filter_simps)

text \<open>Nothing in the values is encoded: an ampersand in a password ends the parameter.\<close>

lemma password_not_encoded: "get_parameters ''u'' ''a&b=c'' [(''Password'', []), (''UserName'', [])] = ''Password=a&b=c&UserName=u''"
  by code_simp

lemma okta_example: "okta_assertion ''<input name=\"SAMLResponse\" type=\"hidden\" value=\"QUJD&#x2b;Zg&#x3d;&#x3d;\"/>'' = ''QUJD+Zg==''"
  by code_simp

end
