(* ===== verification/Custom_Endpoint.thy ===== *)
theory Custom_Endpoint
  imports Topology_Service Cache_Map Sliding_Expiration_Cache Data_Source
begin

text \<open>
  Custom endpoints (\<^verbatim>\<open>driver/custom_endpoint_info.cc\<close>, \<^verbatim>\<open>driver/custom_endpoint_monitor.cc\<close>,
  \<^verbatim>\<open>driver/custom_endpoint_proxy.cc\<close>). A monitor asks the RDS service for the description of an
  endpoint, caches it for all connections of the process, and hands its members to the topology
  service of a connection as allowed or blocked hosts. The descriptions the service gives are a
  parameter, and so is what other threads put into the cache while a connection waits. Descriptions
  are objects of a store, because the code compares pointers to them.
\<close>

section \<open>Descriptions of endpoints\<close>

datatype CUSTOM_ENDPOINT_ROLE_TYPE = ANY | WRITER | READER

datatype MEMBERS_LIST_TYPE = STATIC_LIST | EXCLUSION_LIST

record CUSTOM_ENDPOINT_INFO =
  endpoint_identifier :: string
  cluster_identifier :: string
  url :: string
  role_type :: CUSTOM_ENDPOINT_ROLE_TYPE
  members :: "string set"
  member_list_type :: MEMBERS_LIST_TYPE

text \<open>The description as the service gives it; \<open>static_members\<close> is \<open>None\<close> when they have not been set.\<close>

record cluster_endpoint =
  ep_identifier :: string
  ep_cluster :: string
  ep_url :: string
  ep_type :: string
  static_members :: "string list option"
  excluded_members :: "string list"

definition ROLE_TYPE_MAP :: "(string \<times> CUSTOM_ENDPOINT_ROLE_TYPE) list" where
  "ROLE_TYPE_MAP = [(''ANY'', ANY), (''WRITER'', WRITER), (''READER'', READER)]"

definition get_role_type :: "string \<Rightarrow> CUSTOM_ENDPOINT_ROLE_TYPE res" where
  "get_role_type s =
     (case map_of ROLE_TYPE_MAP s of
        Some r \<Rightarrow> Inr r
      | None \<Rightarrow> Inl (Invalid_argument ''Invalid role type for custom endpoint, this should not have happened.''))"

definition from_db_cluster_endpoint :: "cluster_endpoint \<Rightarrow> CUSTOM_ENDPOINT_INFO res" where
  "from_db_cluster_endpoint e =
     (case (case static_members e of Some ms \<Rightarrow> (ms, STATIC_LIST) | None \<Rightarrow> (excluded_members e, EXCLUSION_LIST)) of
        (ms, t) \<Rightarrow>
          (case get_role_type (ep_type e) of
             Inl x \<Rightarrow> Inl x
           | Inr r \<Rightarrow> Inr \<lparr>endpoint_identifier = ep_identifier e, cluster_identifier = ep_cluster e, url = ep_url e, role_type = r,
               members = set ms, member_list_type = t\<rparr>))"

definition get_excluded_members :: "CUSTOM_ENDPOINT_INFO \<Rightarrow> string set" where
  "get_excluded_members i = (if member_list_type i = EXCLUSION_LIST then members i else {})"

definition get_static_members :: "CUSTOM_ENDPOINT_INFO \<Rightarrow> string set" where
  "get_static_members i = (if member_list_type i = STATIC_LIST then members i else {})"

text \<open>\<^verbatim>\<open>operator==\<close>, which the monitor does not use; it leaves the members out.\<close>

definition info_equal :: "CUSTOM_ENDPOINT_INFO \<Rightarrow> CUSTOM_ENDPOINT_INFO \<Rightarrow> bool" where
  "info_equal a b \<longleftrightarrow> endpoint_identifier a = endpoint_identifier b \<and> cluster_identifier a = cluster_identifier b \<and> url a = url b \<and>
     role_type a = role_type b \<and> member_list_type a = member_list_type b"

section \<open>Monitors\<close>

text \<open>
  A monitor refers to the topology service of the connection it was made for. \<open>ce_pool\<close> is the size of
  the thread pool of the environment, which is not part of the driver: resizing sets its size, stopping
  it ends its threads. \<open>ce_running\<close> is the monitor whose loop was handed to it.
\<close>

record ce_monitor =
  mo_host :: string
  mo_id :: string
  mo_region :: string
  mo_refresh :: int
  mo_svc :: ref
  mo_stop :: bool

record ce =
  ce_infos :: "CUSTOM_ENDPOINT_INFO list"
  ce_cache :: "(string, ref option) cache_map"
  ce_mons :: "ce_monitor list"
  ce_monitors :: "(string, ref) scache"
  ce_services :: "tsvc list"
  ce_pool :: nat
  ce_running :: "ref option"
  ce_tick :: nat

definition CUSTOM_ENDPOINT_INFO_EXPIRATION_NANOS :: int where
  "CUSTOM_ENDPOINT_INFO_EXPIRATION_NANOS = 300000000000"

definition has_custom_endpoint_info :: "clock \<Rightarrow> string \<Rightarrow> ce \<Rightarrow> bool \<times> ce" where
  "has_custom_endpoint_info clk host w =
     (case mget clk (ce_tick w) host None (ce_cache w) of (r, n) \<Rightarrow> (r \<noteq> None, w\<lparr>ce_tick := n\<rparr>))"

definition run :: "ref \<Rightarrow> ce \<Rightarrow> ce" where
  "run m w = (if ce_pool w = 1 then w else w\<lparr>ce_pool := 1, ce_running := Some m\<rparr>)"

definition new_monitor :: "ce_monitor \<Rightarrow> ce \<Rightarrow> ref \<times> ce" where
  "new_monitor mo w = (case alloc mo (ce_mons w) of (m, ms) \<Rightarrow> (m, run m (w\<lparr>ce_mons := ms\<rparr>)))"

text \<open>The name of each endpoint, for the log.\<close>

definition get_endpoints_as_string :: "cluster_endpoint list \<Rightarrow> string" where
  "get_endpoints_as_string custom_endpoints =
     (if custom_endpoints = [] then ''<no endpoints>''
      else butlast (CHR ''['' # concat (map (\<lambda>e. ep_identifier e @ '','') custom_endpoints)) @ '']'')"

definition stop_monitor :: "clock \<Rightarrow> ref \<Rightarrow> ce \<Rightarrow> ce" where
  "stop_monitor clk m w =
     (case mremove clk (ce_tick w) (mo_host (ce_mons w ! m)) (ce_cache w) of (cm, n) \<Rightarrow>
        w\<lparr>ce_mons := modify m (mo_stop_update (\<lambda>_. True)) (ce_mons w), ce_pool := 0, ce_running := None,
          ce_cache := cm, ce_tick := n\<rparr>)"

definition clear_cache :: "ce \<Rightarrow> ce" where
  "clear_cache w = w\<lparr>ce_cache := mclear (ce_cache w)\<rparr>"

text \<open>What the members mean for the topology service.\<close>

definition hosts_of :: "CUSTOM_ENDPOINT_INFO \<Rightarrow> string set \<times> string set" where
  "hosts_of i = (if member_list_type i = STATIC_LIST then (get_static_members i, {}) else ({}, get_excluded_members i))"

definition sleep_time :: "clock \<Rightarrow> ce_monitor \<Rightarrow> int \<Rightarrow> ce \<Rightarrow> int \<times> ce" where
  "sleep_time clk mo start w = (max 0 (mo_refresh mo - (clk (ce_tick w) - start)), w\<lparr>ce_tick := Suc (ce_tick w)\<rparr>)"

text \<open>
  One turn of the loop of a monitor on the endpoints the service describes, up to the sleep, whose
  length it yields; an exception ends the loop.
\<close>

definition monitor_round :: "clock \<Rightarrow> cluster_endpoint list \<Rightarrow> ce_monitor \<Rightarrow> ce \<Rightarrow> int res \<times> ce" where
  "monitor_round clk custom_endpoints mo w0 =
     (let start = clk (ce_tick w0); w = w0\<lparr>ce_tick := Suc (ce_tick w0)\<rparr>
      in case custom_endpoints of
           [e] \<Rightarrow>
             (case from_db_cluster_endpoint e of
                Inl x \<Rightarrow> (Inl x, w)
              | Inr info \<Rightarrow>
                  (case alloc info (ce_infos w) of (endpoint_info, infos) \<Rightarrow>
                     (case mget clk (ce_tick w) (mo_host mo) None (ce_cache w) of (cache_endpoint_info, n) \<Rightarrow>
                        (let w1 = w\<lparr>ce_infos := infos, ce_tick := n\<rparr>
                         in if cache_endpoint_info \<noteq> None \<and> cache_endpoint_info = Some endpoint_info
                            then (case sleep_time clk mo start w1 of (t, w2) \<Rightarrow> (Inr t, w2))
                            else
                              (let svcs = modify (mo_svc mo) (set_allowed_and_blocked_hosts (Some (hosts_of info))) (ce_services w1)
                               in case mput clk (ce_tick w1) (mo_host mo) (Some endpoint_info) CUSTOM_ENDPOINT_INFO_EXPIRATION_NANOS (ce_cache w1) of
                                    (cm, n) \<Rightarrow>
                                      (case sleep_time clk mo start (w1\<lparr>ce_services := svcs, ce_cache := cm, ce_tick := n\<rparr>) of
                                         (t, w2) \<Rightarrow> (Inr t, w2)))))))
         | _ \<Rightarrow> (Inr (mo_refresh mo), w))"

text \<open>
  The loop of monitor \<open>m\<close> on the answers of the service to its requests, one for each turn. It ends when
  the monitor has been stopped; an exception ends it too.
\<close>

fun monitor_loop :: "clock \<Rightarrow> cluster_endpoint list list \<Rightarrow> ref \<Rightarrow> ce \<Rightarrow> ce" where
  "monitor_loop clk [] m w = w"
| "monitor_loop clk (custom_endpoints # answers) m w =
     (if mo_stop (ce_mons w ! m) then w
      else
        (case monitor_round clk custom_endpoints (ce_mons w ! m) w of
           (Inl x, w1) \<Rightarrow> w1\<lparr>ce_mons := modify m (mo_stop_update (\<lambda>_. True)) (ce_mons w1)\<rparr>
         | (Inr t, w1) \<Rightarrow> monitor_loop clk answers m w1))"

section \<open>The proxy\<close>

record ce_proxy =
  px_host :: string
  px_id :: string
  px_region :: string
  px_svc :: ref
  px_error :: "string option"

text \<open>
  Waiting for a description. \<open>look k\<close> tells whether the cache has one at the \<open>k\<close>-th look. The loop
  ends when there is one or when the time is over.
\<close>

partial_function (option) wait_loop :: "clock \<Rightarrow> (nat \<Rightarrow> bool) \<Rightarrow> int \<Rightarrow> bool \<Rightarrow> nat \<Rightarrow> nat \<Rightarrow> (bool \<times> nat) option" where
  "wait_loop clk look deadline has n k =
     (if has then Some (True, n)
      else if clk n < deadline then wait_loop clk look deadline (look k) (Suc n) (Suc k)
      else Some (False, Suc n))"

definition wait_for_custom_endpoint_info ::
  "clock \<Rightarrow> (nat \<Rightarrow> bool) \<Rightarrow> data_source \<Rightarrow> ce_proxy \<Rightarrow> nat \<Rightarrow> (ce_proxy \<times> nat) option" where
  "wait_for_custom_endpoint_info clk look ds p n =
     (if look 0 then Some (p, n)
      else
        (case wait_loop clk look (clk n + ds_int ds ''WAIT_FOR_CUSTOM_ENDPOINT_INFO_TIMEOUT_MS'' * 10 ^ 6) False (Suc n) 1 of
           None \<Rightarrow> None
         | Some (True, n') \<Rightarrow> Some (p, n')
         | Some (False, n') \<Rightarrow>
             Some (p\<lparr>px_error := Some (take 1023 (''The custom endpoint plugin timed out after '' @
                 to_string (ds_int ds ''WAIT_FOR_CUSTOM_ENDPOINT_INFO_TIMEOUT_MS'') @
                 '' ms while waiting for custom endpoint info for host '' @ px_host p @ ''.''))\<rparr>, n')))"

text \<open>
  The monitors that a cache drops are stopped. \<^verbatim>\<open>compute_if_absent\<close> sweeps the cache, makes a monitor
  and inserts it when the host has none; it is written out because making a monitor changes the state.
\<close>

definition stop_dropped :: "clock \<Rightarrow> (string, ref) scache \<Rightarrow> ce \<Rightarrow> ce" where
  "stop_dropped clk s w =
     fold (stop_monitor clk) (drop (length (disposed (ce_monitors w))) (disposed s)) (w\<lparr>ce_monitors := s\<rparr>)"

definition create_monitor_if_absent :: "clock \<Rightarrow> data_source \<Rightarrow> ce_proxy \<Rightarrow> ce \<Rightarrow> ref \<times> ce" where
  "create_monitor_if_absent clk ds p w =
     (case clean_up clk (ce_tick w) (ce_monitors w) of (s, n) \<Rightarrow>
        (case new_monitor \<lparr>mo_host = px_host p, mo_id = px_id p, mo_region = px_region p,
             mo_refresh = ds_int ds ''CUSTOM_ENDPOINT_INFO_REFRESH_RATE_MS'' * 10 ^ 6, mo_svc = px_svc p, mo_stop = False\<rparr>
             (stop_dropped clk s (w\<lparr>ce_tick := n\<rparr>)) of
           (m, w1) \<Rightarrow>
             (let e = ds_int ds ''CUSTOM_ENDPOINT_MONITOR_EXPIRATION_MS'' * 10 ^ 6; n1 = ce_tick w1; s1 = ce_monitors w1;
                  it = with_extend_expiration clk (n1 + 1) e (m, clk n1 + e)
              in (m, w1\<lparr>ce_tick := n1 + 2,
                    ce_monitors := (case map_of (cache s1) (px_host p) of
                                      Some _ \<Rightarrow> s1 | None \<Rightarrow> s1\<lparr>cache := AList.update (px_host p) it (cache s1)\<rparr>)\<rparr>))))"

definition release_monitors :: "clock \<Rightarrow> ce \<Rightarrow> ce" where
  "release_monitors clk w = (if cache (ce_monitors w) = [] then w else stop_dropped clk (sclear (ce_monitors w)) w)"

definition ERR_NO_ENDPOINT_ID :: string where
  "ERR_NO_ENDPOINT_ID = ''Unable to parse custom endpoint identifier from URL.''"

definition ERR_NO_REGION :: string where
  "ERR_NO_REGION = ''Unable to determine connection region. If you are using a non-standard RDS URL, please set the '' @
     [CHR 0x27] @ ''custom_endpoint_region'' @ [CHR 0x27] @ '' property''"

text \<open>
  What \<^verbatim>\<open>connect\<close> does before it hands the call to the next proxy; \<open>False\<close> when it returns without
  doing so. The wait follows with the descriptions other threads put into the cache.
\<close>

definition begin_connect :: "clock \<Rightarrow> data_source \<Rightarrow> string \<Rightarrow> ce_proxy \<Rightarrow> ce \<Rightarrow> bool \<times> bool \<times> ce_proxy \<times> ce" where
  "begin_connect clk ds host p0 w =
     (if \<not> is_rds_custom_cluster_dns host then (True, False, p0, w)
      else
        (let p = p0\<lparr>px_host := host, px_id := get_rds_cluster_id host\<rparr>
         in if px_id p = [] then (False, False, p\<lparr>px_error := Some ERR_NO_ENDPOINT_ID\<rparr>, w)
            else
              (let region = (if opt_given (ds ''CUSTOM_ENDPOINT_REGION'')
                             then (case ds_str ds ''CUSTOM_ENDPOINT_REGION'' of None \<Rightarrow> [] | Some r \<Rightarrow> r) else get_rds_region host);
                   p1 = p\<lparr>px_region := region\<rparr>
               in if region = [] then (False, False, p1\<lparr>px_error := Some ERR_NO_REGION\<rparr>, w)
                  else (case create_monitor_if_absent clk ds p1 w of
                          (m, w1) \<Rightarrow> (True, ds_bool ds ''WAIT_FOR_CUSTOM_ENDPOINT_INFO'', p1, w1)))))"

text \<open>What \<^verbatim>\<open>query\<close> and \<^verbatim>\<open>real_query\<close> do before they hand the call on.\<close>

definition begin_query :: "clock \<Rightarrow> data_source \<Rightarrow> ce_proxy \<Rightarrow> ce \<Rightarrow> bool \<times> ce" where
  "begin_query clk ds p w =
     (if px_host p \<noteq> []
      then (case create_monitor_if_absent clk ds p w of (m, w1) \<Rightarrow> (ds_bool ds ''WAIT_FOR_CUSTOM_ENDPOINT_INFO'', w1))
      else (False, w))"

section \<open>What the monitors and the proxy do\<close>

text \<open>
  The cached descriptions are objects that exist; so the pointer to a new description is never equal
  to the cached one, and every turn counts as a change.
\<close>

definition ce_ok :: "ce \<Rightarrow> bool" where
  "ce_ok w \<longleftrightarrow> cache_map_ok (ce_cache w) \<and> (\<forall>k r x. mentry (ce_cache w) k = Some (Some r, x) \<longrightarrow> r < length (ce_infos w))"

lemma ce_ok_frame [simp]: "ce_ok (w\<lparr>ce_tick := n\<rparr>) = ce_ok w" "ce_ok (w\<lparr>ce_mons := ms\<rparr>) = ce_ok w"
  by (simp_all add: ce_ok_def)

lemma from_db_cases:
  "from_db_cluster_endpoint e =
     (case map_of ROLE_TYPE_MAP (ep_type e) of
        None \<Rightarrow> Inl (Invalid_argument ''Invalid role type for custom endpoint, this should not have happened.'')
      | Some r \<Rightarrow> Inr \<lparr>endpoint_identifier = ep_identifier e, cluster_identifier = ep_cluster e, url = ep_url e, role_type = r,
          members = set (case static_members e of Some ms \<Rightarrow> ms | None \<Rightarrow> excluded_members e),
          member_list_type = (case static_members e of Some ms \<Rightarrow> STATIC_LIST | None \<Rightarrow> EXCLUSION_LIST)\<rparr>)"
  by (simp add: from_db_cluster_endpoint_def get_role_type_def split: option.splits)

text \<open>The filter that a sequence of answers of the service asks for, on top of the one before it.\<close>

definition filter_of :: "cluster_endpoint \<Rightarrow> string set \<times> string set" where
  "filter_of e = (case static_members e of Some ms \<Rightarrow> (set ms, {}) | None \<Rightarrow> ({}, set (excluded_members e)))"

definition role_known :: "cluster_endpoint \<Rightarrow> bool" where
  "role_known e \<longleftrightarrow> ep_type e \<in> {''ANY'', ''WRITER'', ''READER''}"

fun described :: "cluster_endpoint list list \<Rightarrow> (string set \<times> string set) option \<Rightarrow> (string set \<times> string set) option" where
  "described [] f = f"
| "described (a # as) f =
     (case a of [e] \<Rightarrow> if role_known e then described as (Some (filter_of e)) else f | _ \<Rightarrow> described as f)"

lemma role_known_iff: "role_known e \<longleftrightarrow> map_of ROLE_TYPE_MAP (ep_type e) \<noteq> None"
  by (auto simp: role_known_def ROLE_TYPE_MAP_def)

lemma from_db_known:
  assumes "role_known e"
  obtains i where "from_db_cluster_endpoint e = Inr i" "hosts_of i = filter_of e"
proof -
  obtain r where "map_of ROLE_TYPE_MAP (ep_type e) = Some r" using assms role_known_iff by auto
  then show ?thesis
    by (intro that [OF from_db_cases [THEN trans]])
      (auto simp: hosts_of_def filter_of_def get_static_members_def get_excluded_members_def split: option.splits)
qed

lemma from_db_unknown: "\<not> role_known e \<Longrightarrow> \<exists>x. from_db_cluster_endpoint e = Inl x"
  by (simp add: role_known_iff from_db_cases)

lemma round_known:
  assumes "role_known e" "ce_ok w" "steady clk" "monitor_round clk [e] mo w = (r, w')"
  shows "ce_ok w' \<and> ce_mons w' = ce_mons w \<and>
    ce_services w' = modify (mo_svc mo) (set_allowed_and_blocked_hosts (Some (filter_of e))) (ce_services w) \<and>
    (\<exists>t. r = Inr t) \<and> ce_tick w < ce_tick w' \<and>
    (clk (ce_tick w') \<le> clk (ce_tick w) + CUSTOM_ENDPOINT_INFO_EXPIRATION_NANOS \<longrightarrow> fst (has_custom_endpoint_info clk (mo_host mo) w'))"
proof -
  obtain i where i: "from_db_cluster_endpoint e = Inr i" "hosts_of i = filter_of e" using from_db_known [OF assms(1)] .
  let ?n = "Suc (ce_tick w)" and ?h = "mo_host mo" and ?r = "length (ce_infos w)"
  obtain c n where g: "mget clk ?n ?h None (ce_cache w) = (c, n)" by fastforce
  have n: "?n \<le> n" using g by (auto simp: mget_def split: option.splits)
  have ne: "c \<noteq> Some ?r"
    using g assms(2) by (fastforce simp: mget_def ce_ok_def split: option.splits if_splits)
  obtain cm k where p: "mput clk n ?h (Some ?r) CUSTOM_ENDPOINT_INFO_EXPIRATION_NANOS (ce_cache w) = (cm, k)" by fastforce
  have w': "w' = w\<lparr>ce_infos := ce_infos w @ [i], ce_services := modify (mo_svc mo) (set_allowed_and_blocked_hosts (Some (filter_of e))) (ce_services w),
      ce_cache := cm, ce_tick := Suc k\<rparr>" "\<exists>t. r = Inr t"
    using assms(4) i g p ne by (auto simp: monitor_round_def Let_def alloc_def sleep_time_def)
  have ok: "cache_map_ok (ce_cache w)" using assms(2) by (simp add: ce_ok_def)
  note f = mput_facts [OF p ok]
  have "rr < Suc ?r" if "mentry cm key = Some (Some rr, x)" for key rr x
    using keepsD(1) [OF f(3) [OF assms(3)], of key] that assms(2) by (fastforce simp: ce_ok_def split: if_splits)
  then have okc: "ce_ok w'" using f(1) w' by (auto simp: ce_ok_def)
  moreover have "fst (has_custom_endpoint_info clk ?h w')"
    if "clk (ce_tick w') \<le> clk (ce_tick w) + CUSTOM_ENDPOINT_INFO_EXPIRATION_NANOS"
  proof -
    have "clk (ce_tick w) \<le> clk n" "clk k \<le> clk (Suc k)" using steadyD [OF assms(3)] n by simp_all
    with that w' have "clk k \<le> clk n + CUSTOM_ENDPOINT_INFO_EXPIRATION_NANOS"
      "clk (Suc k) \<le> clk n + CUSTOM_ENDPOINT_INFO_EXPIRATION_NANOS" by auto
    with mput_live [OF p ok assms(3)] w' show ?thesis
      by (simp add: has_custom_endpoint_info_def mget_def is_expired_def)
  qed
  ultimately show ?thesis using w' n f(2) by simp
qed

lemma round_other:
  assumes "length a \<noteq> 1"
  shows "monitor_round clk a mo w = (Inr (mo_refresh mo), w\<lparr>ce_tick := Suc (ce_tick w)\<rparr>)"
  using assms by (auto simp: monitor_round_def Let_def split: list.splits)

lemma round_unknown:
  assumes "\<not> role_known e"
  shows "\<exists>x. monitor_round clk [e] mo w = (Inl x, w\<lparr>ce_tick := Suc (ce_tick w)\<rparr>)"
  using from_db_unknown [OF assms] by (auto simp: monitor_round_def Let_def)


definition ex_endpoint :: "string list option \<Rightarrow> cluster_endpoint" where
  "ex_endpoint ms = \<lparr>ep_identifier = ''mine'', ep_cluster = ''c'', ep_url = ''u'', ep_type = ''READER'',
     static_members = ms, excluded_members = [''i9'']\<rparr>"

definition ex_ce :: ce where
  "ex_ce = \<lparr>ce_infos = [], ce_cache = CACHE_MAP, ce_mons = [\<lparr>mo_host = ''h'', mo_id = ''mine'', mo_region = ''r'',
     mo_refresh = 30, mo_svc = 0, mo_stop = False\<rparr>], ce_monitors = SLIDING_EXPIRATION_CACHE None True 60,
     ce_services = [TOPOLOGY_SERVICE ''t'', TOPOLOGY_SERVICE ''t''], ce_pool = 1, ce_running = Some 0, ce_tick = 0\<rparr>"


text \<open>
  With static members exactly these are allowed. With excluded members the allowed set is empty, and
  since a host has to be in it, none is allowed any more.
\<close>

lemma allowed_by_description:
  assumes "allowed_and_blocked_hosts svc = Some (filter_of e)"
  shows "allowed_by svc hi \<longleftrightarrow> (case static_members e of Some ms \<Rightarrow> h_host_id hi \<in> set ms | None \<Rightarrow> False)"
  using assms by (auto simp: allowed_by_def filter_of_def allowed_host_def split: option.splits)

text \<open>The loop that waits for a description ends once the clock has passed the deadline, and tells truly whether there was one.\<close>

lemma wait_loop_stop:
  assumes "has \<or> deadline \<le> clk n"
  shows "wait_loop clk look deadline has n k = Some (has, if has then n else Suc n)"
  by (subst wait_loop.simps) (use assms in auto)

lemma wait_loop_ends:
  assumes "steady clk" "deadline \<le> clk (n + d)"
  shows "\<exists>n'. wait_loop clk look deadline has n k = Some (True, n') \<and> (has \<or> (\<exists>j \<ge> k. look j)) \<or>
    wait_loop clk look deadline has n k = Some (False, n') \<and> \<not> has \<and> n < n' \<and> deadline \<le> clk (n' - 1)"
  using assms
proof (induction d arbitrary: has n k)
  case 0
  then show ?case by (cases has) (simp_all add: wait_loop_stop)
next
  case (Suc d)
  show ?case
  proof (cases "has \<or> deadline \<le> clk n")
    case True
    then show ?thesis by (cases has) (simp_all add: wait_loop_stop)
  next
    case False
    have "wait_loop clk look deadline has n k = wait_loop clk look deadline (look k) (Suc n) (Suc k)"
      using False by (subst wait_loop.simps) simp
    moreover have "deadline \<le> clk (Suc n + d)" using Suc.prems by simp
    moreover have "look k \<or> (\<exists>j \<ge> Suc k. look j) \<Longrightarrow> \<exists>j \<ge> k. look j" using Suc_leD by blast
    ultimately show ?thesis using Suc.IH [of "Suc n" "look k" "Suc k"] Suc.prems(1) False
      by (metis Suc_lessD)
  qed
qed

lemma wait_for_info_returns:
  assumes "steady clk" "clk n + ds_int ds ''WAIT_FOR_CUSTOM_ENDPOINT_INFO_TIMEOUT_MS'' * 10 ^ 6 \<le> clk (Suc n + d)"
  shows "\<exists>p' n'. wait_for_custom_endpoint_info clk look ds p n = Some (p', n') \<and> (px_error p' = px_error p \<or> \<not> look 0)"
  using wait_loop_ends [OF assms, of look False 1]
  by (auto simp: wait_for_custom_endpoint_info_def)

text \<open>
  All monitors of an environment share one thread. While it is taken, a monitor made for another
  endpoint, or again for the same one, is cached but never runs; a stopped monitor stops the loop
  that happens to run.
\<close>

lemma second_monitor_idle:
  assumes "ce_pool w = 1" "clean_up clk (ce_tick w) (ce_monitors w) = (s, n)" "disposed s = disposed (ce_monitors w)"
    and "create_monitor_if_absent clk ds p w = (m, w')"
  shows "m = length (ce_mons w) \<and> ce_running w' = ce_running w \<and> ce_pool w' = 1"
  using assms by (auto simp: create_monitor_if_absent_def stop_dropped_def new_monitor_def alloc_def run_def Let_def)

lemma stop_clears:
  assumes "cache_map_ok (ce_cache w)" "steady clk" "m < length (ce_mons w)" "stop_monitor clk m w = w'"
  shows "mo_stop (ce_mons w' ! m) \<and> ce_running w' = None \<and> \<not> fst (has_custom_endpoint_info clk (mo_host (ce_mons w ! m)) w')"
proof -
  obtain cm n where r: "mremove clk (ce_tick w) (mo_host (ce_mons w ! m)) (ce_cache w) = (cm, n)" by fastforce
  have "mentry cm (mo_host (ce_mons w ! m)) = None"
    using keepsD(1) [OF mremove_facts(3) [OF r assms(1,2)], of "mo_host (ce_mons w ! m)"]
    by (cases "mentry cm (mo_host (ce_mons w ! m))") auto
  then show ?thesis using assms(3,4) r
    by (auto simp: stop_monitor_def has_custom_endpoint_info_def mget_def store_simps)
qed

text \<open>
  A connection to a host that is not a custom endpoint is handed on untouched. One to a custom endpoint
  is handed on with a new monitor, or refused with an error when there is no identifier or no region.
\<close>

lemma begin_connect_cases:
  assumes "begin_connect clk ds host p w = (go, wait, p', w')" "px_error p = None"
  shows "(go \<longleftrightarrow> px_error p' = None) \<and> (\<not> go \<longrightarrow> w' = w) \<and>
    (if is_rds_custom_cluster_dns host then px_host p' = host \<and> (go \<longrightarrow> px_id p' \<noteq> [] \<and> px_region p' \<noteq> [])
     else go \<and> \<not> wait \<and> p' = p \<and> w' = w)"
  using assms by (auto simp: begin_connect_def Let_def split: if_splits prod.splits)

end
