(* ===== verification/Date_Time.thy ===== *)
theory Date_Time
  imports Sql_Numeric
begin

text \<open>
  Dates and times: the conversions of \<^verbatim>\<open>driver/utility.cc\<close> from texts to the structures of ODBC, the
  columns that are read as dates and times (\<^verbatim>\<open>sql_get_data\<close> of \<^verbatim>\<open>driver/results.cc\<close>) and the parameters
  that are bound as such (\<^verbatim>\<open>driver/execute.cc\<close>). A text is the characters up to its terminator, or as
  many as its length says. Fields of \<^verbatim>\<open>SQLUSMALLINT\<close> and \<^verbatim>\<open>SQLUINTEGER\<close> are \<open>nat\<close>; the year is signed.
\<close>

section \<open>Structures\<close>

record SQL_DATE_STRUCT =
  d_year :: int
  d_month :: nat
  d_day :: nat

record SQL_TIME_STRUCT =
  t_hour :: nat
  t_minute :: nat
  t_second :: nat

record SQL_TIMESTAMP_STRUCT =
  ts_year :: int
  ts_month :: nat
  ts_day :: nat
  ts_hour :: nat
  ts_minute :: nat
  ts_second :: nat
  ts_fraction :: nat

text \<open>\<^verbatim>\<open>atoi\<close>, the lower half of \<^verbatim>\<open>strtol\<close>; integers of 32 bits with sign.\<close>

definition s32 :: "int \<Rightarrow> int" where
  "s32 i = (i + 2 ^ 31) mod 2 ^ 32 - 2 ^ 31"

definition atoi :: "string \<Rightarrow> int" where
  "atoi s = s32 (atol s)"

definition digit :: "char \<Rightarrow> nat" where
  "digit c = of_char c - 48"

definition two :: "string \<Rightarrow> nat \<Rightarrow> nat" where
  "two buff i = digit (buff ! i) * 10 + digit (buff ! (i + 1))"

section \<open>From texts to structures\<close>

subsection \<open>Fractions of seconds\<close>

text \<open>
  The digits go into a buffer of ten characters that holds nine zeros. A character that is not a digit
  is never passed, so that the places from there on keep their zeros.
\<close>

function fraction_loop :: "string \<Rightarrow> nat \<Rightarrow> string \<Rightarrow> string" where
  "fraction_loop buff ptr str =
     (if str \<noteq> [] \<and> ptr < 10
      then if is_c_digit (hd str) then fraction_loop (buff[ptr := hd str]) (Suc ptr) (tl str)
           else fraction_loop buff (Suc ptr) str
      else buff)"
  by pat_completeness auto
termination by (relation "measure (\<lambda>(buff, ptr, str). 10 - ptr)") auto

declare fraction_loop.simps [simp del]

text \<open>
  The position of the decimal point: a dot, looked for beyond \<open>len\<close> too, or the one of the locale.
\<close>

fun find_prefix :: "string \<Rightarrow> string \<Rightarrow> nat option" where
  "find_prefix p [] = None"
| "find_prefix p (c # s) = (if p \<noteq> [] \<and> take (length p) (c # s) = p then Some 0 else map_option Suc (find_prefix p s))"

definition get_fractional_part :: "string \<Rightarrow> string \<Rightarrow> nat \<Rightarrow> bool \<Rightarrow> nat option \<times> nat" where
  "get_fractional_part decimal_point str len dont_use_set_locale =
     (let decpoint_len = (if dont_use_set_locale then 1 else length decimal_point);
          decptr = (if dont_use_set_locale then find_char CHR ''.'' str
                    else (case find_prefix decimal_point str of Some p \<Rightarrow> if p < len then Some p else None | None \<Rightarrow> None))
      in case decptr of
           None \<Rightarrow> (None, 0)
         | Some p \<Rightarrow>
             if p + decpoint_len < len
             then (let buff = fraction_loop (replicate 9 CHR ''0'' @ [CHR 0x00]) 0 (drop (p + decpoint_len) (take len str))
                   in (Some p, nat (atoi (take 9 buff))))
             else (None, 0))"

subsection \<open>Timestamps\<close>

definition SQLTS_NULL_DATE :: int where
  "SQLTS_NULL_DATE = - 1"

definition SQLTS_BAD_DATE :: int where
  "SQLTS_BAD_DATE = - 2"

definition DATETIME_DIGITS :: nat where
  "DATETIME_DIGITS = 14"

text \<open>The digits of a text; \<open>None\<close> when there are too many.\<close>

fun collect_digits :: "string \<Rightarrow> string \<Rightarrow> string option" where
  "collect_digits buff [] = Some buff"
| "collect_digits buff (c # str) =
     (if is_c_digit c then if length buff < DATETIME_DIGITS then collect_digits (buff @ [c]) str else None
      else collect_digits buff str)"

text \<open>The century of a year of two digits.\<close>

definition century :: "char \<Rightarrow> string" where
  "century c = (if of_char c \<le> (of_char CHR ''6'' :: nat) then ''20'' else ''19'')"

definition with_century :: "string \<Rightarrow> string" where
  "with_century buff = (if length buff = 6 \<or> length buff = 12 then century (hd buff) @ buff else buff)"

text \<open>The fourteen digits of a timestamp, and a month or a day of zero.\<close>

definition ts_of_digits :: "bool \<Rightarrow> string \<Rightarrow> nat \<Rightarrow> int + SQL_TIMESTAMP_STRUCT" where
  "ts_of_digits zeroToMin buff frac =
     (let year = digit (buff ! 0) * 1000 + digit (buff ! 1) * 100 + digit (buff ! 2) * 10 + digit (buff ! 3);
          no_month = take 2 (drop 4 buff) = ''00''; no_day = take 2 (drop 6 buff) = ''00'';
          buff1 = (if no_month then buff[5 := CHR ''1''] else buff);
          buff2 = (if no_day then buff1[7 := CHR ''1''] else buff1)
      in if (no_month \<or> no_day) \<and> \<not> zeroToMin then Inl SQLTS_NULL_DATE
         else Inr \<lparr>ts_year = int year, ts_month = two buff2 4, ts_day = two buff2 6, ts_hour = two buff2 8,
                ts_minute = two buff2 10, ts_second = two buff2 12, ts_fraction = frac\<rparr>)"

definition str_to_ts :: "string \<Rightarrow> string \<Rightarrow> int \<Rightarrow> bool \<Rightarrow> bool \<Rightarrow> int + SQL_TIMESTAMP_STRUCT" where
  "str_to_ts decimal_point str len0 zeroToMin dont_use_set_locale =
     (let len = (if len0 < 0 then length str else nat len0)
      in case get_fractional_part decimal_point str len dont_use_set_locale of
           (decptr, frac) \<Rightarrow>
             (case collect_digits [] (take (case decptr of Some p \<Rightarrow> min p len | None \<Rightarrow> len) str) of
                None \<Rightarrow> Inl SQLTS_BAD_DATE
              | Some digits \<Rightarrow>
                  (let buff = with_century digits
                   in ts_of_digits zeroToMin (buff @ replicate (DATETIME_DIGITS - length buff) CHR ''0'') frac)))"

subsection \<open>Times\<close>

text \<open>
  The three numbers of a time, in a buffer of 24 characters; \<open>n\<close> counts the characters written. A
  character that is not a digit ends a number, also at the beginning.
\<close>

fun time_tokens :: "string \<Rightarrow> nat \<Rightarrow> string list \<Rightarrow> string list" where
  "time_tokens [] n tokens = tokens"
| "time_tokens (c # str) n tokens =
     (if n < 23
      then if is_c_digit c then time_tokens str (Suc n) (butlast tokens @ [last tokens @ [c]])
           else if length tokens < 3 then time_tokens str (Suc n) (tokens @ [[]])
           else tokens
      else tokens)"

definition token_value :: "string list \<Rightarrow> nat \<Rightarrow> int" where
  "token_value tokens i = (if i < length tokens then atoi (tokens ! i) else 0)"

definition to_usmallint :: "int \<Rightarrow> nat" where
  "to_usmallint i = nat (i mod 2 ^ 16)"

definition str_to_time_st :: "string \<Rightarrow> SQL_TIME_STRUCT" where
  "str_to_time_st str =
     (let tokens = time_tokens str 0 [[]];
          int_hour = token_value tokens 0; int_min = token_value tokens 1; int_sec = token_value tokens 2;
          (int_min, int_sec) = (if int_sec > 59 then (s32 (int_min + int_sec div 60), int_sec mod 60) else (int_min, int_sec));
          (int_hour, int_min) = (if int_min > 59 then (s32 (int_hour + int_min div 60), int_min mod 60) else (int_hour, int_min))
      in \<lparr>t_hour = to_usmallint (if int_hour < 65536 then int_hour else 65535), t_minute = to_usmallint int_min,
          t_second = to_usmallint int_sec\<rparr>)"

text \<open>A number read digit by digit into 32 bits, and the loops that skip what is not a digit.\<close>

definition uint_value :: "string \<Rightarrow> nat" where
  "uint_value ds = foldl (\<lambda>v c. u32 (v * 10 + digit c)) 0 ds"

definition skip_to_digit :: "string \<Rightarrow> string" where
  "skip_to_digit s = dropWhile (\<lambda>c. \<not> is_c_digit c) s"

fun time_fields :: "nat \<Rightarrow> string \<Rightarrow> nat list \<Rightarrow> nat list \<times> string" where
  "time_fields 0 str date = (date, str)"
| "time_fields (Suc k) str date =
     (if str = [] then (date, str)
      else time_fields k (skip_to_digit (dropWhile is_c_digit str)) (date @ [uint_value (takeWhile is_c_digit str)]))"

lemma skip_shorter: "length (skip_to_digit s) \<le> length s"
  by (simp add: skip_to_digit_def length_dropWhile_le)

lemma skip_digit: "skip_to_digit s = [] \<or> is_c_digit (hd (skip_to_digit s))"
  using hd_dropWhile [of "\<lambda>c. \<not> is_c_digit c" s] by (auto simp: skip_to_digit_def)

lemma time_fields_shorter:
  "time_fields k s date = (date', rest) \<Longrightarrow> s = [] \<or> is_c_digit (hd s) \<Longrightarrow> 0 < k \<Longrightarrow> s \<noteq> [] \<Longrightarrow> length rest < length s"
proof (induction k s date rule: time_fields.induct)
  case (2 k s date)
  let ?s = "skip_to_digit (dropWhile is_c_digit s)"
  have "length (dropWhile is_c_digit s) < length s" using 2(3,5) by (cases s) (auto simp: length_dropWhile_le less_Suc_eq_le)
  then have less: "length ?s < length s" using skip_shorter le_less_trans by blast
  have step: "time_fields k ?s (date @ [uint_value (takeWhile is_c_digit s)]) = (date', rest)" using 2 by simp
  show ?case
  proof (cases "k = 0 \<or> ?s = []")
    case True
    then have "rest = ?s" using step by (cases k) auto
    then show ?thesis using less by simp
  next
    case False
    with 2(1) [OF 2(5) step skip_digit] less show ?thesis by simp
  qed
qed simp

lemma time_rest_shorter:
  assumes "time_fields 3 (skip_to_digit str) [] = (date, rest)" "rest \<noteq> []"
  shows "length rest < length str"
proof -
  have "skip_to_digit str \<noteq> []" using assms by (auto simp: numeral_3_eq_3)
  from time_fields_shorter [OF assms(1) skip_digit _ this] show ?thesis using skip_shorter [of str] by simp
qed

text \<open>
  \<^verbatim>\<open>str_to_time_as_long\<close>: with more than three numbers the rest is read as a time of its own. \<open>None\<close>
  when there is no number at all; the code then reads a variable that was not set.
\<close>

function str_to_time_as_long :: "string \<Rightarrow> nat option" where
  "str_to_time_as_long str =
     (if str = [] then Some 0
      else (case time_fields 3 (skip_to_digit str) [] of
              (date, rest) \<Rightarrow>
                if rest \<noteq> [] then str_to_time_as_long rest
                else if date = [] then None
                else if hd date > 10000 \<or> length date < 3 then Some (hd date)
                else Some (date ! 0 * 10000 + (date ! 1 * 100 + date ! 2))))"
  by pat_completeness auto
termination by (relation "measure length") (auto dest: time_rest_shorter [OF sym])

declare str_to_time_as_long.simps [simp del]

subsection \<open>Dates\<close>

text \<open>Up to three numbers; a number has at most \<open>field_length + 1\<close> digits.\<close>

fun date_fields :: "nat \<Rightarrow> nat \<Rightarrow> string \<Rightarrow> nat list \<Rightarrow> nat list" where
  "date_fields 0 field_length str date = date"
| "date_fields (Suc k) field_length str date =
     (if str = [] then date
      else (let ds = take (Suc field_length) (takeWhile is_c_digit str)
            in date_fields k 1 (skip_to_digit (drop (length ds) str)) (date @ [uint_value ds])))"

text \<open>\<open>None\<close> is a date that ODBC cannot handle.\<close>

definition str_to_date :: "string \<Rightarrow> bool \<Rightarrow> SQL_DATE_STRUCT option" where
  "str_to_date str0 zeroToMin =
     (let str = skip_to_digit str0;
          digits = length (takeWhile is_c_digit str);
          year_length = (if digits = 4 \<or> digits = 8 \<or> digits \<ge> 14 then 4 else 2 :: nat);
          fields = date_fields 3 (year_length - 1) str [];
          i = length fields;
          date = fields @ replicate (3 - i) 0
      in if i \<le> 1 \<or> date ! 1 = 0 \<or> i > 2 \<and> date ! 2 = 0
         then if \<not> zeroToMin then None
              else Some \<lparr>d_year = int (date ! 0), d_month = if i > 1 \<and> date ! 1 \<noteq> 0 then date ! 1 else 1,
                         d_day = if i > 2 \<and> date ! 2 \<noteq> 0 then date ! 2 else 1\<rparr>
         else Some \<lparr>d_year = int (date ! 0), d_month = date ! 1, d_day = if i < 3 then 1 else date ! 2\<rparr>)"

subsection \<open>Timestamps of old servers\<close>

text \<open>
  A timestamp without separators, with or without the century, completed to the full format. The
  buffer has 21 characters; \<open>Inl\<close> is a text with so many digits that the loop leaves it, or with so few that
  the text is left.
\<close>

definition separator :: "nat \<Rightarrow> char" where
  "separator i = (if i < 2 then CHR ''-'' else if i = 2 then CHR '' '' else CHR '':'')"

fun copy_groups :: "nat \<Rightarrow> nat \<Rightarrow> string \<Rightarrow> string" where
  "copy_groups 0 i val = []"
| "copy_groups (Suc k) i val = take 2 val @ [separator i] @ copy_groups k (Suc i) (drop 2 val)"

fun zero_groups :: "nat \<Rightarrow> nat \<Rightarrow> string" where
  "zero_groups 0 i = []"
| "zero_groups (Suc k) i = ''00'' @ [separator i] @ zero_groups k (Suc i)"

definition complete_timestamp :: "string \<Rightarrow> exc + string option" where
  "complete_timestamp val0 =
     (let len0 = length val0;
          (front, val, len) =
            (if len0 = 6 \<or> len0 = 10 \<or> len0 = 12 then (century (hd val0), val0, len0)
             else (take 2 val0, drop 2 val0, len0 - 2));
          year = front @ take 2 val @ ''-'';
          val1 = drop 2 val;
          groups = len mod 32 div 2 - 1
      in if len0 < 4 then Inl Bad_pointer
         else if take 2 val1 = ''00'' then Inr None
         else if groups > 5 then Inl Bad_pointer
         else Inr (Some (year @ copy_groups groups 1 val1 @ zero_groups (5 - groups) (Suc groups))))"

section \<open>Columns\<close>

text \<open>
  What a column yields: no data, a value with or without the warning \<^verbatim>\<open>01S07\<close> on a lost fraction, or an
  error with its state and message.
\<close>

datatype 'a fetched = Null_data | Fetched 'a bool | Fetch_error string string

datatype field_type = MYSQL_TYPE_TIMESTAMP | MYSQL_TYPE_DATETIME | MYSQL_TYPE_DATE | MYSQL_TYPE_TIME | Other_type

definition get_data_date :: "bool \<Rightarrow> string \<Rightarrow> SQL_DATE_STRUCT fetched" where
  "get_data_date zero_date_to_min text =
     (case str_to_date text zero_date_to_min of Some d \<Rightarrow> Fetched d False | None \<Rightarrow> Null_data)"

definition get_data_interval :: "bool \<Rightarrow> field_type \<Rightarrow> string \<Rightarrow> SQL_TIME_STRUCT fetched" where
  "get_data_interval to_second ft text =
     (if ft = MYSQL_TYPE_TIME
      then (let ts = str_to_time_st text
            in if to_second then Fetched ts False else Fetched (ts\<lparr>t_second := 0\<rparr>) (t_second ts > 0))
      else Fetch_error ''07006'' ''Restricted data type attribute violation'')"

definition get_data_time :: "string \<Rightarrow> bool \<Rightarrow> field_type \<Rightarrow> string \<Rightarrow> SQL_TIME_STRUCT fetched" where
  "get_data_time decimal_point zero_date_to_min ft text =
     (if ft = MYSQL_TYPE_TIMESTAMP \<or> ft = MYSQL_TYPE_DATETIME
      then (case str_to_ts decimal_point text (- 3) zero_date_to_min True of
              Inl r \<Rightarrow> if r = SQLTS_BAD_DATE then Fetch_error ''22018'' ''Data value is not a valid time(stamp) value'' else Null_data
            | Inr ts \<Rightarrow> Fetched \<lparr>t_hour = ts_hour ts, t_minute = ts_minute ts, t_second = ts_second ts\<rparr> (ts_fraction ts > 0))
      else if ft = MYSQL_TYPE_DATE then Fetched \<lparr>t_hour = 0, t_minute = 0, t_second = 0\<rparr> False
      else (let ts = str_to_time_st text
            in if t_hour ts > 23 then Fetch_error ''22007'' ''Invalid time(hours) format. Use interval types instead''
               else Fetched ts (snd (get_fractional_part decimal_point text (length text) True) \<noteq> 0)))"

text \<open>A time read as a timestamp gets the current date of the client: \<open>local_date t\<close> is the date at \<open>t\<close> seconds.\<close>

definition get_data_timestamp ::
  "string \<Rightarrow> bool \<Rightarrow> (int \<Rightarrow> SQL_DATE_STRUCT) \<Rightarrow> int \<Rightarrow> field_type \<Rightarrow> string \<Rightarrow> SQL_TIMESTAMP_STRUCT fetched" where
  "get_data_timestamp decimal_point zero_date_to_min local_date now ft text =
     (if ft = MYSQL_TYPE_TIME
      then (let ts = str_to_time_st text;
                sec_time = (if t_hour ts > 23 then now + int (t_hour ts div 24 * 24 * 60 * 60) else now);
                hour = (if t_hour ts > 23 then t_hour ts mod 24 else t_hour ts);
                d = local_date sec_time
            in Fetched \<lparr>ts_year = d_year d, ts_month = d_month d, ts_day = d_day d, ts_hour = hour,
                 ts_minute = t_minute ts, ts_second = t_second ts, ts_fraction = 0\<rparr> False)
      else (case str_to_ts decimal_point text (- 3) zero_date_to_min True of
              Inl r \<Rightarrow> if r = SQLTS_BAD_DATE then Fetch_error ''22018'' ''Data value is not a valid date/time(stamp) value'' else Null_data
            | Inr ts \<Rightarrow> Fetched ts False))"

section \<open>Parameters\<close>

text \<open>\<^verbatim>\<open>%0wd\<close>: the digits filled up with zeros, the sign before them.\<close>

definition fmt :: "nat \<Rightarrow> nat \<Rightarrow> string" where
  "fmt w n = replicate (w - length (string_of_nat n)) CHR ''0'' @ string_of_nat n"

definition fmt_int :: "nat \<Rightarrow> int \<Rightarrow> string" where
  "fmt_int w i = (if i < 0 then ''-'' @ fmt (w - 1) (nat (- i)) else fmt w (nat i))"

definition time_text :: "nat \<Rightarrow> nat \<Rightarrow> nat \<Rightarrow> string" where
  "time_text h m s = fmt 2 h @ '':'' @ fmt 2 m @ '':'' @ fmt 2 s"

definition date_text :: "int \<Rightarrow> nat \<Rightarrow> nat \<Rightarrow> string" where
  "date_text y m d = fmt_int 4 y @ ''-'' @ fmt 2 m @ ''-'' @ fmt 2 d"

text \<open>The condition \<^verbatim>\<open>month == day == 1\<close> compares the truth value of \<^verbatim>\<open>month == day\<close> with 1.\<close>

definition param_date :: "bool \<Rightarrow> SQL_DATE_STRUCT \<Rightarrow> string" where
  "param_date min_date_to_zero date =
     (if min_date_to_zero \<and> d_year date = 0 \<and> d_month date = d_day date then ''0000-00-00''
      else date_text (d_year date) (d_month date) (d_day date))"

definition param_time :: "SQL_TIME_STRUCT \<Rightarrow> (string \<times> string) + string" where
  "param_time time =
     (if t_hour time > 23 then Inl (''22008'', ''Not a valid time value supplied'')
      else Inr (time_text (t_hour time) (t_minute time) (t_second time)))"

fun strip_zeros :: "string \<Rightarrow> nat \<Rightarrow> nat" where
  "strip_zeros buf 0 = 0"
| "strip_zeros buf (Suc pos) = (if buf ! Suc pos = CHR ''0'' then strip_zeros buf pos else Suc pos)"

definition fraction_text :: "nat \<Rightarrow> string" where
  "fraction_text f = (let buf = ''.'' @ fmt_int 9 (s32 (int f)) in take (Suc (strip_zeros buf 9)) buf)"

definition param_timestamp :: "bool \<Rightarrow> SQL_TIMESTAMP_STRUCT \<Rightarrow> string" where
  "param_timestamp min_date_to_zero time =
     (if min_date_to_zero \<and> ts_year time = 0 \<and> ts_month time = ts_day time then ''0000-00-00''
      else date_text (ts_year time) (ts_month time) (ts_day time)) @ '' '' @
     time_text (ts_hour time) (ts_minute time) (ts_second time) @
     (if ts_fraction time \<noteq> 0 then fraction_text (ts_fraction time) else [])"

definition interval_text :: "bool \<Rightarrow> bool \<Rightarrow> SQL_TIME_STRUCT \<Rightarrow> string" where
  "interval_text to_second ssps_used i =
     (let f = (\<lambda>n. fmt_int 2 (s32 (int n)));
          t = to_string (s32 (int (t_hour i))) @ '':'' @ f (t_minute i) @ '':'' @ (if to_second then f (t_second i) else ''00'')
      in if ssps_used then t else [CHR 0x27] @ t @ [CHR 0x27])"

text \<open>A text bound to a parameter of type time, with a decimal point that is always a dot. \<open>None\<close> as for the conversion.\<close>

definition insert_time :: "bool \<Rightarrow> string \<Rightarrow> ((string \<times> string) + string) option" where
  "insert_time bind data =
     (if snd (get_fractional_part [] data (length data) True) \<noteq> 0 then Some (Inl (''22008'', ''Fractional truncation''))
      else (case str_to_time_as_long data of
              None \<Rightarrow> None
            | Some time \<Rightarrow>
                if time div 10000 > 23 then Some (Inl (''22008'', ''Not a valid time value supplied''))
                else (let t = time_text (time div 10000) (time div 100 mod 100) (time mod 100)
                      in Some (Inr (if bind then t else [CHR 0x27] @ t @ [CHR 0x27])))))"

text \<open>The date and time inside \<^verbatim>\<open>{ts '...'}\<close>.\<close>

definition is_ts_char :: "char \<Rightarrow> bool" where
  "is_ts_char c \<longleftrightarrow> c \<in> set ''0123456789-:''"

fun trim_end :: "string \<Rightarrow> string" where
  "trim_end s = (if length s > 1 \<and> \<not> is_ts_char (last s) then trim_end (butlast s) else s)"

declare trim_end.simps [simp del]

definition get_date_time_substr :: "string \<Rightarrow> string option" where
  "get_date_time_substr data =
     (let s = dropWhile (\<lambda>c. \<not> is_ts_char c) data in if s = [] then None else Some (trim_end s))"

text \<open>
  The check of a text bound to a parameter of type date: a time in it is an overflow unless the option
  says otherwise; an escape sequence is not checked. The result of the conversion is not looked at; \<open>None\<close> when it failed, and the code reads a
  structure that was not set.
\<close>

definition time_fields_nonzero :: "SQL_TIMESTAMP_STRUCT \<Rightarrow> bool" where
  "time_fields_nonzero ts \<longleftrightarrow> ts_hour ts \<noteq> 0 \<or> ts_minute ts \<noteq> 0 \<or> ts_second ts \<noteq> 0 \<or> ts_fraction ts \<noteq> 0"

definition insert_date :: "bool \<Rightarrow> bool \<Rightarrow> string \<Rightarrow> ((string \<times> string) + string) option" where
  "insert_date bind no_date_overflow data =
     (if data \<noteq> [] \<and> hd data = CHR ''{'' then Some (Inr (if bind then (case get_date_time_substr data of Some t \<Rightarrow> t | None \<Rightarrow> []) else data))
      else (case str_to_ts [] data (int (length data)) True True of
              Inl r \<Rightarrow> None
            | Inr ts \<Rightarrow> if \<not> no_date_overflow \<and> time_fields_nonzero ts then Some (Inl (''22008'', ''Date overflow''))
                       else Some (Inr data)))"

section \<open>Digits\<close>

lemma fmt_one: "n < 10 \<Longrightarrow> fmt (Suc 0) n = [char_of (48 + n)]"
  by (simp add: fmt_def string_of_nat.simps [of n])

lemma fmt_step:
  assumes "1 < w"
  shows "fmt w n = fmt (w - 1) (n div 10) @ [char_of (48 + n mod 10)]"
proof -
  obtain k where w: "w = Suc (Suc k)" using assms by (cases w; cases "w - 1") auto
  show ?thesis
  proof (cases "n < 10")
    case True
    then show ?thesis using w by (simp add: fmt_def string_of_nat.simps [of n] replicate_append_same)
  next
    case False
    then show ?thesis using w by (simp add: fmt_def string_of_nat.simps [of n])
  qed
qed

lemma digit_char [simp]: "n < 10 \<Longrightarrow> digit (char_of (48 + n)) = n" "n < 10 \<Longrightarrow> is_c_digit (char_of (48 + n))"
  by (simp_all add: digit_def is_c_digit_def del: of_char_of)

lemma fmt_chars: "c \<in> set (fmt w n) \<Longrightarrow> is_c_digit c"
  using digits_of_string_of_nat [of c n] by (fastforce simp: fmt_def is_c_digit_def)

lemma filter_fmt [simp]: "filter is_c_digit (fmt w n) = fmt w n"
  by (simp add: filter_id_conv fmt_chars)

lemma fmt_facts:
  assumes "n < 10 ^ w" "0 < w"
  shows "length (fmt w n) = w" "\<forall>c\<in>set (fmt w n). is_c_digit c" "digits_value (fmt w n) = n"
proof -
  have "length (string_of_nat n) \<le> w" using assms length_digits by blast
  then show "length (fmt w n) = w" by (simp add: fmt_def)
  show "\<forall>c\<in>set (fmt w n). is_c_digit c"
    by (simp add: fmt_chars)
  show "digits_value (fmt w n) = n"
    by (simp add: fmt_def digits_value_append digits_value_zeros digits_value_string_of_nat)
qed

lemma fmt_two: "n < 100 \<Longrightarrow> fmt 2 n = [char_of (48 + n div 10), char_of (48 + n mod 10)]"
  using fmt_step [of 2 n] by (simp add: fmt_one)

lemma fmt_four:
  "n < 10000 \<Longrightarrow> fmt 4 n = [char_of (48 + n div 1000), char_of (48 + n div 100 mod 10), char_of (48 + n div 10 mod 10), char_of (48 + n mod 10)]"
  using fmt_step [of 4 n] fmt_step [of 3 "n div 10"] fmt_two [of "n div 100"] div_mult2_eq [of n 10 10] div_mult2_eq [of n 100 10] by simp

lemma atol_digits: "\<forall>c\<in>set s. is_c_digit c \<Longrightarrow> digits_value s < 2 ^ 63 \<Longrightarrow> atol s = int (digits_value s)"
proof -
  assume d: "\<forall>c\<in>set s. is_c_digit c" and v: "digits_value s < 2 ^ 63"
  have nd: "\<not> is_c_space c" "c \<noteq> CHR ''-''" "c \<noteq> CHR ''+''" if "is_c_digit c" for c
    using that by (auto simp: is_c_digit_def is_c_space_def)
  have "dropWhile is_c_space s = s" using d nd(1) by (cases s) auto
  moreover have t: "takeWhile is_c_digit s = s" using d by (simp add: takeWhile_eq_all_conv)
  moreover have "s = [] \<or> hd s \<noteq> CHR ''-'' \<and> hd s \<noteq> CHR ''+''" using d nd(2,3) by (cases s) auto
  ultimately show ?thesis using v by (auto simp: atol_def Let_def t)
qed

lemma s32_id: "- (2 ^ 31) \<le> i \<Longrightarrow> i < 2 ^ 31 \<Longrightarrow> s32 i = i"
  by (simp add: s32_def)

lemma atoi_digits: "\<forall>c\<in>set s. is_c_digit c \<Longrightarrow> digits_value s < 2 ^ 31 \<Longrightarrow> atoi s = int (digits_value s)"
  by (simp add: atoi_def atol_digits s32_id)

lemma collect_digits_filter:
  "length buff \<le> 14 \<Longrightarrow> collect_digits buff s =
     (if length buff + length (filter is_c_digit s) \<le> 14 then Some (buff @ filter is_c_digit s) else None)"
  by (induction buff s rule: collect_digits.induct) (auto simp: DATETIME_DIGITS_def)

section \<open>Fractions\<close>

lemma fraction_loop_digits:
  assumes "\<forall>c\<in>set u. is_c_digit c" "ptr + length u \<le> 10" "length buff = 10"
  shows "fraction_loop buff ptr u = take ptr buff @ u @ drop (ptr + length u) buff"
  using assms
proof (induction u arbitrary: ptr buff)
  case Nil
  then show ?case by (simp add: fraction_loop.simps)
next
  case (Cons c u)
  have "fraction_loop buff ptr (c # u) = fraction_loop (buff[ptr := c]) (Suc ptr) u"
    using Cons.prems by (subst fraction_loop.simps) simp
  also have "\<dots> = take (Suc ptr) (buff[ptr := c]) @ u @ drop (Suc ptr + length u) (buff[ptr := c])"
    using Cons.prems by (intro Cons.IH) auto
  also have "\<dots> = take ptr buff @ (c # u) @ drop (ptr + length (c # u)) buff"
    using Cons.prems by (simp add: take_Suc_conv_app_nth)
  finally show ?case .
qed

lemma strip_zeros_facts:
  "strip_zeros buf pos \<le> pos" "j \<le> pos \<Longrightarrow> strip_zeros buf pos < j \<Longrightarrow> buf ! j = CHR ''0''"
  by (induction pos) (auto simp: le_Suc_eq split: if_splits)

lemma take_zeros:
  assumes "\<And>j. k \<le> j \<Longrightarrow> j < length s \<Longrightarrow> s ! j = z" "k \<le> length s"
  shows "s = take k s @ replicate (length s - k) z"
  using assms by (intro nth_equalityI) (auto simp: nth_append)

text \<open>The printed fraction is the nine digits without the zeros at the end.\<close>

lemma fraction_text_digits:
  assumes "0 < f" "f < 10 ^ 9"
  obtains u where "fraction_text f = CHR ''.'' # u" "u \<noteq> []" "length u \<le> 9" "\<forall>c\<in>set u. is_c_digit c"
    "u @ replicate (9 - length u) CHR ''0'' = fmt 9 f"
proof -
  let ?d = "fmt 9 f" and ?k = "strip_zeros (CHR ''.'' # fmt 9 f) 9"
  note d = fmt_facts [OF assms(2)]
  have s: "s32 (int f) = int f" using assms by (intro s32_id) auto
  have "fraction_text f = CHR ''.'' # take ?k ?d" using s by (simp add: fraction_text_def fmt_int_def Let_def)
  moreover have eq: "?d = take ?k ?d @ replicate (9 - ?k) CHR ''0''"
  proof -
    have "?d ! j = CHR ''0''" if "?k \<le> j" "j < length ?d" for j
      using strip_zeros_facts(2) [of "Suc j" 9 "CHR ''.'' # ?d"] that d(1) by simp
    then show ?thesis using take_zeros [of ?k ?d "CHR ''0''"] d(1) strip_zeros_facts(1) [of "CHR ''.'' # ?d" 9] by simp
  qed
  moreover have "?k \<noteq> 0"
  proof
    assume "?k = 0"
    then have "digits_value ?d = 0" using eq digits_value_zeros by simp
    then show False using d(3) assms(1) by simp
  qed
  moreover have "?k \<le> 9" by (rule strip_zeros_facts(1))
  ultimately show ?thesis using d by (intro that [of "take ?k ?d"]) (auto dest: in_set_takeD)
qed

lemma fraction_read:
  assumes "0 < f" "f < 10 ^ 9" "CHR ''.'' \<notin> set s"
  shows "get_fractional_part dp (s @ fraction_text f) (length (s @ fraction_text f)) True = (Some (length s), f)"
proof -
  obtain u where u: "fraction_text f = CHR ''.'' # u" "u \<noteq> []" "length u \<le> 9" "\<forall>c\<in>set u. is_c_digit c"
    "u @ replicate (9 - length u) CHR ''0'' = fmt 9 f"
    using fraction_text_digits [OF assms(1,2)] .
  let ?z = "replicate 9 CHR ''0'' @ [CHR 0x00]"
  have "fraction_loop ?z 0 u = u @ drop (length u) ?z" using fraction_loop_digits [of u 0 ?z] u by simp
  also have "\<dots> = fmt 9 f @ [CHR 0x00]" using u(3,5) by simp
  finally have "take 9 (fraction_loop ?z 0 u) = fmt 9 f" using fmt_facts(1) [OF assms(2)] by simp
  moreover have "atoi (fmt 9 f) = int f"
    using atoi_digits [OF fmt_facts(2) [OF assms(2)]] fmt_facts(3) [OF assms(2)] assms(2) by simp
  ultimately show ?thesis using u(1,2) assms(3)
    by (simp add: get_fractional_part_def find_char_append Let_def)
qed

lemma no_fraction: "CHR ''.'' \<notin> set s \<Longrightarrow> get_fractional_part dp s len True = (None, 0)"
  by (simp add: get_fractional_part_def find_char_None [THEN iffD2])

section \<open>Round trips\<close>

lemma separators [simp]: "\<not> is_c_digit CHR ''-''" "\<not> is_c_digit CHR '':''" "\<not> is_c_digit CHR '' ''" "\<not> is_c_digit CHR ''.''"
  by (simp_all add: is_c_digit_def)

lemma digit_not_dot: "is_c_digit c \<Longrightarrow> c \<noteq> CHR ''.''"
  by (auto simp: is_c_digit_def)

lemma fmt_no_dot [simp]: "CHR ''.'' \<notin> set (fmt w n)"
  using digit_not_dot fmt_chars by blast

definition ts_valid :: "SQL_TIMESTAMP_STRUCT \<Rightarrow> bool" where
  "ts_valid ts \<longleftrightarrow> 0 \<le> ts_year ts \<and> ts_year ts \<le> 9999 \<and> 1 \<le> ts_month ts \<and> ts_month ts \<le> 12 \<and> 1 \<le> ts_day ts \<and> ts_day ts \<le> 31 \<and>
     ts_hour ts \<le> 23 \<and> ts_minute ts \<le> 59 \<and> ts_second ts \<le> 59 \<and> ts_fraction ts < 10 ^ 9"

text \<open>The digits of a timestamp, and reading a text that has them.\<close>

definition ts_digits :: "SQL_TIMESTAMP_STRUCT \<Rightarrow> string" where
  "ts_digits ts = fmt 4 (nat (ts_year ts)) @ fmt 2 (ts_month ts) @ fmt 2 (ts_day ts) @ fmt 2 (ts_hour ts) @ fmt 2 (ts_minute ts) @ fmt 2 (ts_second ts)"

lemma zero_char: "char_of (48 :: nat) = CHR ''0''"
  by code_simp

lemma two_chars: "[char_of (48 + n div 10), char_of (48 + n mod 10)] = ''00'' \<longleftrightarrow> n = 0" if "n < 100" for n :: nat
proof
  assume "[char_of (48 + n div 10), char_of (48 + n mod 10)] = ''00''"
  then have "digit (char_of (48 + n div 10)) = 0" "digit (char_of (48 + n mod 10)) = 0" by (simp_all add: digit_def)
  then have "n div 10 = 0" "n mod 10 = 0" using that by simp_all
  then show "n = 0" by arith
qed (simp add: zero_char)

lemma two_value: "n < 100 \<Longrightarrow> digit (char_of (48 + n div 10)) * 10 + digit (char_of (48 + n mod 10)) = n"
  by simp

lemma year_value:
  assumes "n < 10000"
  shows "digit (char_of (48 + n div 1000)) * 1000 + digit (char_of (48 + n div 100 mod 10)) * 100 +
    digit (char_of (48 + n div 10 mod 10)) * 10 + digit (char_of (48 + n mod 10)) = n"
proof -
  have "n div 1000 < 10" using assms by simp
  moreover have "n div 1000 * 1000 + n div 100 mod 10 * 100 + n div 10 mod 10 * 10 + n mod 10 = n"
  proof -
    have "n div 100 = n div 10 div 10" "n div 1000 = n div 100 div 10" by (simp_all flip: div_mult2_eq)
    then show ?thesis
      using div_mult_mod_eq [of n 10] div_mult_mod_eq [of "n div 10" 10] div_mult_mod_eq [of "n div 100" 10] by linarith
  qed
  ultimately show ?thesis by simp
qed

lemma read_ts_digits:
  assumes "ts_valid ts" "get_fractional_part dp str (length str) True = (decptr, ts_fraction ts)"
    "filter is_c_digit (take (case decptr of Some p \<Rightarrow> min p (length str) | None \<Rightarrow> length str) str) = ts_digits ts"
  shows "str_to_ts dp str (- 3) zeroToMin True = Inr ts"
proof -
  let ?y = "nat (ts_year ts)"
  have y: "?y < 10000" "int ?y = ts_year ts" using assms(1) by (auto simp: ts_valid_def)
  have b: "ts_month ts < 100" "ts_day ts < 100" "ts_hour ts < 100" "ts_minute ts < 100" "ts_second ts < 100"
    "0 < ts_month ts" "0 < ts_day ts" using assms(1) by (auto simp: ts_valid_def)
  have d: "ts_digits ts = [char_of (48 + ?y div 1000), char_of (48 + ?y div 100 mod 10), char_of (48 + ?y div 10 mod 10), char_of (48 + ?y mod 10),
      char_of (48 + ts_month ts div 10), char_of (48 + ts_month ts mod 10), char_of (48 + ts_day ts div 10), char_of (48 + ts_day ts mod 10),
      char_of (48 + ts_hour ts div 10), char_of (48 + ts_hour ts mod 10), char_of (48 + ts_minute ts div 10), char_of (48 + ts_minute ts mod 10),
      char_of (48 + ts_second ts div 10), char_of (48 + ts_second ts mod 10)]"
    using b by (simp add: ts_digits_def fmt_two fmt_four [OF y(1)])
  have c: "collect_digits [] (take (case decptr of Some p \<Rightarrow> min p (length str) | None \<Rightarrow> length str) str) = Some (ts_digits ts)"
    using assms(3) by (simp add: collect_digits_filter d)
  have "str_to_ts dp str (- 3) zeroToMin True = Inr \<lparr>ts_year = int ?y, ts_month = ts_month ts, ts_day = ts_day ts, ts_hour = ts_hour ts,
      ts_minute = ts_minute ts, ts_second = ts_second ts, ts_fraction = ts_fraction ts\<rparr>"
    unfolding str_to_ts_def ts_of_digits_def using assms(2) c two_chars [OF b(1)] two_chars [OF b(2)] b(6,7)
    by (auto simp: d with_century_def DATETIME_DIGITS_def two_def two_value [OF b(1)] two_value [OF b(2)] two_value [OF b(3)] two_value [OF b(4)]
      two_value [OF b(5)] year_value [OF y(1)] Let_def simp del: digit_char of_nat_add of_nat_mult)
  then show ?thesis using y(2) by simp
qed

lemma texts_digits:
  assumes "0 \<le> ts_year ts"
  shows "filter is_c_digit (date_text (ts_year ts) (ts_month ts) (ts_day ts) @ '' '' @ time_text (ts_hour ts) (ts_minute ts) (ts_second ts)) = ts_digits ts"
    "CHR ''.'' \<notin> set (date_text (ts_year ts) (ts_month ts) (ts_day ts) @ '' '' @ time_text (ts_hour ts) (ts_minute ts) (ts_second ts))"
  using assms by (auto simp: date_text_def time_text_def ts_digits_def fmt_int_def)

lemma timestamp_read:
  assumes "ts_valid ts" "\<not> (min_date_to_zero \<and> ts_year ts = 0 \<and> ts_month ts = ts_day ts)"
  shows "str_to_ts dp (param_timestamp min_date_to_zero ts) (- 3) zeroToMin True = Inr ts"
proof -
  let ?main = "date_text (ts_year ts) (ts_month ts) (ts_day ts) @ '' '' @ time_text (ts_hour ts) (ts_minute ts) (ts_second ts)"
  let ?text = "param_timestamp min_date_to_zero ts"
  have t: "?text = ?main @ (if ts_fraction ts \<noteq> 0 then fraction_text (ts_fraction ts) else [])"
    using assms(2) by (auto simp: param_timestamp_def)
  have "0 \<le> ts_year ts" using assms(1) by (simp add: ts_valid_def)
  note m = texts_digits [OF this]
  show ?thesis
  proof (cases "ts_fraction ts = 0")
    case True
    have "get_fractional_part dp ?main (length ?main) True = (None, 0)"
      using m(2) by (rule no_fraction)
    then show ?thesis using read_ts_digits [OF assms(1), of dp ?main None] m(1) True t by simp
  next
    case False
    then have f: "0 < ts_fraction ts" "ts_fraction ts < 10 ^ 9" using assms(1) by (auto simp: ts_valid_def)
    show ?thesis
      using read_ts_digits [OF assms(1), of dp ?text "Some (length ?main)"] fraction_read [OF f m(2), of dp] m(1) t False by simp
  qed
qed

text \<open>
  C2. A timestamp bound as a parameter and read back from a column of the same text is the same
  timestamp, with all nine digits of its fraction, whatever the option for zero dates of columns. The
  option that turns the smallest date into zeros must not apply to it.
\<close>

theorem timestamp_round_trip:
  assumes "ts_valid ts" "\<not> (min_date_to_zero \<and> ts_year ts = 0 \<and> ts_month ts = ts_day ts)" "ft \<noteq> MYSQL_TYPE_TIME"
  shows "get_data_timestamp dp zero_date_to_min local_date now ft (param_timestamp min_date_to_zero ts) = Fetched ts False"
  using timestamp_read [OF assms(1,2)] assms(3) by (simp add: get_data_timestamp_def)

definition ex_ts :: SQL_TIMESTAMP_STRUCT where
  "ex_ts = \<lparr>ts_year = 2024, ts_month = 2, ts_day = 29, ts_hour = 23, ts_minute = 5, ts_second = 7, ts_fraction = 120000000\<rparr>"

theorem timestamp_round_trip_witness:
  "ts_valid ex_ts \<and>
   get_data_timestamp ''.'' False (\<lambda>_. \<lparr>d_year = 2024, d_month = 1, d_day = 1\<rparr>) 0 MYSQL_TYPE_DATETIME (param_timestamp True ex_ts) = Fetched ex_ts False"
proof -
  have ok: "ts_valid ex_ts" "\<not> (True \<and> ts_year ex_ts = 0 \<and> ts_month ex_ts = ts_day ex_ts)" "MYSQL_TYPE_DATETIME \<noteq> MYSQL_TYPE_TIME"
    by (simp_all add: ex_ts_def ts_valid_def)
  show ?thesis using timestamp_round_trip [OF ok] ok(1) by simp
qed

text \<open>
  A time of three numbers keeps its value, with minutes and seconds below sixty, as long as the hours
  fit their field.
\<close>

lemma time_tokens_digits:
  assumes "\<forall>c\<in>set u. is_c_digit c" "n + length u \<le> 23"
  shows "time_tokens (u @ s) n (ts @ [v]) = time_tokens s (n + length u) (ts @ [v @ u])"
  using assms by (induction u arbitrary: n v) auto

lemma time_tokens_three:
  assumes "\<forall>c\<in>set (a @ b @ c). is_c_digit c" "length (a @ b @ c) \<le> 21"
  shows "time_tokens (a @ '':'' @ b @ '':'' @ c) 0 [[]] = [a, b, c]"
proof -
  have "time_tokens (a @ '':'' @ b @ '':'' @ c) 0 [[]] = time_tokens (b @ '':'' @ c) (Suc (length a)) ([a] @ [[]])"
    using time_tokens_digits [of a 0 "'':'' @ b @ '':'' @ c" "[]" "[]"] assms by auto
  also have "\<dots> = time_tokens c (Suc (Suc (length a + length b))) ([a, b] @ [[]])"
    using time_tokens_digits [of b "Suc (length a)" "'':'' @ c" "[a]" "[]"] assms by auto
  also have "\<dots> = [a, b, c]"
    using time_tokens_digits [of c "Suc (Suc (length a + length b))" "[]" "[a, b]" "[]"] assms by auto
  finally show ?thesis .
qed

lemma time_value:
  assumes "\<forall>c\<in>set (a @ b @ c). is_c_digit c" "length a \<le> 7" "length b \<le> 7" "length c \<le> 7"
    and "t = str_to_time_st (a @ '':'' @ b @ '':'' @ c)"
    and "secs = digits_value a * 3600 + digits_value b * 60 + digits_value c" "secs < 65536 * 3600"
  shows "t_hour t * 3600 + t_minute t * 60 + t_second t = secs \<and> t_minute t < 60 \<and> t_second t < 60"
proof -
  have small: "digits_value s < 10000000" if "\<forall>c\<in>set s. is_c_digit c" "length s \<le> 7" for s
    using digits_value_less [OF that(1)] power_increasing [OF that(2), of "10::nat"] by simp
  have v: "digits_value a < 10000000" "digits_value b < 10000000" "digits_value c < 10000000"
    using small assms(1-4) by auto
  have at: "atoi s = int (digits_value s)" if "\<forall>c\<in>set s. is_c_digit c" "digits_value s < 10000000" for s
    using atoi_digits [OF that(1)] that(2) by simp
  define m where "m = digits_value b + digits_value c div 60"
  define h where "h = digits_value a + m div 60"
  have secs: "secs = h * 3600 + m mod 60 * 60 + digits_value c mod 60"
  proof -
    have "m = m div 60 * 60 + m mod 60" "digits_value c = digits_value c div 60 * 60 + digits_value c mod 60" by (simp_all only: div_mult_mod_eq)
    moreover have "h * 3600 = digits_value a * 3600 + m div 60 * 3600" "m * 60 = digits_value b * 60 + digits_value c div 60 * 60"
      by (simp_all add: h_def m_def add_mult_distrib)
    ultimately show ?thesis using assms(6) by linarith
  qed
  have h: "h < 65536" using assms(7) secs by linarith
  have hm: "h < 2 ^ 30" "m < 2 ^ 30" using v unfolding h_def m_def by simp_all
  have i: "s32 (int k) = int k" if "k < 2 ^ 30" for k using that by (intro s32_id) auto
  have tok: "token_value (time_tokens (a @ '':'' @ b @ '':'' @ c) 0 [[]]) 0 = int (digits_value a)"
    "token_value (time_tokens (a @ '':'' @ b @ '':'' @ c) 0 [[]]) 1 = int (digits_value b)"
    "token_value (time_tokens (a @ '':'' @ b @ '':'' @ c) 0 [[]]) 2 = int (digits_value c)"
    using time_tokens_three [OF assms(1)] assms(1-4) v at by (auto simp: token_value_def)
  have im: "(if int (digits_value c) > 59 then (s32 (int (digits_value b) + int (digits_value c) div 60), int (digits_value c) mod 60)
      else (int (digits_value b), int (digits_value c))) = (int m, int (digits_value c mod 60))"
    using i [OF hm(2)] by (auto simp: m_def zdiv_int zmod_int)
  have ih: "(if int m > 59 then (s32 (int (digits_value a) + int m div 60), int m mod 60) else (int (digits_value a), int m)) = (int h, int (m mod 60))"
    using i [OF hm(1)] by (auto simp: h_def zdiv_int zmod_int)
  have "t = \<lparr>t_hour = h, t_minute = m mod 60, t_second = digits_value c mod 60\<rparr>"
    using assms(5) h unfolding str_to_time_st_def tok im ih Let_def prod.case by (simp add: to_usmallint_def nat_mod_distrib)
  then show ?thesis using secs by simp
qed

lemma time_round_trip:
  assumes "t_hour t \<le> 23" "t_minute t \<le> 59" "t_second t \<le> 59"
  shows "\<exists>text. param_time t = Inr text \<and> get_data_time dp zero_date_to_min MYSQL_TYPE_TIME text = Fetched t False"
proof -
  let ?a = "fmt 2 (t_hour t)" and ?b = "fmt 2 (t_minute t)" and ?c = "fmt 2 (t_second t)"
  let ?text = "time_text (t_hour t) (t_minute t) (t_second t)"
  have dig: "\<forall>c\<in>set (?a @ ?b @ ?c). is_c_digit c" using fmt_chars by auto
  have len: "length ?a \<le> 7" "length ?b \<le> 7" "length ?c \<le> 7" using assms fmt_facts(1) [of _ 2] by simp_all
  have val: "digits_value ?a = t_hour t" "digits_value ?b = t_minute t" "digits_value ?c = t_second t"
    using assms fmt_facts(3) [of _ 2] by simp_all
  define r where "r = str_to_time_st ?text"
  have "t_hour r * 3600 + t_minute r * 60 + t_second r = t_hour t * 3600 + t_minute t * 60 + t_second t \<and> t_minute r < 60 \<and> t_second r < 60"
    using time_value [OF dig len _ refl, of r] assms val by (simp add: r_def time_text_def)
  note eq = this
  have "t_hour r = t_hour t" using eq assms by linarith
  moreover have "t_minute r = t_minute t" using eq assms calculation by linarith
  moreover have "t_second r = t_second t" using eq assms calculation by linarith
  ultimately have "r = t" by simp
  moreover have "CHR ''.'' \<notin> set ?text" by (simp add: time_text_def)
  then have "snd (get_fractional_part dp ?text (length ?text) True) = 0" by (simp add: no_fraction)
  ultimately show ?thesis using assms(1) by (simp add: param_time_def get_data_time_def r_def Let_def)
qed

lemma uint_value_digits:
  "\<forall>c\<in>set s. is_c_digit c \<Longrightarrow> digits_value s < 2 ^ 32 \<Longrightarrow> uint_value s = digits_value s"
proof (induction s rule: rev_induct)
  case (snoc c s)
  have "digits_value (s @ [c]) = digits_value s * 10 + digit c" by (simp add: digits_value_def digit_def mult.commute)
  then show ?case using snoc by (simp add: uint_value_def u32_def)
qed (simp add: uint_value_def digits_value_def)

lemma takeWhile_fmt [simp]: "\<not> is_c_digit c \<Longrightarrow> takeWhile is_c_digit (fmt w n @ c # s) = fmt w n" "takeWhile is_c_digit (fmt w n) = fmt w n"
  using fmt_chars by (auto simp: takeWhile_append2 takeWhile_eq_all_conv)

lemma skip_fmt [simp]: "0 < w \<Longrightarrow> n < 10 ^ w \<Longrightarrow> skip_to_digit (fmt w n @ s) = fmt w n @ s" "\<not> is_c_digit c \<Longrightarrow> skip_to_digit (c # s) = skip_to_digit s"
  "skip_to_digit [] = []"
proof -
  assume "0 < w" "n < 10 ^ w"
  then have "fmt w n \<noteq> []" using fmt_facts(1) [of n w] by auto
  then obtain c u where "fmt w n = c # u" "is_c_digit c" using fmt_chars by (metis list.exhaust list.set_intros(1))
  then show "skip_to_digit (fmt w n @ s) = fmt w n @ s" by (simp add: skip_to_digit_def)
qed (simp_all add: skip_to_digit_def)

lemma date_round_trip:
  assumes "0 \<le> d_year d" "d_year d \<le> 9999" "1 \<le> d_month d" "d_month d \<le> 12" "1 \<le> d_day d" "d_day d \<le> 31"
    "\<not> (min_date_to_zero \<and> d_year d = 0 \<and> d_month d = d_day d)"
  shows "get_data_date zero_date_to_min (param_date min_date_to_zero d) = Fetched d False"
proof -
  let ?y = "fmt 4 (nat (d_year d))" and ?m = "fmt 2 (d_month d)" and ?d = "fmt 2 (d_day d)"
  have bounds: "nat (d_year d) < 10 ^ 4" "d_month d < 10 ^ 2" "d_day d < 10 ^ 2" using assms by simp_all
  note f = fmt_facts(1,3) [OF bounds(1)] fmt_facts(1,3) [OF bounds(2)] fmt_facts(1,3) [OF bounds(3)]
  have u: "uint_value ?y = nat (d_year d)" "uint_value ?m = d_month d" "uint_value ?d = d_day d"
    using f bounds by (simp_all add: uint_value_digits fmt_chars)
  have ne: "?y \<noteq> []" "?m \<noteq> []" "?d \<noteq> []" using f by auto
  have tx: "param_date min_date_to_zero d = ?y @ CHR ''-'' # ?m @ CHR ''-'' # ?d"
    using assms(1,7) by (auto simp: param_date_def date_text_def fmt_int_def)
  have sk: "skip_to_digit (?y @ s) = ?y @ s" "skip_to_digit (?m @ s) = ?m @ s" "skip_to_digit ?d = ?d" for s
    using bounds skip_fmt(1) [of 2 "d_day d" "[]"] by simp_all
  have "date_fields 3 3 (?y @ CHR ''-'' # ?m @ CHR ''-'' # ?d) [] = [nat (d_year d), d_month d, d_day d]"
    using f ne u sk by (simp add: numeral_3_eq_3)
  then have "str_to_date (param_date min_date_to_zero d) zero_date_to_min = Some \<lparr>d_year = int (nat (d_year d)), d_month = d_month d, d_day = d_day d\<rparr>"
    using assms(3,5) f(1) sk(1) by (simp add: str_to_date_def tx Let_def)
  then show ?thesis using assms(1) by (simp add: get_data_date_def)
qed

section \<open>Old timestamps\<close>

text \<open>
  A timestamp of an old server, with fourteen or eight digits, or with twelve or six and no century,
  is completed to a text that is read as the digits are.
\<close>

lemma copy_groups_digits:
  "\<forall>c\<in>set v. is_c_digit c \<Longrightarrow> length v = 2 * k \<Longrightarrow> filter is_c_digit (copy_groups k i v) = v"
proof (induction k i v rule: copy_groups.induct)
  case (2 k i val)
  have "\<forall>c\<in>set (drop 2 val). is_c_digit c" "\<forall>c\<in>set (take 2 val). is_c_digit c" using 2(2) in_set_dropD in_set_takeD by metis+
  then show ?case using 2(1,3) by (simp add: separator_def)
qed simp

lemma zero_groups_digits: "filter is_c_digit (zero_groups k i) = replicate (2 * k) CHR ''0''"
  by (induction k arbitrary: i) (simp_all add: separator_def is_c_digit_def)

lemma zero_groups_length: "length (zero_groups m j) = 3 * m"
  by (induction m arbitrary: j) simp_all

lemma copy_groups_length: "length v = 2 * k \<Longrightarrow> length (copy_groups k i v) = 3 * k"
  by (induction k i v rule: copy_groups.induct) simp_all

lemma copy_groups_chars: "c \<in> set (copy_groups k i v) \<Longrightarrow> c \<in> set v \<or> c \<in> {CHR ''-'', CHR '' '', CHR '':''}"
  by (induction k i v rule: copy_groups.induct) (auto simp: separator_def dest: in_set_takeD in_set_dropD split: if_splits)

lemma zero_groups_chars: "c \<in> set (zero_groups k i) \<Longrightarrow> c \<in> {CHR ''0'', CHR ''-'', CHR '' '', CHR '':''}"
  by (induction k arbitrary: i) (auto simp: separator_def split: if_splits)

lemma groups_last:
  "copy_groups (Suc k) i v \<noteq> [] \<and> \<not> is_c_digit (last (copy_groups (Suc k) i v))"
  "zero_groups (Suc k) i \<noteq> [] \<and> \<not> is_c_digit (last (zero_groups (Suc k) i))"
proof -
  have sep: "\<not> is_c_digit (separator j)" for j by (simp add: separator_def)
  show "copy_groups (Suc k) i v \<noteq> [] \<and> \<not> is_c_digit (last (copy_groups (Suc k) i v))"
  proof (induction k arbitrary: i v)
    case (Suc k)
    show ?case using Suc [of "Suc i" "drop 2 v"] by (simp only: copy_groups.simps(2) [of "Suc k"]) simp
  qed (simp add: sep)
  show "zero_groups (Suc k) i \<noteq> [] \<and> \<not> is_c_digit (last (zero_groups (Suc k) i))"
  proof (induction k arbitrary: i)
    case (Suc k)
    show ?case using Suc [of "Suc i"] by (simp only: zero_groups.simps(2) [of "Suc k"]) simp
  qed (simp add: sep)
qed

lemma str_to_ts_same_digits:
  assumes "CHR ''.'' \<notin> set s" "CHR ''.'' \<notin> set s'" "length (filter is_c_digit s) \<le> 14" "length (filter is_c_digit s') \<le> 14"
    and "with_century (filter is_c_digit s) @ replicate (14 - length (with_century (filter is_c_digit s))) CHR ''0'' =
      with_century (filter is_c_digit s') @ replicate (14 - length (with_century (filter is_c_digit s'))) CHR ''0''"
  shows "str_to_ts dp s (- 3) z True = str_to_ts dp s' (- 3) z True"
  using assms by (simp add: str_to_ts_def no_fraction collect_digits_filter DATETIME_DIGITS_def Let_def)

lemma complete_timestamp_read:
  assumes "\<forall>c\<in>set v. is_c_digit c" "length v \<in> {6, 8, 12, 14}" "complete_timestamp v \<noteq> Inr None"
  shows "\<exists>c. complete_timestamp v = Inr (Some c) \<and> length c = 20 \<and> str_to_ts dp (take 19 c) (- 3) z True = str_to_ts dp v (- 3) z True"
proof -
  define w where "w = with_century v"
  define k where "k = (length w - 4) div 2"
  define c where "c = take 4 w @ ''-'' @ copy_groups k 1 (drop 4 w) @ zero_groups (5 - k) (Suc k)"
  have cent: "length (century x) = 2" "\<forall>c\<in>set (century x). is_c_digit c" for x by (auto simp: century_def is_c_digit_def)
  have w: "length w = 8 \<or> length w = 14" "\<forall>c\<in>set w. is_c_digit c"
    using assms(1,2) cent by (auto simp: w_def with_century_def)
  have k: "length (drop 4 w) = 2 * k" "k = 2 \<or> k = 5" using w(1) by (auto simp: k_def)
  have split4: "take 4 v = take 2 v @ take 2 (drop 2 v)" using take_add [of 2 2 v] by simp
  have ct: "complete_timestamp v = (if take 2 (drop 4 w) = ''00'' then Inr None
      else Inr (Some (take 4 w @ ''-'' @ copy_groups k 1 (drop 4 w) @ zero_groups (5 - k) (Suc k))))"
  proof -
    consider "length v = 6 \<or> length v = 12" | "length v = 8 \<or> length v = 14" using assms(2) by auto
    then show ?thesis
    proof cases
      case 1
      then have ww: "w = century (hd v) @ v" "k = length v div 2 - 1" using cent by (auto simp: w_def k_def with_century_def)
      show ?thesis using 1 unfolding ww by (auto simp: complete_timestamp_def cent(1))
    next
      case 2
      then have ww: "w = v" "k = (length v - 2) div 2 - 1" by (auto simp: w_def k_def with_century_def)
      show ?thesis using 2 unfolding ww by (auto simp: complete_timestamp_def split4)
    qed
  qed
  then have "complete_timestamp v = Inr (Some c) \<or> complete_timestamp v = Inr None" by (auto simp: c_def)
  then have c: "complete_timestamp v = Inr (Some c)" using assms(3) by simp
  have len: "length c = 20" using w(1) k by (auto simp: c_def copy_groups_length zero_groups_length)
  have last: "\<not> is_c_digit (last c)"
    using k(2) groups_last(1) [of 4 1 "drop 4 w"] groups_last(2) [of 2 3] by (auto simp: c_def)
  have "filter is_c_digit c = take 4 w @ drop 4 w @ replicate (2 * (5 - k)) CHR ''0''"
  proof -
    have "\<forall>c\<in>set (drop 4 w). is_c_digit c" "filter is_c_digit (take 4 w) = take 4 w"
      using w(2) by (auto simp: filter_id_conv dest: in_set_takeD in_set_dropD)
    then show ?thesis using k(1) unfolding c_def filter_append by (simp only: copy_groups_digits zero_groups_digits) simp
  qed
  also have "\<dots> = w @ replicate (14 - length w) CHR ''0''" using w(1) by (auto simp: k_def simp flip: append_assoc)
  finally have fc: "filter is_c_digit c = w @ replicate (14 - length w) CHR ''0''" .
  have "c = take 19 c @ [last c]" using len by (cases c rule: rev_cases) simp_all
  then have ft: "filter is_c_digit (take 19 c) = w @ replicate (14 - length w) CHR ''0''"
    using fc last by (metis append_Nil2 filter.simps(1,2) filter_append)
  have dots: "CHR ''.'' \<notin> set c" "CHR ''.'' \<notin> set v"
    using w(2) assms(1) copy_groups_chars [of "CHR ''.''" k 1 "drop 4 w"] zero_groups_chars [of "CHR ''.''" "5 - k" "Suc k"]
    by (auto simp: c_def dest: in_set_takeD in_set_dropD digit_not_dot)
  have fv: "filter is_c_digit v = v" using assms(1) by (simp add: filter_id_conv)
  have "str_to_ts dp (take 19 c) (- 3) z True = str_to_ts dp v (- 3) z True"
  proof (rule str_to_ts_same_digits)
    show "CHR ''.'' \<notin> set (take 19 c)" using dots(1) in_set_takeD by fast
    show "CHR ''.'' \<notin> set v" by (rule dots(2))
    show "length (filter is_c_digit (take 19 c)) \<le> 14" using ft w(1) by auto
    show "length (filter is_c_digit v) \<le> 14" using fv assms(2) by auto
    show "with_century (filter is_c_digit (take 19 c)) @ replicate (14 - length (with_century (filter is_c_digit (take 19 c)))) CHR ''0'' =
      with_century (filter is_c_digit v) @ replicate (14 - length (with_century (filter is_c_digit v))) CHR ''0''"
      unfolding ft fv w_def [symmetric] using w(1) by (auto simp: with_century_def)
  qed
  with c len show ?thesis by blast
qed

section \<open>Texts bound as times\<close>

lemma time_fields_fmt:
  assumes "0 < w" "w \<le> 9" "n < 10 ^ w"
  shows "\<not> is_c_digit c \<Longrightarrow> time_fields (Suc k) (fmt w n @ c # rest) date = time_fields k (skip_to_digit rest) (date @ [n])"
    "time_fields (Suc k) (fmt w n) date = (date @ [n], [])"
proof -
  have "(10::nat) ^ w \<le> 10 ^ 9" using assms(2) by (intro power_increasing) simp_all
  then have u: "uint_value (fmt w n) = n" using fmt_facts [OF assms(3,1)] assms(3) by (simp add: uint_value_digits)
  have ne: "fmt w n \<noteq> []" using fmt_facts(1) [OF assms(3,1)] assms(1) by auto
  have dw: "dropWhile is_c_digit (fmt w n) = []" using fmt_chars by simp
  show "time_fields (Suc k) (fmt w n) date = (date @ [n], [])" using u ne by (cases k) (simp_all add: dw)
  show "time_fields (Suc k) (fmt w n @ c # rest) date = time_fields k (skip_to_digit rest) (date @ [n])" if "\<not> is_c_digit c"
    using u ne that fmt_chars [of _ w n] by (simp add: dropWhile_append2)
qed

lemma time_of_text:
  assumes "h < 24" "m < 60" "s < 60"
  shows "str_to_time_as_long (time_text h m s) = Some (h * 10000 + (m * 100 + s))"
    "0 < w \<Longrightarrow> w \<le> 9 \<Longrightarrow> y < 10 ^ w \<Longrightarrow> mo < 100 \<Longrightarrow> d < 100 \<Longrightarrow>
       str_to_time_as_long (fmt w y @ ''-'' @ fmt 2 mo @ ''-'' @ fmt 2 d @ '' '' @ time_text h m s) = Some (h * 10000 + (m * 100 + s))"
proof -
  have b: "h < 10 ^ 2" "m < 10 ^ 2" "s < 10 ^ 2" using assms by simp_all
  have ne: "fmt 2 n \<noteq> []" if "n < 10 ^ 2" for n using fmt_facts(1) [OF that] by auto
  have "time_fields 3 (skip_to_digit (time_text h m s)) [] = ([h, m, s], [])"
    using b skip_fmt(1) [of 2 s "[]"] by (simp add: time_text_def numeral_3_eq_3 time_fields_fmt del: time_fields.simps(2))
  then show one: "str_to_time_as_long (time_text h m s) = Some (h * 10000 + (m * 100 + s))"
    using assms ne [OF b(1)] by (subst str_to_time_as_long.simps) (auto simp: time_text_def)
  assume y: "0 < w" "w \<le> 9" "y < 10 ^ w" and mo: "mo < 100" "d < 100"
  let ?t = "fmt w y @ ''-'' @ fmt 2 mo @ ''-'' @ fmt 2 d @ '' '' @ time_text h m s"
  have "skip_to_digit (time_text h m s) = time_text h m s" using b by (simp add: time_text_def)
  then have "time_fields 3 (skip_to_digit ?t) [] = ([y, mo, d], time_text h m s)"
    using y mo by (simp add: numeral_3_eq_3 time_fields_fmt del: time_fields.simps(2))
  moreover have "time_text h m s \<noteq> []" using ne [OF b(1)] by (simp add: time_text_def)
  ultimately have "str_to_time_as_long ?t = str_to_time_as_long (time_text h m s)"
    by (subst str_to_time_as_long.simps) auto
  then show "str_to_time_as_long ?t = Some (h * 10000 + (m * 100 + s))" using one by simp
qed

text \<open>A text with a time, alone or behind a date, bound to a parameter of type time is sent as that time.\<close>

lemma insert_time_text:
  assumes "h < 24" "m < 60" "s < 60" "y < 10000" "mo < 100" "d < 100"
    "data = time_text h m s \<or> data = fmt 4 y @ ''-'' @ fmt 2 mo @ ''-'' @ fmt 2 d @ '' '' @ time_text h m s"
  shows "insert_time True data = Some (Inr (time_text h m s))"
proof -
  have "str_to_time_as_long data = Some (h * 10000 + (m * 100 + s))"
    using assms(7) time_of_text(1) [OF assms(1-3)] time_of_text(2) [OF assms(1-3), of 4 y mo d] assms(4-6) by auto
  moreover have "CHR ''.'' \<notin> set data" using assms(7) by (auto simp: time_text_def)
  moreover have "(h * 10000 + (m * 100 + s)) div 10000 = h" "(h * 10000 + (m * 100 + s)) div 100 mod 100 = m" "(h * 10000 + (m * 100 + s)) mod 100 = s"
  proof -
    let ?t = "h * 10000 + (m * 100 + s)"
    have x: "m * 100 + s < 10000" using assms by linarith
    have y: "?t = (h * 100 + m) * 100 + s" by (simp add: add_mult_distrib)
    show "?t div 10000 = h" using x by simp
    have "?t div 100 = h * 100 + m" unfolding y using assms(3) by simp
    then show "?t div 100 mod 100 = m" using assms(2) by simp
    have "?t mod 100 = s mod 100" unfolding y by (rule mod_mult_self3)
    then show "?t mod 100 = s" using assms(3) by simp
  qed
  ultimately show ?thesis using assms(1) by (simp add: insert_time_def no_fraction Let_def)
qed

text \<open>A timestamp bound to a parameter of type date is refused exactly when it has a time.\<close>

lemma insert_date_timestamp:
  assumes "ts_valid ts" "0 < ts_year ts" "data = param_timestamp min_date_to_zero ts"
  shows "insert_date bind no_date_overflow data =
    Some (if \<not> no_date_overflow \<and> time_fields_nonzero ts then Inl (''22008'', ''Date overflow'') else Inr data)"
proof -
  have "str_to_ts [] data (int (length data)) True True = str_to_ts [] data (- 3) True True" by (simp add: str_to_ts_def)
  also have "\<dots> = Inr ts" using timestamp_read [OF assms(1), of min_date_to_zero] assms(2,3) by simp
  finally have r: "str_to_ts [] data (int (length data)) True True = Inr ts" .
  have "fmt 4 (nat (ts_year ts)) \<noteq> []" "\<forall>c\<in>set (fmt 4 (nat (ts_year ts))). is_c_digit c" by (simp_all add: fmt_def fmt_chars)
  then have "\<not> (data \<noteq> [] \<and> hd data = CHR ''{'')"
    using assms(2,3) by (cases "fmt 4 (nat (ts_year ts))") (auto simp: param_timestamp_def date_text_def fmt_int_def is_c_digit_def)
  then show ?thesis using r by (auto simp: insert_date_def)
qed

section \<open>Texts that are read wrongly\<close>

text \<open>
  The sign of a negative time ends its first number, so that hours become minutes and minutes seconds.
  A time with a fraction of zeros is taken for a timestamp of which only the fraction is left. Minutes
  without seconds are seconds. A date of the year 0 whose month and day are equal, and not only the
  first of January, counts as the smallest date.
\<close>

lemma negative_time: "str_to_time_st ''-01:02:03'' = \<lparr>t_hour = 0, t_minute = 1, t_second = 2\<rparr>"
  by (simp add: str_to_time_st_def is_c_digit_def token_value_def atoi_def atol_def s32_def is_c_space_def digits_value_def to_usmallint_def)

lemma zero_fraction: "insert_time True ''10:11:12.0'' = Some (Inr (time_text 0 0 0))"
proof -
  have "time_fields 3 (skip_to_digit ''10:11:12.0'') [] = ([10, 11, 12], ''0'')" "time_fields 3 (skip_to_digit ''0'') [] = ([0], [])"
    by (simp_all add: numeral_3_eq_3 skip_to_digit_def is_c_digit_def uint_value_def u32_def digit_def)
  then have "str_to_time_as_long ''10:11:12.0'' = Some 0"
    using str_to_time_as_long.simps [of "''10:11:12.0''"] str_to_time_as_long.simps [of "''0''"] by simp
  moreover have "snd (get_fractional_part [] ''10:11:12.0'' (length ''10:11:12.0'') True) = 0" by code_simp
  ultimately show ?thesis by (simp add: insert_time_def)
qed

lemma hours_and_minutes: "insert_time True ''12:45'' = Some (Inr (time_text 0 0 12))"
proof -
  have "time_fields (Suc (Suc (Suc 0))) ''12:45'' [] = ([12, 45], [])"
    by (simp add: skip_to_digit_def is_c_digit_def uint_value_def u32_def digit_def)
  then have "time_fields 3 ''12:45'' [] = ([12, 45], [])" unfolding numeral_3_eq_3 .
  moreover have "skip_to_digit ''12:45'' = ''12:45''" by (simp add: skip_to_digit_def is_c_digit_def)
  ultimately have "str_to_time_as_long ''12:45'' = Some 12"
    unfolding str_to_time_as_long.simps [of "''12:45''"] by simp
  then show ?thesis by (simp add: insert_time_def no_fraction)
qed

lemma not_smallest_date: "param_date True \<lparr>d_year = 0, d_month = 5, d_day = 5\<rparr> = ''0000-00-00''"
  by (simp add: param_date_def)

text \<open>The date and time of an escape sequence.\<close>

lemma trim_end_append: "s \<noteq> [] \<Longrightarrow> is_ts_char (last s) \<Longrightarrow> \<forall>c\<in>set u. \<not> is_ts_char c \<Longrightarrow> trim_end (s @ u) = s"
proof (induction u rule: rev_induct)
  case Nil
  then show ?case by (simp add: trim_end.simps [of s])
next
  case (snoc c u)
  then have "trim_end (s @ u @ [c]) = trim_end (s @ u)" by (subst trim_end.simps) (auto simp: butlast_append Suc_lessI)
  then show ?case using snoc by simp
qed

lemma escape_sequence:
  assumes "s \<noteq> []" "is_ts_char (hd s)" "is_ts_char (last s)" "\<forall>c\<in>set u. \<not> is_ts_char c" "\<forall>c\<in>set v. \<not> is_ts_char c"
  shows "get_date_time_substr (u @ s @ v) = Some s"
proof -
  have "dropWhile (\<lambda>c. \<not> is_ts_char c) (u @ s @ v) = s @ v" using assms(1,2,4) by (cases s) (simp_all add: dropWhile_append3)
  then show ?thesis using assms(1) trim_end_append [OF assms(1,3,5)] by (simp add: get_date_time_substr_def)
qed

end
