(* ===== verification/Spec2Isabelle.thy ===== *)
theory Spec2Isabelle
  imports Query_Parsing Rds_Utils Sliding_Expiration_Cache Cache_Map Topology_Service Failover_Reader Failover_Writer
    Connection_String Monitor_Service Efm_Proxy Failover_Handler Limit_Scroller Sql_Numeric
    Auth_Proxy Secrets_Proxy Saml_Client Custom_Endpoint Date_Time
begin

text \<open>
  A verification development of the AWS ODBC driver for MySQL, a fork of Connector/ODBC that adds
  failover in Aurora clusters, failure detection and logins with AWS credentials. Paths are relative
  to \<^verbatim>\<open>src/\<close>.

  \<^bold>\<open>The program.\<close> The entry points of ODBC (\<^verbatim>\<open>driver/ansi.cc\<close>, \<^verbatim>\<open>driver/unicode.cc\<close>) convert the strings of
  the application and call the driver proper. A connection is configured by a \<^verbatim>\<open>DataSource\<close>, read from
  a connection string. Its calls to the MySQL client library go through a chain of proxies: a login
  proxy, which replaces the password by a token or a secret; the proxy of custom endpoints; the proxy
  for failure detection, which registers every network call with a monitor of the server; and the
  last one, which calls the library. When a statement fails with a communication error the failover
  handler of the connection asks the topology service for the instances of the cluster and connects
  to another one. The topology, the monitors, the tokens and the descriptions of endpoints are shared
  by all connections of the process and live in caches. Statements are parsed by the driver to find
  parameter markers, to tell their type and to fetch results in parts.

  \<^bold>\<open>Theories.\<close> Each opens with what it holds; operations have the names of the source.

  \<^item> \<^verbatim>\<open>Driver_Prelude\<close>: exceptions and undefined behaviour as values (\<^verbatim>\<open>res\<close>), stores of objects for what
    the code shares by pointer, clocks as functions of the number of the reading, the parts of the C++
    library that the components call, and the lemmas they share.
  \<^item> \<^verbatim>\<open>Std_Regex\<close>: the part of \<^verbatim>\<open>std::regex\<close> that the driver uses, as the list of all matches in the order
    of the backtracking search. \<^verbatim>\<open>Rds_Utils\<close>: the patterns of \<^verbatim>\<open>driver/rds_utils.cc\<close> on top of it, and
    what they accept (C3).
  \<^item> \<^verbatim>\<open>Query_Parsing\<close>: \<^verbatim>\<open>driver/query_parsing.cc\<close>, an index loop that edits its text, against a reference
    on tokens (C1).
  \<^item> \<^verbatim>\<open>Sql_Parser\<close>: \<^verbatim>\<open>driver/parse.cc\<close> with its tables of keywords and rules; parameter markers against a
    left-to-right scan, types of statements (C4, C6). \<^verbatim>\<open>Limit_Scroller\<close>: the scroller of
    \<^verbatim>\<open>driver/my_stmt.cc\<close> with the search of the clause LIMIT; its queries cover the result once (C15).
  \<^item> \<^verbatim>\<open>Sql_Numeric\<close>: \<^verbatim>\<open>sqlnum_from_str\<close> and \<^verbatim>\<open>sqlnum_to_str\<close> of \<^verbatim>\<open>driver/utility.cc\<close> on arrays of 32-bit
    words with their carries, and the callers in \<^verbatim>\<open>driver/results.cc\<close> and \<^verbatim>\<open>driver/execute.cc\<close>; value,
    ranges and round trip (C5, C14, C22). \<^verbatim>\<open>Date_Time\<close>: the conversions of dates and times of the same
    files; round trip of timestamps (C2), and what is read wrongly.
  \<^item> \<^verbatim>\<open>Cache_Interface\<close>: the contract of a cache with expiration, as the locale \<^verbatim>\<open>expiring_cache\<close>, with what
    a client may conclude for any history of operations; \<^verbatim>\<open>Sliding_Expiration_Cache\<close> and \<^verbatim>\<open>Cache_Map\<close>
    interpret it for the two caches of the driver (C7 to C9).
  \<^item> \<^verbatim>\<open>Host_Info\<close>, \<^verbatim>\<open>Cluster_Topology_Info\<close>, \<^verbatim>\<open>Topology_Service\<close>: hosts, topologies and the service with its
    process-wide cache; queried, cached and filtered topologies (C10, C11, C13).
  \<^item> \<^verbatim>\<open>Failover_Sync\<close>: what the failover threads share, and the locale \<^verbatim>\<open>step_system\<close> of a transition system
    with an invariant. \<^verbatim>\<open>Failover_Reader\<close> and \<^verbatim>\<open>Failover_Writer\<close>: the two kinds of failover as step
    systems in which every interleaving of the threads is a run; results, connections that nobody
    owns, exceptions, ends of threads (C16, C17, C19 to C21, C23, C24). Lemmas state the races that
    remain.
  \<^item> \<^verbatim>\<open>Failover_Handler\<close>: \<^verbatim>\<open>driver/failover_handler.cc\<close>, which decides when to fail over and installs the
    new connection (C39, C40).
  \<^item> \<^verbatim>\<open>Monitor_Context\<close>, \<^verbatim>\<open>Monitor\<close>, \<^verbatim>\<open>Monitor_Service\<close>, \<^verbatim>\<open>Efm_Proxy\<close>: failure detection from the judgement of
    one connection up to the container of all monitors with its threads, an interpretation of
    \<^verbatim>\<open>step_system\<close>, and the proxy that wraps each call (C25, C32 to C37).
  \<^item> \<^verbatim>\<open>Unicode_Transcode\<close>, \<^verbatim>\<open>String_Util\<close>: conversions between encodings with their wrap-around (C26 to C28).
    \<^verbatim>\<open>Data_Source\<close>, \<^verbatim>\<open>Connection_String\<close>: the options of \<^verbatim>\<open>util/installer.cc\<close>, and printing and parsing of
    connection strings (C29, C30). \<^verbatim>\<open>Host_List\<close>: the list of hosts of \<^verbatim>\<open>driver/connect.cc\<close> (C38).
  \<^item> \<^verbatim>\<open>Auth_Proxy\<close>: tokens and the logins of \<^verbatim>\<open>driver/iam_proxy.cc\<close>, \<^verbatim>\<open>driver/okta_proxy.cc\<close> and
    \<^verbatim>\<open>driver/adfs_proxy.cc\<close>, over the locale \<^verbatim>\<open>credential_source\<close> (C12). \<^verbatim>\<open>Secrets_Proxy\<close>: the login of
    \<^verbatim>\<open>driver/secrets_manager_proxy.cc\<close> (C31). \<^verbatim>\<open>Saml_Client\<close>: the HTTP client with its redirections and the
    texts of the federated logins. \<^verbatim>\<open>Custom_Endpoint\<close>: descriptions, monitors and proxy of custom
    endpoints, on both caches and the topology service (C18).

  \<^bold>\<open>State.\<close> A class is a record, an object that is shared by pointer a place in a store, and null is
  \<open>None\<close>. What the program gets from outside is an argument: the answers of the server, of the AWS
  services and of the HTTP library, the readings of the clocks, random choices, and in a sequential
  component what other threads do meanwhile. Hypotheses on these are named: \<open>steady\<close> for a clock that
  does not go back, \<open>env_ok\<close> and \<open>env_good\<close> for a topology service, a character set that is a superset
  of ASCII.

  \<^bold>\<open>Integers, loops, threads.\<close> Integers are kept at their width where the code relies on it
  (\<^verbatim>\<open>Unicode_Transcode\<close>, \<^verbatim>\<open>Sql_Numeric\<close>, the ports); elsewhere they are unbounded and stand for values that
  fit. Loops are structural recursions or have a termination proof; one runs on fuel. The parser of
  connection strings takes the number of iterations as an argument; as many as there are characters
  are enough for every printed data source, and C30 exhibits texts for which no number is. The
  matcher of \<^verbatim>\<open>Std_Regex\<close> ends because an iteration of a star that consumes nothing is rejected. Loops that
  need not end are partial functions: the redirections of \<^verbatim>\<open>Saml_Client\<close> and the wait of
  \<^verbatim>\<open>Custom_Endpoint\<close>, each with a lemma that tells when it ends. A step of a system is what a thread does under a lock or between two accesses to
  shared state.

  \<^bold>\<open>Not modelled.\<close> The vendored libraries of the MySQL server (\<^verbatim>\<open>mysql_strings/\<close>, \<^verbatim>\<open>mysql_sys/\<close> and others).
  The proxies that only delegate. Connecting, handles, descriptors, binding of buffers, execution and
  catalog functions: they move data between the buffers of the application and those of the client
  library, whose code is not part of the repository. Logging, telemetry and the metrics that are only
  logged. The setup dialogs and the installer program. The search of input tags in the sign-in page of
  ADFS, which uses lazy repetitions, and the calls of the security token service.
\<close>

end
